(* ===== verification/Go_Base.thy ===== *)
theory Go_Base imports Main "HOL-Library.AList" begin

text \<open>
  The prelude: the parts of the Go language that every component of the model shares.

  \<^item> Go's \<^verbatim>\<open>int\<close>, \<^verbatim>\<open>int64\<close> and \<^verbatim>\<open>time.Duration\<close> are 64-bit two's complement
    integers (the model fixes a 64-bit platform). They are HOL \<open>int\<close>s; every arithmetic
    step whose result could leave the range is written with \<open>wrap64\<close>.
  \<^item> \<^verbatim>\<open>time.Time\<close> is the number of nanoseconds since the Unix epoch.
  \<^item> A Go \<^verbatim>\<open>map\<close> is an association list with distinct keys. The order of the list is the
    order in which a \<^verbatim>\<open>range\<close> loop visits the map; Go leaves that order open, so every
    theorem quantifies over it, and lookups do not depend on it.
\<close>

section \<open>Collections of facts\<close>

named_theorems go_arith \<open>arithmetic of Go's fixed-width integers\<close>
named_theorems go_map \<open>lookups in Go maps\<close>

section \<open>Fixed-width integers\<close>

type_synonym go_int = int
type_synonym duration = int
type_synonym time = int

definition in_int64 :: "int \<Rightarrow> bool" where
  "in_int64 x \<longleftrightarrow> - (2 ^ 63) \<le> x \<and> x < 2 ^ 63"

definition wrap64 :: "int \<Rightarrow> int" where
  "wrap64 x = (x + 2 ^ 63) mod 2 ^ 64 - 2 ^ 63"

definition sat64 :: "int \<Rightarrow> int" where
  "sat64 x = max (- (2 ^ 63)) (min (2 ^ 63 - 1) x)"

text \<open>Go's integer division truncates towards zero. A zero divisor panics; every use in the
  source is guarded by a test of the divisor, so the value given here for it is never read.\<close>

definition quot64 :: "int \<Rightarrow> int \<Rightarrow> int" where
  "quot64 a b = wrap64 (sgn a * sgn b * (\<bar>a\<bar> div \<bar>b\<bar>))"

lemma wrap64_in_range [simp]: "in_int64 (wrap64 x)"
proof -
  have "0 \<le> (x + 2 ^ 63) mod 2 ^ 64" and "(x + 2 ^ 63) mod 2 ^ 64 < 2 ^ 64"
    by simp_all
  then show ?thesis by (simp add: in_int64_def wrap64_def)
qed

lemma wrap64_id [go_arith]: "in_int64 x \<Longrightarrow> wrap64 x = x"
  by (simp add: in_int64_def wrap64_def)

lemma wrap64_idem [simp]: "wrap64 (wrap64 x) = wrap64 x"
  by (simp add: wrap64_id)

lemma wrap64_add_left [go_arith]: "wrap64 (wrap64 x + y) = wrap64 (x + y)"
  and wrap64_add_right [go_arith]: "wrap64 (x + wrap64 y) = wrap64 (x + y)"
  and wrap64_diff_left [go_arith]: "wrap64 (wrap64 x - y) = wrap64 (x - y)"
  by (simp_all add: wrap64_def algebra_simps mod_simps)

lemma in_int64I: "- (2 ^ 62) \<le> x \<Longrightarrow> x \<le> 2 ^ 62 \<Longrightarrow> in_int64 x"
  by (simp add: in_int64_def)

lemma sat64_in_range [simp]: "in_int64 (sat64 x)"
  by (simp add: in_int64_def sat64_def)

lemma sat64_id [go_arith]: "in_int64 x \<Longrightarrow> sat64 x = x"
  by (simp add: in_int64_def sat64_def)

lemma sat64_mono: "x \<le> y \<Longrightarrow> sat64 x \<le> sat64 y"
  by (simp add: sat64_def)

lemma sat64_ge_iff: "0 \<le> y \<Longrightarrow> in_int64 y \<Longrightarrow> y \<le> sat64 x \<longleftrightarrow> y \<le> x"
  by (auto simp: sat64_def in_int64_def)

lemma sat64_gt_iff: "0 \<le> y \<Longrightarrow> y < 2 ^ 63 - 1 \<Longrightarrow> y < sat64 x \<longleftrightarrow> y < x"
  by (auto simp: sat64_def)

lemma quot64_nonneg:
  assumes "0 \<le> a" "0 < b" "in_int64 a"
  shows "quot64 a b = a div b"
proof -
  have "0 \<le> a div b" "a div b \<le> a"
    using assms int_div_le_self [of a b]
    by (cases "a = 0", auto simp: pos_imp_zdiv_nonneg_iff)+
  then have "in_int64 (a div b)" using assms(3) by (simp add: in_int64_def)
  moreover have "sgn a * sgn b * (\<bar>a\<bar> div \<bar>b\<bar>) = a div b"
    using assms by (cases "a = 0") auto
  ultimately show ?thesis by (simp add: quot64_def wrap64_id)
qed

section \<open>Time\<close>

definition nanosecond :: duration where "nanosecond = 1"
definition millisecond :: duration where "millisecond = 1000000"
definition second :: duration where "second = 1000000000"
definition minute :: duration where "minute = 60000000000"

text \<open>\<^verbatim>\<open>Time.Sub\<close> saturates; \<^verbatim>\<open>time.Time{}\<close> is the first instant of year 1.\<close>

definition time_Sub :: "time \<Rightarrow> time \<Rightarrow> duration" where
  "time_Sub t u = sat64 (t - u)"

definition time_zero :: time where
  "time_zero = - 62135596800 * 1000000000"

lemmas time_defs = nanosecond_def millisecond_def second_def minute_def

section \<open>Maps\<close>

type_synonym ('k, 'v) gomap = "('k \<times> 'v) list"

definition wf_map :: "('k, 'v) gomap \<Rightarrow> bool" where
  "wf_map m \<longleftrightarrow> distinct (map fst m)"

abbreviation map_get :: "('k, 'v) gomap \<Rightarrow> 'k \<Rightarrow> 'v option" where
  "map_get \<equiv> map_of"

definition map_put :: "'k \<Rightarrow> 'v \<Rightarrow> ('k, 'v) gomap \<Rightarrow> ('k, 'v) gomap" where
  "map_put = AList.update"

definition map_del :: "'k \<Rightarrow> ('k, 'v) gomap \<Rightarrow> ('k, 'v) gomap" where
  "map_del = AList.delete"

lemma map_get_put [simp, go_map]: "map_get (map_put k v m) k' = (if k' = k then Some v else map_get m k')"
  by (simp add: map_put_def update_conv')

lemma map_get_del [simp, go_map]: "map_get (map_del k m) k' = (if k' = k then None else map_get m k')"
  by (simp add: map_del_def delete_conv')

lemma wf_map_Nil [simp]: "wf_map []"
  by (simp add: wf_map_def)

lemma wf_map_put [simp]: "wf_map m \<Longrightarrow> wf_map (map_put k v m)"
  by (simp add: wf_map_def map_put_def distinct_update)

lemma wf_map_del [simp]: "wf_map m \<Longrightarrow> wf_map (map_del k m)"
  by (simp add: wf_map_def map_del_def distinct_delete)

lemma wf_map_filter [simp]: "wf_map m \<Longrightarrow> wf_map (filter P m)"
  by (auto simp: wf_map_def distinct_map intro: inj_on_subset)

lemma map_get_perm:
  assumes "wf_map xs" "wf_map ys" "set xs = set ys"
  shows "map_get xs = map_get ys"
  using assms by (simp add: wf_map_def map_of_inject_set)

lemma map_get_filter:
  "wf_map m \<Longrightarrow> map_get (filter (\<lambda>(k, v). P v) m) k =
    (case map_get m k of Some v \<Rightarrow> if P v then Some v else None | None \<Rightarrow> None)"
proof (induction m)
  case (Cons x m)
  obtain a v where x: "x = (a, v)" by (metis prod.exhaust)
  have m: "wf_map m" "map_get m a = None" using Cons.prems by (auto simp: wf_map_def x map_of_eq_None_iff)
  then show ?case using Cons.IH by (auto simp: x)
qed simp

lemma map_get_map: "map_get (map (\<lambda>(k, v). (k, f v)) m) k = map_option f (map_get m k)"
  by (simp add: map_of_map)

lemma map_get_in_set: "wf_map m \<Longrightarrow> map_get m k = Some v \<longleftrightarrow> (k, v) \<in> set m"
  by (simp add: wf_map_def)

section \<open>Lists\<close>

lemma length_remove1_Suc: "x \<in> set xs \<Longrightarrow> Suc (length (remove1 x xs)) = length xs"
  by (induction xs) auto

end
