(* ===== verification/Float64.thy ===== *)
theory Float64 imports Complex_Main "HOL-Library.Log_Nat" Go_Base begin

text \<open>
  Go's \<^verbatim>\<open>float64\<close>: IEEE 754 binary64 with rounding to nearest, ties to even.

  A finite value is its exact rational value. An operation computes the exact result and
  rounds it (\<open>rnd\<close>), which is what the standard prescribes for addition, subtraction,
  multiplication, division and the conversion from an integer. The two zeros are one value:
  no code of the repository takes the reciprocal or the sign bit of a zero, the only two
  ways to tell them apart. Fused multiply-add, which Go allows on some platforms, is not
  used: the model is that of amd64, where the compiler never fuses.
\<close>

section \<open>Values and their order\<close>

datatype f64 = NInf | Fin rat | PInf | NaN

text \<open>
  A linear order on all values, with NaN on top. Go's comparisons agree with it except
  that every comparison with NaN is false.
\<close>

instantiation f64 :: linorder
begin

fun less_eq_f64 :: "f64 \<Rightarrow> f64 \<Rightarrow> bool" where
  "less_eq_f64 NInf b = True"
| "less_eq_f64 (Fin x) (Fin y) = (x \<le> y)"
| "less_eq_f64 (Fin x) NInf = False"
| "less_eq_f64 (Fin x) b = True"
| "less_eq_f64 PInf PInf = True"
| "less_eq_f64 PInf NaN = True"
| "less_eq_f64 PInf b = False"
| "less_eq_f64 NaN NaN = True"
| "less_eq_f64 NaN b = False"

definition less_f64 :: "f64 \<Rightarrow> f64 \<Rightarrow> bool" where
  "less_f64 a b \<longleftrightarrow> a \<le> b \<and> \<not> b \<le> a"

instance
proof
  fix a b c :: f64
  show "a < b \<longleftrightarrow> a \<le> b \<and> \<not> b \<le> a" by (rule less_f64_def)
  show "a \<le> a" by (cases a) auto
  show "a \<le> b \<Longrightarrow> b \<le> c \<Longrightarrow> a \<le> c" by (cases a; cases b; cases c) auto
  show "a \<le> b \<Longrightarrow> b \<le> a \<Longrightarrow> a = b" by (cases a; cases b) auto
  show "a \<le> b \<or> b \<le> a" by (cases a; cases b) auto
qed

end

lemma f64_less_simps [simp]:
  "Fin x < Fin y \<longleftrightarrow> x < y" "NInf < Fin y" "NInf < PInf" "Fin x < PInf" "a < NaN \<longleftrightarrow> a \<noteq> NaN"
  "\<not> a < NInf" "\<not> NaN < a" "\<not> PInf < Fin y" "\<not> PInf < PInf"
  by (cases a; auto simp: less_f64_def)+

definition feq :: "f64 \<Rightarrow> f64 \<Rightarrow> bool" where
  "feq a b \<longleftrightarrow> a \<noteq> NaN \<and> a = b"

definition flt :: "f64 \<Rightarrow> f64 \<Rightarrow> bool" where
  "flt a b \<longleftrightarrow> a \<noteq> NaN \<and> b \<noteq> NaN \<and> a < b"

definition fle :: "f64 \<Rightarrow> f64 \<Rightarrow> bool" where
  "fle a b \<longleftrightarrow> a \<noteq> NaN \<and> b \<noteq> NaN \<and> a \<le> b"

lemma flt_Fin [simp]: "flt (Fin x) (Fin y) \<longleftrightarrow> x < y"
  and fle_Fin [simp]: "fle (Fin x) (Fin y) \<longleftrightarrow> x \<le> y"
  and feq_Fin [simp]: "feq (Fin x) (Fin y) \<longleftrightarrow> x = y"
  and flt_NaN [simp]: "\<not> flt NaN a" "\<not> flt a NaN"
  and fle_NaN [simp]: "\<not> fle NaN a" "\<not> fle a NaN"
  and feq_NaN [simp]: "\<not> feq NaN a" "\<not> feq a NaN"
  by (auto simp: flt_def fle_def feq_def)

lemma flt_asym: "flt a b \<Longrightarrow> \<not> flt b a"
  and flt_trans: "flt a b \<Longrightarrow> flt b c \<Longrightarrow> flt a c"
  and flt_irrefl [simp]: "\<not> flt a a"
  by (auto simp: flt_def)

section \<open>Rounding\<close>

text \<open>The nearest integer, ties to the even one.\<close>

definition round_even :: "rat \<Rightarrow> int" where
  "round_even x = (let f = \<lfloor>x\<rfloor>; d = x - of_int f in
     if d < 1 / 2 then f else if 1 / 2 < d then f + 1 else if even f then f else f + 1)"

lemma round_even_bounds: "x - 1 / 2 \<le> of_int (round_even x)" "of_int (round_even x) \<le> x + 1 / 2"
  unfolding round_even_def Let_def using floor_correct [of x] by (cases "even \<lfloor>x\<rfloor>"; simp only: if_True if_False not_False_eq_True split: if_splits; linarith)+

lemma round_even_of_int [simp]: "round_even (of_int n) = n"
  by (simp add: round_even_def)

lemma round_even_mono:
  assumes "x \<le> y"
  shows "round_even x \<le> round_even y"
proof (cases "\<lfloor>x\<rfloor> = \<lfloor>y\<rfloor>")
  case True
  then show ?thesis using assms by (auto simp: round_even_def Let_def)
next
  case False
  then have "\<lfloor>x\<rfloor> + 1 \<le> \<lfloor>y\<rfloor>" using floor_mono [OF assms] by linarith
  moreover have "round_even x \<le> \<lfloor>x\<rfloor> + 1" and "\<lfloor>y\<rfloor> \<le> round_even y"
    by (auto simp: round_even_def Let_def)
  ultimately show ?thesis by linarith
qed

lemma round_even_minus: "round_even (- x) = - round_even x"
proof (cases "x = of_int \<lfloor>x\<rfloor>")
  case True
  then show ?thesis by (metis of_int_minus round_even_of_int)
next
  case False
  then have *: "\<lfloor>- x\<rfloor> = - \<lfloor>x\<rfloor> - 1"
    using floor_correct [of x] by (intro floor_unique) (auto simp: less_le)
  show ?thesis unfolding round_even_def Let_def * by (auto simp: field_simps)
qed

text \<open>The binade: \<open>ilog2 r\<close> is the floor of the binary logarithm of a positive \<open>r\<close>.\<close>

definition ilog2 :: "rat \<Rightarrow> int" where
  "ilog2 r = (let (p, q) = quotient_of r; k = bitlen p - bitlen q in
     if 2 powi k \<le> r then k else k - 1)"

lemma powi2_less_iff: "(2 :: rat) powi a < 2 powi b \<longleftrightarrow> a < b"
  and powi2_le_iff: "(2 :: rat) powi a \<le> 2 powi b \<longleftrightarrow> a \<le> b"
  using power_int_strict_increasing [of a b "2 :: rat"] power_int_strict_increasing [of b a "2 :: rat"]
  by (cases a b rule: linorder_cases; simp)+

lemma powi2_pos [simp]: "0 < (2 :: rat) powi a"
  by simp

lemma powi2_int:
  assumes "0 \<le> k"
  shows "(2 :: rat) powi k = of_int (2 ^ nat k)"
  using assms by (simp add: power_int_def)

lemma bitlen_powi:
  assumes "0 < (p :: int)"
  shows "2 powi (bitlen p - 1) \<le> (of_int p :: rat)" "(of_int p :: rat) < 2 powi bitlen p"
proof -
  have pos: "1 \<le> bitlen p"
    using assms bitlen_bounds [of p] by (cases "bitlen p = 0") (auto simp: bitlen_nonneg less_le)
  have "(2 :: rat) ^ nat (bitlen p - 1) \<le> of_int p"
    using bitlen_bounds [OF assms] by (metis of_int_le_iff of_int_numeral of_int_power)
  then show "2 powi (bitlen p - 1) \<le> (of_int p :: rat)"
    using pos by (simp add: power_int_def)
  have "of_int p < (2 :: rat) ^ nat (bitlen p)"
    using bitlen_bounds [OF assms] by (metis of_int_less_iff of_int_numeral of_int_power)
  then show "(of_int p :: rat) < 2 powi bitlen p"
    using pos by (simp add: power_int_def)
qed

lemma ilog2_bounds:
  assumes "0 < r"
  shows "2 powi ilog2 r \<le> r" "r < 2 powi (ilog2 r + 1)"
proof -
  obtain p q where pq: "quotient_of r = (p, q)" by (cases "quotient_of r")
  have q: "0 < q" and r: "r = of_int p / of_int q"
    using pq by (auto intro: quotient_of_denom_pos quotient_of_div)
  then have p: "0 < p" using assms by (simp add: zero_less_divide_iff)
  let ?k = "bitlen p - bitlen q"
  note bp = bitlen_powi [OF p] and bq = bitlen_powi [OF q]
  have "2 powi (?k - 1) = (2 powi (bitlen p - 1) :: rat) / 2 powi bitlen q"
    by (simp add: power_int_diff)
  also have "\<dots> \<le> r"
    unfolding r using bp bq p q by (intro frac_le) auto
  finally have lo: "2 powi (?k - 1) \<le> r" .
  have "r \<le> of_int p / 2 powi (bitlen q - 1)"
    unfolding r using bp bq p q by (intro divide_left_mono) auto
  also have "\<dots> < 2 powi bitlen p / 2 powi (bitlen q - 1)"
    using bp by (intro divide_strict_right_mono) auto
  also have "\<dots> = 2 powi (?k + 1)"
    by (simp add: power_int_diff power_int_add)
  finally have hi: "r < 2 powi (?k + 1)" .
  show "2 powi ilog2 r \<le> r" "r < 2 powi (ilog2 r + 1)"
    using lo hi by (auto simp: ilog2_def pq Let_def)
qed

lemma ilog2_unique:
  assumes "2 powi k \<le> r" "r < 2 powi (k + 1)"
  shows "ilog2 r = k"
proof -
  have "0 < r" using assms(1) by (metis less_le_trans zero_less_power_int zero_less_numeral)
  note b = ilog2_bounds [OF this]
  have "(2 :: rat) powi ilog2 r < 2 powi (k + 1)" "(2 :: rat) powi k < 2 powi (ilog2 r + 1)"
    using b assms by auto
  then show ?thesis by (simp add: powi2_less_iff)
qed

lemma ilog2_mono: "0 < x \<Longrightarrow> x \<le> y \<Longrightarrow> ilog2 x \<le> ilog2 y"
proof -
  assume "0 < x" "x \<le> y"
  then have "(2 :: rat) powi ilog2 x < 2 powi (ilog2 y + 1)"
    using ilog2_bounds [of x] ilog2_bounds [of y] by linarith
  then show ?thesis by (simp add: powi2_less_iff)
qed

text \<open>
  The exponent of the grid that holds the values of \<open>r\<close>'s binade (53 significant bits, but
  never finer than the subnormal grid), and the rounded value, not yet bounded above.
\<close>

definition grid_exp :: "rat \<Rightarrow> int" where
  "grid_exp r = max (- 1074) (ilog2 \<bar>r\<bar> - 52)"

definition rnd_val :: "rat \<Rightarrow> rat" where
  "rnd_val r = (if r = 0 then 0
     else let u = 2 powi grid_exp r in of_int (round_even (r / u)) * u)"

definition max_f64 :: rat where
  "max_f64 = 2 powi 1024"

definition rnd :: "rat \<Rightarrow> f64" where
  "rnd r = (let v = rnd_val r in
     if max_f64 \<le> v then PInf else if v \<le> - max_f64 then NInf else Fin v)"

lemma grid_exp_minus [simp]: "grid_exp (- r) = grid_exp r"
  by (simp add: grid_exp_def)

lemma rnd_val_0 [simp]: "rnd_val 0 = 0"
  by (simp add: rnd_val_def)

lemma rnd_val_minus: "rnd_val (- r) = - rnd_val r"
  by (simp add: rnd_val_def Let_def round_even_minus)

text \<open>Rounding never crosses a power of two that lies on the grid.\<close>

lemma rnd_val_le_powi:
  assumes "0 < r" "r \<le> 2 powi k" "- 1074 \<le> k"
  shows "rnd_val r \<le> 2 powi k"
proof -
  have "ilog2 r \<le> k"
  proof -
    have "(2 :: rat) powi ilog2 r \<le> 2 powi k"
      using assms ilog2_bounds [of r] by linarith
    then show ?thesis by (simp add: powi2_le_iff)
  qed
  then have g: "grid_exp r \<le> k" using assms by (simp add: grid_exp_def)
  let ?u = "(2 :: rat) powi grid_exp r"
  have "r / ?u \<le> 2 powi (k - grid_exp r)"
    using assms by (simp add: power_int_diff divide_right_mono)
  also have "\<dots> = of_int (2 ^ nat (k - grid_exp r))"
    using g by (intro powi2_int) simp
  finally have "round_even (r / ?u) \<le> 2 ^ nat (k - grid_exp r)"
    using round_even_mono round_even_of_int by metis
  then have "(of_int (round_even (r / ?u)) :: rat) \<le> of_int (2 ^ nat (k - grid_exp r))"
    by (simp only: of_int_le_iff)
  also have "\<dots> = 2 powi (k - grid_exp r)"
    using g by (subst powi2_int) auto
  finally have "of_int (round_even (r / ?u)) * ?u \<le> 2 powi (k - grid_exp r) * ?u"
    by (intro mult_right_mono) auto
  also have "\<dots> = 2 powi k" by (simp add: power_int_diff)
  finally show ?thesis using assms(1) by (simp add: rnd_val_def Let_def)
qed

lemma rnd_val_ge_powi:
  assumes "2 powi k \<le> r" "- 1074 \<le> k"
  shows "2 powi k \<le> rnd_val r"
proof -
  have r: "0 < r" using assms(1) by (metis less_le_trans powi2_pos)
  show ?thesis
  proof (cases "grid_exp r \<le> k")
    case True
    let ?u = "(2 :: rat) powi grid_exp r"
    have "of_int (2 ^ nat (k - grid_exp r)) = (2 :: rat) powi (k - grid_exp r)"
      using True by (subst powi2_int) auto
    also have "\<dots> \<le> r / ?u"
      using assms by (simp add: power_int_diff divide_right_mono)
    finally have "2 ^ nat (k - grid_exp r) \<le> round_even (r / ?u)"
      using round_even_mono round_even_of_int by metis
    then have "(of_int (2 ^ nat (k - grid_exp r)) :: rat) \<le> of_int (round_even (r / ?u))"
      by (simp only: of_int_le_iff)
    then have "2 powi (k - grid_exp r) * ?u \<le> of_int (round_even (r / ?u)) * ?u"
      using True by (intro mult_right_mono) (auto simp: powi2_int)
    then show ?thesis using r by (simp add: rnd_val_def Let_def power_int_diff)
  next
    case False
    then have g: "grid_exp r = ilog2 r - 52" using assms r by (simp add: grid_exp_def split: if_splits)
    let ?u = "(2 :: rat) powi grid_exp r"
    have "of_int (2 ^ 52) = (2 :: rat) powi (ilog2 r - grid_exp r)"
      by (simp add: g)
    also have "\<dots> \<le> r / ?u"
      using ilog2_bounds [OF r] by (simp add: power_int_diff divide_right_mono)
    finally have "2 ^ 52 \<le> round_even (r / ?u)"
      using round_even_mono round_even_of_int by metis
    then have "(of_int (2 ^ 52) :: rat) \<le> of_int (round_even (r / ?u))"
      by (simp only: of_int_le_iff)
    then have *: "of_int (2 ^ 52) * ?u \<le> of_int (round_even (r / ?u)) * ?u"
      by (intro mult_right_mono) auto
    have "(2 :: rat) powi k \<le> ?u" using False by (simp add: powi2_le_iff)
    also have "?u \<le> of_int (2 ^ 52) * ?u" by simp
    also note *
    finally show ?thesis using r by (simp add: rnd_val_def Let_def)
  qed
qed

lemma rnd_val_nonneg: "0 \<le> r \<Longrightarrow> 0 \<le> rnd_val r"
proof (cases "r = 0")
  case False
  assume "0 \<le> r"
  then have "round_even 0 \<le> round_even (r / 2 powi grid_exp r)"
    by (intro round_even_mono) simp
  then have "0 \<le> round_even (r / 2 powi grid_exp r)"
    using round_even_of_int [of 0] by simp
  then show ?thesis using False by (simp add: rnd_val_def Let_def)
qed simp

lemma rnd_val_mono_pos:
  assumes "0 < x" "x \<le> y"
  shows "rnd_val x \<le> rnd_val y"
proof (cases "grid_exp x = grid_exp y")
  case True
  have "round_even (x / 2 powi grid_exp y) \<le> round_even (y / 2 powi grid_exp y)"
    using assms by (intro round_even_mono divide_right_mono) auto
  then show ?thesis using assms True by (simp add: rnd_val_def Let_def mult_right_mono)
next
  case False
  have "grid_exp x \<le> grid_exp y"
    using ilog2_mono [OF assms] assms by (simp add: grid_exp_def)
  with False have lt: "ilog2 x < ilog2 y" "- 1074 \<le> ilog2 y"
    using assms by (auto simp: grid_exp_def split: if_splits)
  have "x \<le> 2 powi (ilog2 x + 1)"
    using ilog2_bounds [OF assms(1)] by simp
  also have "\<dots> \<le> (2 :: rat) powi ilog2 y" using lt by (simp add: powi2_le_iff)
  finally have "rnd_val x \<le> 2 powi ilog2 y"
    using assms lt by (intro rnd_val_le_powi) auto
  also have "\<dots> \<le> rnd_val y"
    using assms lt ilog2_bounds [of y] by (intro rnd_val_ge_powi) auto
  finally show ?thesis .
qed

lemma rnd_val_mono: "x \<le> y \<Longrightarrow> rnd_val x \<le> rnd_val y"
proof -
  assume le: "x \<le> y"
  consider "0 < x" | "x \<le> 0" "0 \<le> y" | "y < 0" by linarith
  then show ?thesis
  proof cases
    case 1
    then show ?thesis using le by (rule rnd_val_mono_pos)
  next
    case 2
    then have "0 \<le> rnd_val (- x)" "0 \<le> rnd_val y" by (auto intro: rnd_val_nonneg)
    then show ?thesis by (simp add: rnd_val_minus)
  next
    case 3
    then have "rnd_val (- y) \<le> rnd_val (- x)" using le by (intro rnd_val_mono_pos) auto
    then show ?thesis by (simp add: rnd_val_minus)
  qed
qed

text \<open>Values on the grid round to themselves.\<close>

definition representable :: "rat \<Rightarrow> bool" where
  "representable r \<longleftrightarrow> rnd r = Fin r"

lemma rnd_val_exact:
  assumes "\<bar>m\<bar> \<le> 2 ^ 53" "- 1074 \<le> e"
  shows "rnd_val (of_int m * 2 powi e) = of_int m * 2 powi e"
proof (cases "m = 0")
  case False
  let ?r = "of_int m * (2 :: rat) powi e"
  show ?thesis
  proof (cases "\<bar>m\<bar> = 2 ^ 53")
    case True
    have *: "rnd_val (2 powi (53 + e)) = 2 powi (53 + e)"
      using assms(2) rnd_val_le_powi [of "2 powi (53 + e)" "53 + e"] rnd_val_ge_powi [of "53 + e" "2 powi (53 + e)"]
      by (intro antisym) auto
    consider "m = 2 ^ 53" | "m = - (2 ^ 53)" using True by linarith
    then show ?thesis
      using * rnd_val_minus [of "2 powi (53 + e)"] by cases (auto simp: power_int_add)
  next
    case m: False
    have "of_int \<bar>m\<bar> * (2 :: rat) powi e < of_int (2 ^ 53) * 2 powi e"
      using m assms by (intro mult_strict_right_mono) (auto simp only: of_int_less_iff powi2_pos)
    then have "\<bar>?r\<bar> < 2 powi (53 + e)" by (simp add: abs_mult power_int_add)
    moreover have "2 powi ilog2 \<bar>?r\<bar> \<le> \<bar>?r\<bar>" using False by (intro ilog2_bounds) simp
    ultimately have "(2 :: rat) powi ilog2 \<bar>?r\<bar> < 2 powi (53 + e)" by linarith
    then have g: "grid_exp ?r \<le> e" using assms by (simp add: powi2_less_iff grid_exp_def)
    have "?r / 2 powi grid_exp ?r = of_int m * 2 powi (e - grid_exp ?r)"
      by (simp add: power_int_diff)
    also have "\<dots> = of_int (m * 2 ^ nat (e - grid_exp ?r))"
      using g by (subst powi2_int) auto
    finally have "round_even (?r / 2 powi grid_exp ?r) = m * 2 ^ nat (e - grid_exp ?r)"
      using round_even_of_int by metis
    then have "rnd_val ?r = of_int (m * 2 ^ nat (e - grid_exp ?r)) * 2 powi grid_exp ?r"
      using False by (simp add: rnd_val_def Let_def)
    also have "\<dots> = of_int m * (2 powi (e - grid_exp ?r) * 2 powi grid_exp ?r)"
      using g by (simp add: powi2_int)
    also have "\<dots> = ?r" by (simp add: power_int_diff)
    finally show ?thesis .
  qed
qed simp

lemma rnd_of_int:
  assumes "\<bar>n\<bar> \<le> 2 ^ 53"
  shows "rnd (of_int n) = Fin (of_int n)"
proof -
  have "rnd_val (of_int n) = of_int n" using rnd_val_exact [of n 0] assms by simp
  moreover have "of_int \<bar>n\<bar> < max_f64"
  proof -
    have "of_int \<bar>n\<bar> \<le> (of_int (2 ^ 53) :: rat)" using assms by (simp only: of_int_le_iff)
    also have "\<dots> = 2 powi 53" by simp
    also have "\<dots> < max_f64" unfolding max_f64_def by (simp only: powi2_less_iff)
    finally show ?thesis .
  qed
  ultimately show ?thesis by (auto simp: rnd_def Let_def)
qed

text \<open>Rounding twice is rounding once.\<close>

lemma rnd_val_idem: "rnd_val (rnd_val r) = rnd_val r"
proof -
  have pos: "rnd_val (rnd_val r) = rnd_val r" if r: "0 < r" for r
  proof -
    let ?u = "(2 :: rat) powi grid_exp r"
    have "r \<le> 2 powi (ilog2 r + 1)" using ilog2_bounds [OF r] by simp
    also have "\<dots> \<le> (2 :: rat) powi (53 + grid_exp r)" using r by (simp only: powi2_le_iff) (simp add: grid_exp_def)
    also have "\<dots> = of_int (2 ^ 53) * ?u" by (simp add: power_int_add)
    finally have "r / ?u \<le> of_int (2 ^ 53)" by (simp add: divide_le_eq)
    then have "round_even (r / ?u) \<le> 2 ^ 53"
      using round_even_mono round_even_of_int by metis
    moreover have "0 \<le> round_even (r / ?u)"
      using round_even_mono [of 0 "r / ?u"] round_even_of_int [of 0] r by simp
    ultimately have "rnd_val (of_int (round_even (r / ?u)) * ?u) = of_int (round_even (r / ?u)) * ?u"
      by (intro rnd_val_exact) (auto simp: grid_exp_def)
    then show ?thesis using r by (simp add: rnd_val_def [of r] Let_def)
  qed
  consider "r = 0" | "0 < r" | "0 < - r" by linarith
  then show ?thesis
    using pos [of r] pos [of "- r"] by cases (auto simp: rnd_val_minus)
qed

lemma rnd_FinD: "rnd x = Fin v \<Longrightarrow> v = rnd_val x"
  by (auto simp: rnd_def Let_def split: if_splits)

lemma rnd_rnd_val: "rnd (rnd_val x) = rnd x"
  by (simp only: rnd_def rnd_val_idem)

lemma rnd_idem: "rnd x = Fin v \<Longrightarrow> rnd v = Fin v"
  using rnd_rnd_val rnd_FinD by metis

text \<open>The overflow test by the binary logarithm, which evaluates without writing out \<open>2 powi 1024\<close>.\<close>

lemma ilog2_ge_iff: "0 < v \<Longrightarrow> k \<le> ilog2 v \<longleftrightarrow> 2 powi k \<le> v"
proof
  assume v: "0 < v" and "k \<le> ilog2 v"
  then have "(2 :: rat) powi k \<le> 2 powi ilog2 v" by (simp add: powi2_le_iff)
  also have "\<dots> \<le> v" using ilog2_bounds [OF v] by simp
  finally show "2 powi k \<le> v" .
next
  assume v: "0 < v" and "2 powi k \<le> v"
  then have "(2 :: rat) powi k < 2 powi (ilog2 v + 1)"
    using ilog2_bounds [OF v] by linarith
  then show "k \<le> ilog2 v" by (simp add: powi2_less_iff)
qed

lemma rnd_by_ilog2:
  "rnd r = (let v = rnd_val r in
     if v = 0 then Fin 0
     else if 1024 \<le> ilog2 \<bar>v\<bar> then (if 0 < v then PInf else NInf) else Fin v)"
proof (cases "rnd_val r = 0")
  case False
  then have "0 < \<bar>rnd_val r\<bar>" by simp
  from ilog2_ge_iff [OF this, of 1024] False show ?thesis
    unfolding rnd_def Let_def max_f64_def
    by (cases "0 < rnd_val r") (simp_all add: abs_if not_le)
qed (simp add: rnd_def Let_def max_f64_def)

lemma rnd_code [code]:
  "rnd r = (let (p, q) = quotient_of r in if q = 1 \<and> \<bar>p\<bar> \<le> 2 ^ 53 then Fin r
     else let v = rnd_val r in
     if v = 0 then Fin 0
     else if 1024 \<le> ilog2 \<bar>v\<bar> then (if 0 < v then PInf else NInf) else Fin v)"
proof -
  obtain p q where pq: "quotient_of r = (p, q)" by (cases "quotient_of r")
  show ?thesis
  proof (cases "q = 1 \<and> \<bar>p\<bar> \<le> 2 ^ 53")
    case True
    then have "r = of_int p" using quotient_of_div [OF pq] by simp
    then show ?thesis using rnd_of_int [of p] True by (simp add: pq)
  next
    case False
    show ?thesis
      unfolding pq Let_def prod.case if_not_P [OF False] by (rule rnd_by_ilog2 [unfolded Let_def])
  qed
qed

lemma rnd_mono: "x \<le> y \<Longrightarrow> rnd x \<le> rnd y"
  using rnd_val_mono [of x y] by (auto simp: rnd_def Let_def max_f64_def)

lemma rnd_not_NaN [simp]: "rnd x \<noteq> NaN"
  by (simp add: rnd_def Let_def)

lemma rnd_0 [simp]: "rnd 0 = Fin 0"
  using rnd_of_int [of 0] by simp

lemma rnd_le_PInf [simp]: "rnd x \<le> PInf"
  by (simp add: rnd_def Let_def)

lemma rnd_1 [simp]: "rnd 1 = Fin 1"
  using rnd_of_int [of 1] by simp

lemma rnd_val_le_abs:
  assumes "x \<le> 2 powi k" "- 1074 \<le> k"
  shows "rnd_val x \<le> 2 powi k"
proof (cases "0 < x")
  case True
  then show ?thesis using assms by (rule rnd_val_le_powi)
next
  case False
  then have "0 \<le> rnd_val (- x)" by (intro rnd_val_nonneg) simp
  then have "rnd_val x \<le> 0" by (simp add: rnd_val_minus)
  then show ?thesis using powi2_pos [of k] by linarith
qed

lemma rnd_finite:
  assumes "\<bar>x\<bar> \<le> 2 powi 1023"
  shows "rnd x = Fin (rnd_val x)"
proof -
  define B :: rat where "B = 2 powi 1023"
  have "B < max_f64" unfolding max_f64_def B_def by (simp only: powi2_less_iff)
  moreover have "x \<le> B" "- x \<le> B" using assms unfolding B_def abs_le_iff by blast+
  then have "rnd_val x \<le> B" "rnd_val (- x) \<le> B"
    unfolding B_def by (simp_all only: rnd_val_le_abs)
  ultimately show ?thesis unfolding rnd_def Let_def rnd_val_minus by auto
qed

lemma rnd_nonneg: "0 \<le> x \<Longrightarrow> Fin 0 \<le> rnd x"
  using rnd_mono [of 0 x] by simp

section \<open>Arithmetic\<close>

fun fadd :: "f64 \<Rightarrow> f64 \<Rightarrow> f64" where
  "fadd NaN b = NaN"
| "fadd a NaN = NaN"
| "fadd (Fin x) (Fin y) = rnd (x + y)"
| "fadd PInf NInf = NaN"
| "fadd NInf PInf = NaN"
| "fadd (Fin x) b = b"
| "fadd a b = a"

fun fneg :: "f64 \<Rightarrow> f64" where
  "fneg NaN = NaN"
| "fneg (Fin x) = Fin (- x)"
| "fneg PInf = NInf"
| "fneg NInf = PInf"

definition fsub :: "f64 \<Rightarrow> f64 \<Rightarrow> f64" where
  "fsub a b = fadd a (fneg b)"

text \<open>An infinity with the sign of \<open>x\<close>; NaN where the standard has no sign to give.\<close>

definition inf_of :: "rat \<Rightarrow> f64" where
  "inf_of x = (if 0 < x then PInf else if x < 0 then NInf else NaN)"

fun fmul :: "f64 \<Rightarrow> f64 \<Rightarrow> f64" where
  "fmul NaN b = NaN"
| "fmul a NaN = NaN"
| "fmul (Fin x) (Fin y) = rnd (x * y)"
| "fmul (Fin x) PInf = inf_of x"
| "fmul (Fin x) NInf = inf_of (- x)"
| "fmul PInf (Fin y) = inf_of y"
| "fmul NInf (Fin y) = inf_of (- y)"
| "fmul PInf PInf = PInf"
| "fmul PInf NInf = NInf"
| "fmul NInf PInf = NInf"
| "fmul NInf NInf = PInf"

text \<open>A finite value divided by zero is an infinity (the zero counts as positive) or NaN.\<close>

fun fdiv :: "f64 \<Rightarrow> f64 \<Rightarrow> f64" where
  "fdiv NaN b = NaN"
| "fdiv a NaN = NaN"
| "fdiv (Fin x) (Fin y) = (if y = 0 then inf_of x else rnd (x / y))"
| "fdiv (Fin x) b = Fin 0"
| "fdiv PInf (Fin y) = (if y < 0 then NInf else PInf)"
| "fdiv NInf (Fin y) = (if y < 0 then PInf else NInf)"
| "fdiv a b = NaN"

fun fabs :: "f64 \<Rightarrow> f64" where
  "fabs NaN = NaN"
| "fabs (Fin x) = Fin \<bar>x\<bar>"
| "fabs a = PInf"

text \<open>Conversions. A decimal constant of the source is \<open>rnd\<close> of its exact value.\<close>

definition f64_of_int :: "int \<Rightarrow> f64" where
  "f64_of_int n = rnd (of_int n)"

text \<open>\<^verbatim>\<open>int(x)\<close> truncates. The language leaves the result open when it does not fit; the
  amd64 instruction gives the least integer.\<close>

fun int_of_f64 :: "f64 \<Rightarrow> int" where
  "int_of_f64 (Fin x) = (let n = (if 0 \<le> x then \<lfloor>x\<rfloor> else \<lceil>x\<rceil>) in
     if in_int64 n then n else - (2 ^ 63))"
| "int_of_f64 a = - (2 ^ 63)"

text \<open>\<^verbatim>\<open>math.Round\<close> (half away from zero) and \<^verbatim>\<open>math.Ceil\<close>: both results are exact.\<close>

fun fround :: "f64 \<Rightarrow> f64" where
  "fround (Fin x) = Fin (of_int (if 0 \<le> x then \<lfloor>x + 1 / 2\<rfloor> else \<lceil>x - 1 / 2\<rceil>))"
| "fround a = a"

fun fceil :: "f64 \<Rightarrow> f64" where
  "fceil (Fin x) = Fin (of_int \<lceil>x\<rceil>)"
| "fceil a = a"

lemmas f64_ops = fsub_def f64_of_int_def inf_of_def

lemma f64_of_int_exact: "\<bar>n\<bar> \<le> 2 ^ 53 \<Longrightarrow> f64_of_int n = Fin (of_int n)"
  by (simp add: f64_of_int_def rnd_of_int)

lemma f64_of_int_code [code]:
  "f64_of_int n = (if \<bar>n\<bar> \<le> 2 ^ 53 then Fin (of_int n) else rnd (of_int n))"
  by (simp add: f64_of_int_exact) (simp add: f64_of_int_def)

lemma f64_of_int_mono: "m \<le> n \<Longrightarrow> f64_of_int m \<le> f64_of_int n"
  by (simp add: f64_of_int_def rnd_mono)

lemma f64_of_int_finite:
  assumes "in_int64 n"
  obtains v where "f64_of_int n = Fin v"
proof -
  have "\<bar>of_int n\<bar> \<le> (of_int (2 ^ 63) :: rat)"
    using assms unfolding in_int64_def of_int_abs [symmetric] of_int_le_iff by linarith
  also have "\<dots> = 2 powi 63" by simp
  also have "\<dots> \<le> 2 powi 1023" by (simp only: powi2_le_iff)
  finally show thesis using rnd_finite that by (metis f64_of_int_def)
qed

lemma f64_of_int_not_NaN [simp]: "f64_of_int n \<noteq> NaN"
  by (simp add: f64_of_int_def)

lemma fmul_mono_pos: "fle a b \<Longrightarrow> 0 < z \<Longrightarrow> fle (fmul a (Fin z)) (fmul b (Fin z))"
  by (cases a; cases b) (auto simp: fle_def inf_of_def intro: rnd_mono)

lemma fdiv_mono_pos: "fle a b \<Longrightarrow> 0 < z \<Longrightarrow> fle (fdiv a (Fin z)) (fdiv b (Fin z))"
  by (cases a; cases b) (auto simp: fle_def divide_right_mono intro: rnd_mono)

lemma int_of_f64_mono:
  assumes "fle (Fin 0) a" "fle a (Fin y)" "y < 2 ^ 63"
  shows "int_of_f64 a \<le> int_of_f64 (Fin y)"
proof -
  obtain x where x: "a = Fin x" "0 \<le> x" "x \<le> y" using assms by (cases a) (auto simp: fle_def)
  then have "0 \<le> \<lfloor>x\<rfloor>" "\<lfloor>x\<rfloor> \<le> \<lfloor>y\<rfloor>" "\<lfloor>y\<rfloor> < 2 ^ 63"
    using assms(3) by (auto intro: floor_mono simp: floor_less_iff)
  then show ?thesis using x by (auto simp: Let_def in_int64_def)
qed

lemma in_int64_floor_small: "in_int64 n \<Longrightarrow> int_of_f64 (Fin (of_int n)) = n"
  by simp

lemma int_of_f64_in_range [simp]: "in_int64 (int_of_f64 a)"
  by (cases a) (auto simp: Let_def in_int64_def)

section \<open>Non-negative values\<close>

lemma fadd_nonneg: "fle (Fin 0) a \<Longrightarrow> fle (Fin 0) b \<Longrightarrow> fle (Fin 0) (fadd a b)"
  by (cases a; cases b) (auto simp: fle_def rnd_nonneg)

lemma fadd_mono_nonneg:
  "fle (Fin 0) a \<Longrightarrow> fle a b \<Longrightarrow> fle (Fin 0) c \<Longrightarrow> fle c d \<Longrightarrow> fle (fadd a c) (fadd b d)"
  by (cases a; cases b; cases c; cases d) (auto simp: fle_def intro: rnd_mono)

lemma fmul_nonneg: "0 \<le> x \<Longrightarrow> 0 \<le> y \<Longrightarrow> fle (Fin 0) (fmul (Fin x) (Fin y))"
  by (simp add: fle_def rnd_nonneg)

lemma fle_trans: "fle a b \<Longrightarrow> fle b c \<Longrightarrow> fle a c"
  and fle_refl: "a \<noteq> NaN \<Longrightarrow> fle a a"
  by (auto simp: fle_def)

text \<open>Values the format can represent; every result of an operation is one.\<close>

definition f64_ok :: "f64 \<Rightarrow> bool" where
  "f64_ok a \<longleftrightarrow> (case a of Fin v \<Rightarrow> representable v | _ \<Rightarrow> True)"

lemma f64_ok_rnd [simp]: "f64_ok (rnd x)"
  using rnd_idem [of x] by (cases "rnd x") (auto simp: f64_ok_def representable_def)

lemma f64_ok_fadd [simp]: "f64_ok a \<Longrightarrow> f64_ok b \<Longrightarrow> f64_ok (fadd a b)"
  by (cases a; cases b) (auto, simp_all add: f64_ok_def)

lemma f64_ok_0 [simp]: "f64_ok (Fin 0)"
  by (simp add: f64_ok_def representable_def)

lemma fadd_0_left: "f64_ok a \<Longrightarrow> fadd (Fin 0) a = a"
  by (cases a) (auto simp: f64_ok_def representable_def)

lemma fadd_ge_left:
  assumes "f64_ok a" "fle (Fin 0) a" "fle (Fin 0) b"
  shows "fle a (fadd a b)"
proof (cases a; cases b)
  fix x y
  assume ab: "a = Fin x" "b = Fin y"
  then have "rnd x = Fin x" using assms(1) by (simp add: f64_ok_def representable_def)
  moreover have "rnd x \<le> rnd (x + y)" using assms(3) ab by (intro rnd_mono) simp
  ultimately show "fle a (fadd a b)" using ab by (simp add: fle_def)
qed (use assms in \<open>simp_all add: fle_def\<close>)

lemma fsub_mono:
  "b' \<le> b \<Longrightarrow> fle t u \<Longrightarrow> fle (Fin 0) t \<Longrightarrow> fle (fsub (Fin b') u) (fsub (Fin b) t)"
  by (cases t; cases u) (auto simp: fsub_def fle_def intro: rnd_mono)

lemmas fsub_antimono = fsub_mono [OF order_refl]

section \<open>Durations as seconds\<close>

text \<open>\<^verbatim>\<open>Duration.Seconds()\<close>: whole seconds plus the remaining nanoseconds over 1e9.\<close>

definition Seconds :: "duration \<Rightarrow> f64" where
  "Seconds d =
    (let sec = quot64 d second; nsec = d - sec * second in
     fadd (f64_of_int sec) (fdiv (f64_of_int nsec) (Fin 1000000000)))"

end
