(* ===== verification/Go_Strings.thy ===== *)
theory Go_Strings imports Float64 "HOL-Library.Word" begin

text \<open>
  What the code uses of Go's \<^verbatim>\<open>strings\<close> and \<^verbatim>\<open>strconv\<close> packages. A string is the list of
  its bytes.

  \<open>ParseFloat\<close> covers the decimal syntax and the names of the infinities and NaN; strings that
  contain an underscore or an \<open>x\<close> (hexadecimal literals) go to the parameter \<open>ext\<close>, the rest of
  the standard parser, of which nothing is assumed.
\<close>

section \<open>Cutting and splitting\<close>

fun strings_Cut :: "char \<Rightarrow> string \<Rightarrow> string \<times> string \<times> bool" where
  "strings_Cut sep [] = ([], [], False)"
| "strings_Cut sep (c # cs) =
    (if c = sep then ([], cs, True)
     else case strings_Cut sep cs of (before, after, found) \<Rightarrow> (c # before, after, found))"

fun strings_Split :: "char \<Rightarrow> string \<Rightarrow> string list" where
  "strings_Split sep [] = [[]]"
| "strings_Split sep (c # cs) =
    (if c = sep then [] # strings_Split sep cs
     else case strings_Split sep cs of [] \<Rightarrow> [[c]] | p # ps \<Rightarrow> (c # p) # ps)"

text \<open>\<^verbatim>\<open>SplitN(s, sep, 2)\<close>.\<close>

definition strings_SplitN2 :: "char \<Rightarrow> string \<Rightarrow> string list" where
  "strings_SplitN2 sep s = (case strings_Cut sep s of (before, after, found) \<Rightarrow> if found then [before, after] else [s])"

fun join :: "char \<Rightarrow> string list \<Rightarrow> string" where
  "join sep [] = []"
| "join sep [p] = p"
| "join sep (p # ps) = p @ sep # join sep ps"

lemma strings_Cut_absent: "sep \<notin> set s \<Longrightarrow> strings_Cut sep s = (s, [], False)"
  by (induction s) auto

lemma strings_Cut_append: "sep \<notin> set p \<Longrightarrow> strings_Cut sep (p @ sep # s) = (p, s, True)"
  by (induction p) auto

lemma strings_Split_ne [simp]: "strings_Split sep s \<noteq> []"
  by (cases s) (auto split: list.splits)

lemma strings_Split_absent: "sep \<notin> set s \<Longrightarrow> strings_Split sep s = [s]"
  by (induction s) auto

lemma strings_Split_append: "sep \<notin> set p \<Longrightarrow> strings_Split sep (p @ sep # s) = p # strings_Split sep s"
  by (induction p) auto

lemma strings_Split_join:
  "ps \<noteq> [] \<Longrightarrow> (\<And>p. p \<in> set ps \<Longrightarrow> sep \<notin> set p) \<Longrightarrow> strings_Split sep (join sep ps) = ps"
  by (induction sep ps rule: join.induct) (simp_all add: strings_Split_absent strings_Split_append)

lemma join_strings_Split: "join sep (strings_Split sep s) = s"
proof (induction s)
  case (Cons c cs)
  obtain p ps where ps: "strings_Split sep cs = p # ps" by (cases "strings_Split sep cs") auto
  then show ?case using Cons by (cases ps) auto
qed simp

lemma strings_Split_no_sep: "p \<in> set (strings_Split sep s) \<Longrightarrow> sep \<notin> set p"
proof (induction s arbitrary: p)
  case (Cons c cs)
  obtain q qs where qs: "strings_Split sep cs = q # qs" by (cases "strings_Split sep cs") auto
  then show ?case using Cons by (auto split: if_splits)
qed simp

section \<open>Trimming\<close>

text \<open>
  \<^verbatim>\<open>strings.TrimSpace\<close> and \<^verbatim>\<open>bytes.TrimSpace\<close>: the UTF-8 encodings of the code points with the White\_Space property,
  dropped from the left, then from the right.
\<close>

definition white_encodings :: "nat list list" where
  "white_encodings = [[9], [10], [11], [12], [13], [32], [0xC2, 0x85], [0xC2, 0xA0], [0xE1, 0x9A, 0x80]]
     @ map (\<lambda>b. [0xE2, 0x80, b]) ([0x80..<0x8B] @ [0xA8, 0xA9, 0xAF]) @ [[0xE2, 0x81, 0x9F], [0xE3, 0x80, 0x80]]"

definition white_strings :: "string list" where
  "white_strings = map (map char_of) white_encodings"

function drop_white :: "string list \<Rightarrow> string \<Rightarrow> string" where
  "drop_white ws s = (case find (\<lambda>w. w \<noteq> [] \<and> take (length w) s = w) ws of
     None \<Rightarrow> s | Some w \<Rightarrow> drop_white ws (drop (length w) s))"
  by pat_completeness auto
termination
proof (relation "measure (\<lambda>(ws, s). length s)")
  fix ws :: "string list" and s w
  assume "find (\<lambda>w. w \<noteq> [] \<and> take (length w) s = w) ws = Some w"
  then have "w \<noteq> []" "take (length w) s = w" by (auto simp: find_Some_iff)
  then show "((ws, drop (length w) s), ws, s) \<in> measure (\<lambda>(ws, s). length s)" by (cases s) auto
qed simp

declare drop_white.simps [simp del]

definition TrimSpace :: "string \<Rightarrow> string" where
  "TrimSpace s = rev (drop_white (map rev white_strings) (rev (drop_white white_strings s)))"

section \<open>Decimal integers\<close>

definition digit_char :: "nat \<Rightarrow> char" where
  "digit_char d = char_of (48 + d)"

definition is_digit :: "char \<Rightarrow> bool" where
  "is_digit c \<longleftrightarrow> 48 \<le> (of_char c :: nat) \<and> (of_char c :: nat) \<le> 57"

definition digit_val :: "char \<Rightarrow> nat" where
  "digit_val c = of_char c - 48"

fun dec_nat :: "nat \<Rightarrow> string" where
  "dec_nat n = (if n < 10 then [digit_char n] else dec_nat (n div 10) @ [digit_char (n mod 10)])"

declare dec_nat.simps [simp del]

definition FormatUint :: "64 word \<Rightarrow> string" where
  "FormatUint n = dec_nat (unat n)"

definition FormatInt :: "int \<Rightarrow> string" where
  "FormatInt n = (if n < 0 then CHR ''-'' # dec_nat (nat (- n)) else dec_nat (nat n))"

definition digits_val :: "string \<Rightarrow> nat" where
  "digits_val s = foldl (\<lambda>v c. 10 * v + digit_val c) 0 s"

text \<open>\<^verbatim>\<open>ParseInt(s, 10, 64)\<close>: a syntax or range error is \<open>None\<close>.\<close>

definition ParseInt :: "string \<Rightarrow> int option" where
  "ParseInt s =
    (let (neg, ds) = (case s of [] \<Rightarrow> (False, [])
       | c # cs \<Rightarrow> if c = CHR ''-'' then (True, cs) else if c = CHR ''+'' then (False, cs) else (False, s));
         v = int (digits_val ds); v = (if neg then - v else v)
     in if ds \<noteq> [] \<and> list_all is_digit ds \<and> in_int64 v then Some v else None)"

lemma digit_char_simps [simp]:
  "d < 10 \<Longrightarrow> is_digit (digit_char d)" "d < 10 \<Longrightarrow> digit_val (digit_char d) = d"
  by (simp_all add: is_digit_def digit_val_def digit_char_def)

lemma dec_nat_digits: "list_all is_digit (dec_nat n)"
  by (induction n rule: dec_nat.induct) (subst dec_nat.simps, simp)

lemma dec_nat_ne [simp]: "dec_nat n \<noteq> []"
  by (subst dec_nat.simps) simp

lemma digits_val_dec_nat [simp]: "digits_val (dec_nat n) = n"
proof (induction n rule: dec_nat.induct)
  case (1 n)
  then show ?case by (subst dec_nat.simps) (simp add: digits_val_def)
qed

lemma dec_nat_inject: "dec_nat m = dec_nat n \<longleftrightarrow> m = n"
  using digits_val_dec_nat by metis

lemma dec_nat_no_sign: "dec_nat n = c # cs \<Longrightarrow> c \<noteq> CHR ''-'' \<and> c \<noteq> CHR ''+''"
  using dec_nat_digits [of n] by (auto simp: is_digit_def)

lemma ParseInt_FormatInt: "in_int64 n \<Longrightarrow> ParseInt (FormatInt n) = Some n"
proof (cases "n < 0")
  case True
  then show "in_int64 n \<Longrightarrow> ?thesis" by (simp add: ParseInt_def FormatInt_def dec_nat_digits Let_def)
next
  case False
  obtain c cs where c: "dec_nat (nat n) = c # cs" by (cases "dec_nat (nat n)") auto
  then show "in_int64 n \<Longrightarrow> ?thesis"
    using False dec_nat_no_sign [OF c] dec_nat_digits [of "nat n"] digits_val_dec_nat [of "nat n"]
    by (simp add: ParseInt_def FormatInt_def Let_def)
qed

lemma FormatUint_inject: "FormatUint m = FormatUint n \<longleftrightarrow> m = n"
  by (simp add: FormatUint_def dec_nat_inject word_unat_eq_iff)

lemma FormatInt_no_dot: "CHR ''.'' \<notin> set (FormatInt n)"
  using dec_nat_digits [of "nat n"] dec_nat_digits [of "nat (- n)"]
  by (auto simp: FormatInt_def list_all_iff is_digit_def)

section \<open>Decimal floating-point numbers\<close>

definition lower :: "char \<Rightarrow> char" where
  "lower c = (if 65 \<le> (of_char c :: nat) \<and> (of_char c :: nat) \<le> 90 then char_of ((of_char c :: nat) + 32) else c)"

definition split_sign :: "string \<Rightarrow> bool \<times> string" where
  "split_sign s = (case s of [] \<Rightarrow> (False, [])
     | c # cs \<Rightarrow> if c = CHR ''-'' then (True, cs) else if c = CHR ''+'' then (False, cs) else (False, s))"

text \<open>The exponent saturates the way the parser's loop does.\<close>

definition exp_val :: "string \<Rightarrow> int" where
  "exp_val ds = foldl (\<lambda>e c. if e < 10000 then e * 10 + int (digit_val c) else e) 0 ds"

definition parse_exponent :: "string \<Rightarrow> int option" where
  "parse_exponent s =
    (case s of [] \<Rightarrow> Some 0
     | c # cs \<Rightarrow> if lower c \<noteq> CHR ''e'' then None
         else let (neg, ds) = split_sign cs in
           if ds \<noteq> [] \<and> list_all is_digit ds then Some (if neg then - exp_val ds else exp_val ds) else None)"

definition parse_decimal :: "string \<Rightarrow> rat option" where
  "parse_decimal s =
    (let ip = takeWhile is_digit s; r = dropWhile is_digit s;
         (fp, r) = (case r of [] \<Rightarrow> ([], []) | c # cs \<Rightarrow>
           if c = CHR ''.'' then (takeWhile is_digit cs, dropWhile is_digit cs) else ([], r))
     in if ip = [] \<and> fp = [] then None
        else map_option (\<lambda>e. of_nat (digits_val (ip @ fp)) * 10 powi (e - int (length fp))) (parse_exponent r))"

definition plain_float :: "string \<Rightarrow> bool" where
  "plain_float s \<longleftrightarrow> (\<forall>c \<in> set s. c \<noteq> CHR ''_'' \<and> lower c \<noteq> CHR ''x'')"

definition ParseFloat :: "(string \<Rightarrow> f64 option) \<Rightarrow> string \<Rightarrow> f64 option" where
  "ParseFloat ext s =
    (if \<not> plain_float s then ext s
     else if map lower s = ''nan'' then Some NaN
     else
       let (neg, b) = split_sign s in
       if map lower b = ''inf'' \<or> map lower b = ''infinity'' then Some (if neg then NInf else PInf)
       else case parse_decimal b of
         None \<Rightarrow> None
       | Some q \<Rightarrow> (case rnd (if neg then - q else q) of Fin v \<Rightarrow> Some (Fin v) | _ \<Rightarrow> None))"

section \<open>Parsing what was printed\<close>

lemma lower_digit: "is_digit c \<Longrightarrow> lower c = c \<and> c \<noteq> CHR ''_'' \<and> c \<noteq> CHR ''x'' \<and> c \<noteq> CHR ''n'' \<and> c \<noteq> CHR ''i''"
  by (auto simp: is_digit_def lower_def)

lemma map_lower_dec_nat: "map lower (dec_nat n) = dec_nat n"
  using dec_nat_digits [of n] by (auto simp: list_all_iff lower_digit intro: map_idI)

lemma parse_decimal_dec_nat: "parse_decimal (dec_nat n) = Some (of_nat n)"
proof -
  have tw: "takeWhile is_digit (dec_nat n) = dec_nat n" "dropWhile is_digit (dec_nat n) = []"
    using dec_nat_digits [of n] by (simp_all add: list_all_iff)
  show ?thesis unfolding parse_decimal_def tw by (simp add: parse_exponent_def Let_def)
qed

lemma dec_nat_hd:
  obtains c cs where "dec_nat n = c # cs" "is_digit c" "c \<noteq> CHR ''-''" "c \<noteq> CHR ''+''"
proof -
  obtain c cs where c: "dec_nat n = c # cs" by (cases "dec_nat n") auto
  then show thesis using that dec_nat_no_sign [OF c] dec_nat_digits [of n] by simp
qed

lemma ParseFloat_FormatInt:
  assumes "\<bar>n\<bar> \<le> 2 ^ 53"
  shows "ParseFloat ext (FormatInt n) = Some (Fin (of_int n))"
proof -
  have low: "lower CHR ''-'' = CHR ''-''" by code_simp
  have plain: "plain_float (FormatInt n)"
    using dec_nat_digits [of "nat n"] dec_nat_digits [of "nat (- n)"] low
    by (auto simp: plain_float_def FormatInt_def list_all_iff lower_digit)
  obtain c cs where c: "dec_nat (nat \<bar>n\<bar>) = c # cs" "is_digit c" "c \<noteq> CHR ''-''" "c \<noteq> CHR ''+''" by (rule dec_nat_hd)
  have split: "split_sign (FormatInt n) = (n < 0, dec_nat (nat \<bar>n\<bar>))"
    using c by (cases "n < 0") (simp_all add: split_sign_def FormatInt_def)
  have ne: "map lower (FormatInt n) \<noteq> ''nan''" "map lower (dec_nat (nat \<bar>n\<bar>)) \<noteq> ''inf''"
      "map lower (dec_nat (nat \<bar>n\<bar>)) \<noteq> ''infinity''"
    using c lower_digit [OF c(2)] low by (cases "n < 0"; auto simp: FormatInt_def map_lower_dec_nat)+
  have r: "rnd (of_int n) = Fin (of_int n)" by (rule rnd_of_int [OF assms])
  have "(if n < 0 then - of_nat (nat \<bar>n\<bar>) else of_nat (nat \<bar>n\<bar>)) = (of_int n :: rat)" by simp
  then show ?thesis
    using plain split ne r by (simp add: ParseFloat_def parse_decimal_dec_nat Let_def)
qed

lemma FormatInt_no_colon: "CHR '':'' \<notin> set (FormatInt n)"
  using dec_nat_digits [of "nat n"] dec_nat_digits [of "nat (- n)"]
  by (auto simp: FormatInt_def list_all_iff is_digit_def)

end
