(* ===== verification/Caddyfile.thy ===== *)
theory Caddyfile imports Go_Strings begin

text \<open>
  The frame of the Caddyfile parsers. The dispenser of tokens is Caddy's
  (\<^verbatim>\<open>caddyfile.Dispenser\<close>): a record of its operations over a state of any type. A loop
  \<^verbatim>\<open>for d.NextBlock(n)\<close> is \<open>block_loop\<close>; it carries fuel, since nothing in the parser's own
  code bounds it, and \<open>None\<close> is running out of fuel. What a parser relies on is that the
  dispenser consumes its tokens (\<open>consumes\<close>): then fuel above their number is enough.
\<close>

section \<open>The dispenser\<close>

record 'd dispenser =
  dp_Next :: "'d \<Rightarrow> bool \<times> 'd"
  dp_NextBlock :: "nat \<Rightarrow> 'd \<Rightarrow> bool \<times> 'd"
  dp_NextArg :: "'d \<Rightarrow> bool \<times> 'd"
  dp_Val :: "'d \<Rightarrow> string"
  dp_RemainingArgs :: "'d \<Rightarrow> string list \<times> 'd"

text \<open>An \<^verbatim>\<open>Errf\<close> is kept as its format up to the first verb and its string arguments.\<close>

datatype parse_error = ArgErr | Errf string "string list"

type_synonym ('d, 'a) parsed = "(parse_error + 'd \<times> 'a) option"

definition accept :: "'d \<Rightarrow> 'a \<Rightarrow> ('d, 'a) parsed" where
  "accept d x = Some (Inr (d, x))"

definition fail :: "parse_error \<Rightarrow> ('d, 'a) parsed" where
  "fail e = Some (Inl e)"

text \<open>\<^verbatim>\<open>if !d.NextArg() { return d.ArgErr() }\<close>, then \<^verbatim>\<open>d.Val()\<close>.\<close>

definition with_arg :: "'d dispenser \<Rightarrow> 'd \<Rightarrow> ('d \<Rightarrow> string \<Rightarrow> ('d, 'a) parsed) \<Rightarrow> ('d, 'a) parsed" where
  "with_arg D d f = (case dp_NextArg D d of (False, _) \<Rightarrow> fail ArgErr | (True, d) \<Rightarrow> f d (dp_Val D d))"

definition with_args :: "'d dispenser \<Rightarrow> 'd \<Rightarrow> ('d \<Rightarrow> string list \<Rightarrow> ('d, 'a) parsed) \<Rightarrow> ('d, 'a) parsed" where
  "with_args D d f = (case dp_RemainingArgs D d of (args, d) \<Rightarrow> f d args)"

text \<open>A directive with one argument that is stored as it is, or parsed first.\<close>

definition set_string :: "'d dispenser \<Rightarrow> 'd \<Rightarrow> (string \<Rightarrow> 'a) \<Rightarrow> ('d, 'a) parsed" where
  "set_string D d put = with_arg D d (\<lambda>d v. accept d (put v))"

definition set_parsed :: "'d dispenser \<Rightarrow> 'd \<Rightarrow> (string \<Rightarrow> 'v option) \<Rightarrow> string \<Rightarrow> ('v \<Rightarrow> 'a) \<Rightarrow> ('d, 'a) parsed" where
  "set_parsed D d parse what put = with_arg D d (\<lambda>d v.
     case parse v of None \<Rightarrow> fail (Errf (''invalid '' @ what) [v]) | Some n \<Rightarrow> accept d (put n))"

fun block_loop :: "nat \<Rightarrow> ('d \<Rightarrow> bool \<times> 'd) \<Rightarrow> ('d \<Rightarrow> 'a \<Rightarrow> ('d, 'a) parsed) \<Rightarrow> 'd \<Rightarrow> 'a \<Rightarrow> ('d, 'a) parsed" where
  "block_loop 0 nxt body d x = None"
| "block_loop (Suc n) nxt body d x =
    (case nxt d of
       (False, d) \<Rightarrow> accept d x
     | (True, d) \<Rightarrow> (case body d x of
         None \<Rightarrow> None
       | Some (Inl e) \<Rightarrow> fail e
       | Some (Inr (d, x)) \<Rightarrow> block_loop n nxt body d x))"

section \<open>What every parsed value satisfies\<close>

text \<open>\<open>all_parsed P r\<close>: if \<open>r\<close> is a value it satisfies \<open>P\<close>.\<close>

definition all_parsed :: "('a \<Rightarrow> bool) \<Rightarrow> ('d, 'a) parsed \<Rightarrow> bool" where
  "all_parsed P r \<longleftrightarrow> (case r of Some (Inr (d, x)) \<Rightarrow> P x | _ \<Rightarrow> True)"

named_theorems parsed_ok \<open>introduction rules for all_parsed\<close>

lemma all_parsed_accept [parsed_ok]: "P x \<Longrightarrow> all_parsed P (accept d x)"
  and all_parsed_fail [parsed_ok]: "all_parsed P (fail e)"
  and all_parsed_None [parsed_ok]: "all_parsed P None"
  by (simp_all add: all_parsed_def accept_def fail_def)

lemma all_parsedD: "all_parsed P r \<Longrightarrow> r = Some (Inr (d, x)) \<Longrightarrow> P x"
  by (simp add: all_parsed_def)

lemma all_parsed_with_arg [parsed_ok]: "(\<And>d v. all_parsed P (f d v)) \<Longrightarrow> all_parsed P (with_arg D d f)"
  by (auto simp: with_arg_def parsed_ok split: prod.split bool.split)

lemma all_parsed_with_args [parsed_ok]: "(\<And>d args. all_parsed P (f d args)) \<Longrightarrow> all_parsed P (with_args D d f)"
  by (auto simp: with_args_def split: prod.split)

lemma all_parsed_set_string [parsed_ok]: "(\<And>v. P (put v)) \<Longrightarrow> all_parsed P (set_string D d put)"
  by (auto simp: set_string_def intro!: parsed_ok)

lemma all_parsed_set_parsed [parsed_ok]: "(\<And>v n. parse v = Some n \<Longrightarrow> P (put n)) \<Longrightarrow> all_parsed P (set_parsed D d parse what put)"
  by (auto simp: set_parsed_def intro!: parsed_ok split: option.split)

lemma all_parsed_if [parsed_ok]:
  "(b \<Longrightarrow> all_parsed P r) \<Longrightarrow> (\<not> b \<Longrightarrow> all_parsed P s) \<Longrightarrow> all_parsed P (if b then r else s)"
  by simp

lemma all_parsed_loop [parsed_ok]:
  assumes "\<And>d x. P x \<Longrightarrow> all_parsed P (body d x)"
  shows "P x \<Longrightarrow> all_parsed P (block_loop n nxt body d x)"
proof (induction n arbitrary: d x)
  case (Suc n)
  have b: "body d' x = Some (Inr (d2, y)) \<Longrightarrow> P y" for d' d2 y
    using assms [OF Suc.prems, of d'] by (simp add: all_parsed_def)
  show ?case
    by (auto simp: parsed_ok Suc.prems split: prod.split bool.split option.split sum.split intro!: Suc.IH dest: b)
qed (simp add: parsed_ok)

section \<open>Why parsing ends\<close>

text \<open>\<open>left\<close> counts the tokens a dispenser still has.\<close>

definition consumes :: "('d \<Rightarrow> nat) \<Rightarrow> 'd dispenser \<Rightarrow> bool" where
  "consumes left D \<longleftrightarrow>
    (\<forall>d. (if fst (dp_Next D d) then left (snd (dp_Next D d)) < left d else left (snd (dp_Next D d)) \<le> left d))
    \<and> (\<forall>k d. (if fst (dp_NextBlock D k d) then left (snd (dp_NextBlock D k d)) < left d
         else left (snd (dp_NextBlock D k d)) \<le> left d))
    \<and> (\<forall>d. left (snd (dp_NextArg D d)) \<le> left d) \<and> (\<forall>d. left (snd (dp_RemainingArgs D d)) \<le> left d)"

text \<open>\<open>settles left k r\<close>: \<open>r\<close> is an answer, and it leaves at most \<open>k\<close> tokens.\<close>

definition settles :: "('d \<Rightarrow> nat) \<Rightarrow> nat \<Rightarrow> ('d, 'a) parsed \<Rightarrow> bool" where
  "settles left k r \<longleftrightarrow> (case r of None \<Rightarrow> False | Some (Inl e) \<Rightarrow> True | Some (Inr (d, x)) \<Rightarrow> left d \<le> k)"

named_theorems settled \<open>introduction rules for settles\<close>

lemma settles_accept [settled]: "left d \<le> k \<Longrightarrow> settles left k (accept d x)"
  and settles_fail [settled]: "settles left k (fail e)"
  by (simp_all add: settles_def accept_def fail_def)

lemma settles_not_None: "settles left k r \<Longrightarrow> r \<noteq> None"
  by (cases r) (auto simp: settles_def)

lemma settles_with_arg [settled]:
  "consumes left D \<Longrightarrow> left d \<le> k \<Longrightarrow> (\<And>d v. left d \<le> k \<Longrightarrow> settles left k (f d v)) \<Longrightarrow> settles left k (with_arg D d f)"
  unfolding consumes_def with_arg_def
  by (auto simp: settled split: prod.split bool.split) (metis le_trans snd_conv)

lemma settles_with_args [settled]:
  "consumes left D \<Longrightarrow> left d \<le> k \<Longrightarrow> (\<And>d args. left d \<le> k \<Longrightarrow> settles left k (f d args)) \<Longrightarrow> settles left k (with_args D d f)"
  unfolding consumes_def with_args_def
  by (auto split: prod.split) (metis le_trans snd_conv)

lemma settles_set_string [settled]: "consumes left D \<Longrightarrow> left d \<le> k \<Longrightarrow> settles left k (set_string D d put)"
  by (auto simp: set_string_def intro!: settled)

lemma settles_set_parsed [settled]: "consumes left D \<Longrightarrow> left d \<le> k \<Longrightarrow> settles left k (set_parsed D d parse what put)"
  by (auto simp: set_parsed_def intro!: settled split: option.split)

lemma settles_if [settled]: "(b \<Longrightarrow> settles left k r) \<Longrightarrow> (\<not> b \<Longrightarrow> settles left k s) \<Longrightarrow> settles left k (if b then r else s)"
  by simp

lemma settles_loop:
  assumes "\<And>d. (if fst (nxt d) then left (snd (nxt d)) < left d else left (snd (nxt d)) \<le> left d)"
    "\<And>d x k. left d \<le> k \<Longrightarrow> k < n \<Longrightarrow> settles left k (body d x)"
  shows "m \<le> n \<Longrightarrow> left d < m \<Longrightarrow> settles left (left d) (block_loop m nxt body d x)"
proof (induction m arbitrary: d x)
  case (Suc m)
  obtain b d1 where n: "nxt d = (b, d1)" by (metis prod.exhaust)
  show ?case
  proof (cases b)
    case False
    then show ?thesis using assms(1) [of d] n by (simp add: settled)
  next
    case True
    then have l: "left d1 < left d" using assms(1) [of d] n by simp
    have s: "settles left (left d1) (body d1 x)" using l Suc.prems by (intro assms(2)) auto
    consider e where "body d1 x = Some (Inl e)" | d2 y where "body d1 x = Some (Inr (d2, y))" "left d2 \<le> left d1"
      using s by (auto simp: settles_def split: option.splits sum.splits)
    then show ?thesis
    proof cases
      case 1
      then show ?thesis using n True by (simp add: settled)
    next
      case (2 d2 y)
      then have "settles left (left d2) (block_loop m nxt body d2 y)" using Suc l by auto
      then show ?thesis using n True 2 l
        by (auto simp: settles_def split: option.splits sum.splits)
    qed
  qed
qed simp

lemma settles_le: "settles left j r \<Longrightarrow> j \<le> k \<Longrightarrow> settles left k r"
  by (auto simp: settles_def split: option.splits sum.splits)

lemma settles_NextBlock [settled]:
  assumes "consumes left D" "\<And>d x k. left d \<le> k \<Longrightarrow> k < n \<Longrightarrow> settles left k (body d x)" "left d \<le> k" "k < n"
  shows "settles left k (block_loop n (dp_NextBlock D depth) body d x)"
proof (rule settles_le [OF _ assms(3)], rule settles_loop [OF _ assms(2)])
  show "if fst (dp_NextBlock D depth d) then left (snd (dp_NextBlock D depth d)) < left d else left (snd (dp_NextBlock D depth d)) \<le> left d" for d
    using assms(1) by (simp add: consumes_def)
  show "n \<le> n" by (rule le_refl)
  show "left d < n" using assms(3,4) by simp
qed

lemma settles_Next [settled]:
  assumes "consumes left D" "\<And>d x k. left d \<le> k \<Longrightarrow> k < n \<Longrightarrow> settles left k (body d x)" "left d \<le> k" "k < n"
  shows "settles left k (block_loop n (dp_Next D) body d x)"
proof (rule settles_le [OF _ assms(3)], rule settles_loop [OF _ assms(2)])
  show "if fst (dp_Next D d) then left (snd (dp_Next D d)) < left d else left (snd (dp_Next D d)) \<le> left d" for d
    using assms(1) by (simp add: consumes_def)
  show "n \<le> n" by (rule le_refl)
  show "left d < n" using assms(3,4) by simp
qed

section \<open>More fuel changes nothing\<close>

definition below :: "('d, 'a) parsed \<Rightarrow> ('d, 'a) parsed \<Rightarrow> bool" where
  "below r r' \<longleftrightarrow> r = None \<or> r = r'"

named_theorems fuelled \<open>introduction rules for below\<close>

lemma below_refl: "below r r"
  by (simp add: below_def)

lemma below_if [fuelled]: "below r r' \<Longrightarrow> below s s' \<Longrightarrow> below (if b then r else s) (if b then r' else s')"
  by simp

lemma below_loop [fuelled]:
  assumes "\<And>d x. below (body d x) (body' d x)"
  shows "m \<le> m' \<Longrightarrow> below (block_loop m nxt body d x) (block_loop m' nxt body' d x)"
proof (induction m arbitrary: m' d x)
  case (Suc m)
  then obtain k where k: "m' = Suc k" "m \<le> k" by (cases m') auto
  obtain b d1 where n: "nxt d = (b, d1)" by (metis prod.exhaust)
  show ?case
  proof (cases "b \<and> body d1 x \<noteq> None")
    case True
    then have "body' d1 x = body d1 x" using assms [of d1 x] by (auto simp: below_def)
    then show ?thesis using True Suc.IH [OF k(2)]
      by (auto simp: k(1) n below_refl split: option.split sum.split)
  next
    case False
    then show ?thesis by (cases b) (auto simp: k(1) n below_def)
  qed
qed (simp add: below_def)

section \<open>A dispenser over a list of tokens\<close>

text \<open>
  A concrete dispenser, for the examples: the tokens are directive names, entries of a block at a
  depth, and arguments; the state is the current value and the tokens left.
\<close>

datatype token = TName string | TEntry nat string | TArg string

fun is_arg :: "token \<Rightarrow> bool" where
  "is_arg (TArg _) = True"
| "is_arg _ = False"

fun arg_val :: "token \<Rightarrow> string" where
  "arg_val (TArg s) = s"
| "arg_val (TName s) = s"
| "arg_val (TEntry _ s) = s"

definition token_dispenser :: "(string \<times> token list) dispenser" where
  "token_dispenser =
    \<lparr>dp_Next = (\<lambda>(v, ts). case ts of TName s # ts' \<Rightarrow> (True, (s, ts')) | _ \<Rightarrow> (False, (v, ts))),
     dp_NextBlock = (\<lambda>k (v, ts). case ts of TEntry j s # ts' \<Rightarrow> if j = k then (True, (s, ts')) else (False, (v, ts)) | _ \<Rightarrow> (False, (v, ts))),
     dp_NextArg = (\<lambda>(v, ts). case ts of TArg s # ts' \<Rightarrow> (True, (s, ts')) | _ \<Rightarrow> (False, (v, ts))),
     dp_Val = fst,
     dp_RemainingArgs = (\<lambda>(v, ts). (map arg_val (takeWhile is_arg ts), (v, dropWhile is_arg ts)))\<rparr>"

lemma token_dispenser_consumes: "consumes (\<lambda>(v, ts). length ts) token_dispenser"
  unfolding consumes_def token_dispenser_def
  by (auto split: list.split token.split simp: length_dropWhile_le)

end
