(* ===== verification/OutcomeWindow.thy ===== *)
theory OutcomeWindow imports Float64 begin

text \<open>
  The rolling window over the most recent outcomes (\<^verbatim>\<open>outcomeWindow\<close> of
  \<^verbatim>\<open>adaptiveadmission/capacity.go\<close>): a ring buffer of samples, an exponential histogram of
  256 buckets and running totals, all updated in constant time by \<open>record\<close>.

  The theory proves that the incremental bookkeeping equals a recomputation from the last
  \<open>size\<close> recorded outcomes. \<^verbatim>\<open>math.Log\<close> and \<^verbatim>\<open>math.Pow\<close> have platform-dependent low
  bits; they are the parameter \<open>mathlib\<close>, and no theorem here assumes anything of them.
\<close>

section \<open>The histogram\<close>

record mathlib =
  Log :: "f64 \<Rightarrow> f64"
  Pow :: "f64 \<Rightarrow> f64 \<Rightarrow> f64"

definition histBucketCount :: nat where "histBucketCount = 256"
definition histMinMs :: f64 where "histMinMs = Fin 1"
definition histMaxMs :: f64 where "histMaxMs = Fin 60000"

definition histFactor :: "mathlib \<Rightarrow> f64" where
  "histFactor M = Pow M (fdiv histMaxMs histMinMs) (rnd (1 / 255))"

definition bucketFor :: "mathlib \<Rightarrow> duration \<Rightarrow> nat" where
  "bucketFor M d =
    (let ms = fdiv (f64_of_int d) (f64_of_int millisecond) in
     if fle ms histMinMs then 0
     else if fle histMaxMs ms then histBucketCount - 1
     else
       let idx = int_of_f64 (fdiv (Log M (fdiv ms histMinMs)) (Log M (histFactor M))) in
       let idx = (if idx < 0 then 0 else idx) in
       if int histBucketCount \<le> idx then histBucketCount - 1 else nat idx)"

definition bucketUpperBound :: "mathlib \<Rightarrow> nat \<Rightarrow> duration" where
  "bucketUpperBound M i =
    (let ms = fmul histMinMs (Pow M (histFactor M) (f64_of_int (int i))) in
     int_of_f64 (fmul ms (f64_of_int millisecond)))"

lemma bucketFor_less [simp]: "bucketFor M d < histBucketCount"
  by (simp add: bucketFor_def histBucketCount_def Let_def nat_less_iff)

section \<open>The window\<close>

record outcomeSample =
  os_latency :: duration
  os_bucket :: nat
  os_timedOut :: bool
  os_isError :: bool

record outcomeWindow =
  ow_size :: nat
  ow_ring :: "outcomeSample list"
  ow_pos :: nat
  ow_filled :: nat
  ow_buckets :: "int list"
  ow_total :: go_int
  ow_timeouts :: go_int
  ow_errors :: go_int
  ow_sumLatency :: duration

definition defaultWindowSize :: go_int where "defaultWindowSize = 100"

definition zeroSample :: outcomeSample where
  "zeroSample = \<lparr>os_latency = 0, os_bucket = 0, os_timedOut = False, os_isError = False\<rparr>"

definition newOutcomeWindow :: "go_int \<Rightarrow> outcomeWindow" where
  "newOutcomeWindow n =
    (let n = (if n \<le> 0 then defaultWindowSize else n) in
     \<lparr>ow_size = nat n, ow_ring = replicate (nat n) zeroSample, ow_pos = 0, ow_filled = 0,
      ow_buckets = replicate histBucketCount 0, ow_total = 0, ow_timeouts = 0, ow_errors = 0,
      ow_sumLatency = 0\<rparr>)"

text \<open>\<open>record\<close> first forgets the sample under \<open>pos\<close> when the window is full, then stores the
  new one there and moves \<open>pos\<close> on.\<close>

definition ow_evict :: "outcomeWindow \<Rightarrow> outcomeWindow" where
  "ow_evict w =
    (if ow_filled w = ow_size w then
       let old = ow_ring w ! ow_pos w; b = os_bucket old in
       w\<lparr>ow_buckets := (ow_buckets w)[b := ow_buckets w ! b - 1],
         ow_total := ow_total w - 1,
         ow_sumLatency := wrap64 (ow_sumLatency w - os_latency old),
         ow_timeouts := (if os_timedOut old then ow_timeouts w - 1 else ow_timeouts w),
         ow_errors := (if os_isError old then ow_errors w - 1 else ow_errors w)\<rparr>
     else w\<lparr>ow_filled := ow_filled w + 1\<rparr>)"

definition ow_store :: "outcomeSample \<Rightarrow> outcomeWindow \<Rightarrow> outcomeWindow" where
  "ow_store s w =
    (let b = os_bucket s in
     w\<lparr>ow_ring := (ow_ring w)[ow_pos w := s],
       ow_buckets := (ow_buckets w)[b := ow_buckets w ! b + 1],
       ow_total := ow_total w + 1,
       ow_sumLatency := wrap64 (ow_sumLatency w + os_latency s),
       ow_timeouts := (if os_timedOut s then ow_timeouts w + 1 else ow_timeouts w),
       ow_errors := (if os_isError s then ow_errors w + 1 else ow_errors w),
       ow_pos := (ow_pos w + 1) mod ow_size w\<rparr>)"

definition mk_sample :: "mathlib \<Rightarrow> duration \<Rightarrow> bool \<Rightarrow> bool \<Rightarrow> outcomeSample" where
  "mk_sample M latency timedOut isError =
    \<lparr>os_latency = latency, os_bucket = bucketFor M latency, os_timedOut = timedOut, os_isError = isError\<rparr>"

definition ow_record :: "mathlib \<Rightarrow> duration \<Rightarrow> bool \<Rightarrow> bool \<Rightarrow> outcomeWindow \<Rightarrow> outcomeWindow" where
  "ow_record M latency timedOut isError w =
    ow_store (mk_sample M latency timedOut isError) (ow_evict w)"

definition meanLatency :: "outcomeWindow \<Rightarrow> duration" where
  "meanLatency w = (if ow_total w = 0 then 0 else quot64 (ow_sumLatency w) (ow_total w))"

text \<open>The scan of \<open>percentile\<close>: the first bucket at which the running count reaches the target.\<close>

fun scan_buckets :: "go_int \<Rightarrow> go_int \<Rightarrow> nat \<Rightarrow> int list \<Rightarrow> nat option" where
  "scan_buckets target cum i [] = None"
| "scan_buckets target cum i (c # cs) =
     (if target \<le> cum + c then Some i else scan_buckets target (cum + c) (i + 1) cs)"

definition pct_target :: "f64 \<Rightarrow> go_int \<Rightarrow> go_int" where
  "pct_target p n = int_of_f64 (fceil (fmul p (f64_of_int n)))"

definition percentile :: "mathlib \<Rightarrow> f64 \<Rightarrow> outcomeWindow \<Rightarrow> duration" where
  "percentile M p w =
    (if ow_total w = 0 then 0
     else case scan_buckets (pct_target p (ow_total w)) 0 0 (ow_buckets w) of
            Some i \<Rightarrow> bucketUpperBound M i
          | None \<Rightarrow> bucketUpperBound M (histBucketCount - 1))"

definition timeoutRate :: "outcomeWindow \<Rightarrow> f64" where
  "timeoutRate w = (if ow_total w = 0 then Fin 0
     else fdiv (f64_of_int (ow_timeouts w)) (f64_of_int (ow_total w)))"

definition errorRate :: "outcomeWindow \<Rightarrow> f64" where
  "errorRate w = (if ow_total w = 0 then Fin 0
     else fdiv (f64_of_int (ow_errors w)) (f64_of_int (ow_total w)))"

section \<open>What a rolling window promises\<close>

text \<open>The last \<open>n\<close> elements of a history.\<close>

definition recent :: "nat \<Rightarrow> 'a list \<Rightarrow> 'a list" where
  "recent n xs = drop (length xs - n) xs"

lemma length_recent [simp]: "length (recent n xs) = min n (length xs)"
  by (auto simp: recent_def)

lemma recent_Nil [simp]: "recent n [] = []"
  by (simp add: recent_def)

lemma recent_short [simp]: "length xs \<le> n \<Longrightarrow> recent n xs = xs"
  by (simp add: recent_def)

lemma set_recent: "set (recent n xs) \<subseteq> set xs"
  by (auto simp: recent_def dest: in_set_dropD)

lemma recent_snoc: "recent n (recent n xs @ [x]) = recent n (xs @ [x])"
  by (cases "length xs \<le> n") (auto simp: recent_def Suc_diff_le)

text \<open>
  The interface the controller relies on: a container of capacity \<open>cap\<close> whose contents after
  a push are the most recent \<open>cap\<close> elements.
\<close>

locale rolling_window =
  fixes inv :: "'w \<Rightarrow> bool"
    and cap :: "'w \<Rightarrow> nat"
    and contents :: "'w \<Rightarrow> 's list"
    and sample :: "'o \<Rightarrow> 's"
    and push :: "'o \<Rightarrow> 'w \<Rightarrow> 'w"
  assumes inv_push: "inv w \<Longrightarrow> inv (push x w)"
    and cap_push: "inv w \<Longrightarrow> cap (push x w) = cap w"
    and contents_push: "inv w \<Longrightarrow> contents (push x w) = recent (cap w) (contents w @ [sample x])"
    and length_contents: "inv w \<Longrightarrow> length (contents w) \<le> cap w"
begin

lemma pushes: "inv w \<Longrightarrow> inv (fold push xs w) \<and> cap (fold push xs w) = cap w
    \<and> contents (fold push xs w) = recent (cap w) (contents w @ map sample xs)"
proof (induction xs rule: rev_induct)
  case Nil
  then show ?case by (simp add: length_contents)
next
  case (snoc x xs)
  then have *: "inv (fold push xs w)" "cap (fold push xs w) = cap w"
    "contents (fold push xs w) = recent (cap w) (contents w @ map sample xs)" by auto
  have "contents (push x (fold push xs w)) = recent (cap w) (contents w @ map sample (xs @ [x]))"
    using recent_snoc [of "cap w" "contents w @ map sample xs" "sample x"] * by (simp add: contents_push)
  with * show ?case by (simp add: inv_push cap_push)
qed

lemma inv_pushes: "inv w \<Longrightarrow> inv (fold push xs w)"
  and cap_pushes: "inv w \<Longrightarrow> cap (fold push xs w) = cap w"
  and contents_pushes: "inv w \<Longrightarrow> contents (fold push xs w) = recent (cap w) (contents w @ map sample xs)"
  using pushes by blast+

end

section \<open>The ring buffer implements it\<close>

definition ow_contents :: "outcomeWindow \<Rightarrow> outcomeSample list" where
  "ow_contents w =
    (if ow_filled w < ow_size w then take (ow_filled w) (ow_ring w)
     else drop (ow_pos w) (ow_ring w) @ take (ow_pos w) (ow_ring w))"

definition ow_ring_ok :: "outcomeWindow \<Rightarrow> bool" where
  "ow_ring_ok w \<longleftrightarrow> 0 < ow_size w \<and> length (ow_ring w) = ow_size w \<and> ow_pos w < ow_size w
     \<and> ow_filled w \<le> ow_size w \<and> (ow_filled w < ow_size w \<longrightarrow> ow_pos w = ow_filled w)"

text \<open>The running totals agree with a recomputation from the contents.\<close>

definition count_if :: "('a \<Rightarrow> bool) \<Rightarrow> 'a list \<Rightarrow> int" where
  "count_if P xs = int (length (filter P xs))"

definition ow_stats :: "outcomeWindow \<Rightarrow> outcomeSample list \<Rightarrow> bool" where
  "ow_stats w xs \<longleftrightarrow>
     length (ow_buckets w) = histBucketCount
     \<and> (\<forall>s \<in> set xs. os_bucket s < histBucketCount)
     \<and> (\<forall>b < histBucketCount. ow_buckets w ! b = count_if (\<lambda>s. os_bucket s = b) xs)
     \<and> ow_total w = int (length xs)
     \<and> ow_timeouts w = count_if os_timedOut xs
     \<and> ow_errors w = count_if os_isError xs
     \<and> ow_sumLatency w = wrap64 (sum_list (map os_latency xs))"

definition ow_inv :: "outcomeWindow \<Rightarrow> bool" where
  "ow_inv w \<longleftrightarrow> ow_ring_ok w \<and> ow_stats w (ow_contents w)"

lemma count_if_simps [simp]:
  "count_if P [] = 0"
  "count_if P (xs @ ys) = count_if P xs + count_if P ys"
  "count_if P (x # xs) = (if P x then 1 else 0) + count_if P xs"
  by (simp_all add: count_if_def)

lemma count_if_bounds: "0 \<le> count_if P xs" "count_if P xs \<le> int (length xs)"
  by (simp_all add: count_if_def)

lemma length_ow_contents: "ow_ring_ok w \<Longrightarrow> length (ow_contents w) = ow_filled w"
  by (auto simp: ow_ring_ok_def ow_contents_def)

lemma ow_evict_frame [simp]:
  "ow_size (ow_evict w) = ow_size w" "ow_ring (ow_evict w) = ow_ring w" "ow_pos (ow_evict w) = ow_pos w"
  by (simp_all add: ow_evict_def Let_def)

lemma ow_evict_filled [simp]:
  "ow_filled (ow_evict w) = (if ow_filled w = ow_size w then ow_filled w else ow_filled w + 1)"
  by (simp add: ow_evict_def Let_def)

lemma ow_contents_full:
  assumes "ow_ring_ok w" "ow_filled w = ow_size w"
  shows "ow_contents w = ow_ring w ! ow_pos w # drop (Suc (ow_pos w)) (ow_ring w) @ take (ow_pos w) (ow_ring w)"
  using assms by (simp add: ow_ring_ok_def ow_contents_def Cons_nth_drop_Suc flip: append_Cons)

text \<open>Forgetting the head of the list the totals describe; adding one at its end.\<close>

lemma ow_stats_evict:
  assumes "ow_ring_ok w" "ow_stats w (ow_contents w)"
  shows "ow_stats (ow_evict w) (if ow_filled w = ow_size w then tl (ow_contents w) else ow_contents w)"
proof (cases "ow_filled w = ow_size w")
  case False
  then show ?thesis using assms by (simp add: ow_stats_def ow_evict_def)
next
  case True
  obtain old xs where c: "ow_contents w = old # xs" "ow_ring w ! ow_pos w = old"
    using ow_contents_full [OF assms(1) True] by auto
  with assms(2) have "os_bucket old < histBucketCount" "length (ow_buckets w) = histBucketCount"
    by (auto simp: ow_stats_def)
  then show ?thesis
    using assms(2) True unfolding c
    by (auto simp: ow_stats_def ow_evict_def Let_def c nth_list_update go_arith)
qed

lemma ow_stats_store:
  assumes "ow_stats w xs" "os_bucket s < histBucketCount"
  shows "ow_stats (ow_store s w) (xs @ [s])"
  using assms by (auto simp: ow_stats_def ow_store_def Let_def nth_list_update go_arith)

lemma ow_contents_push:
  assumes "ow_ring_ok w"
  shows "ow_contents (ow_store s (ow_evict w)) =
    (if ow_filled w = ow_size w then tl (ow_contents w) else ow_contents w) @ [s]"
proof -
  let ?n = "ow_size w" and ?p = "ow_pos w" and ?r = "ow_ring w"
  have r: "length ?r = ?n" "?p < ?n" using assms by (auto simp: ow_ring_ok_def)
  have split: "?r[?p := s] = take ?p ?r @ s # drop (Suc ?p) ?r"
    using r by (simp add: upd_conv_take_nth_drop)
  show ?thesis
  proof (cases "ow_filled w = ?n")
    case True
    have "ow_contents w = ?r ! ?p # drop (Suc ?p) ?r @ take ?p ?r"
      using assms True by (rule ow_contents_full)
    moreover have "ow_contents (ow_store s (ow_evict w)) = drop (Suc ?p) ?r @ take ?p ?r @ [s]"
    proof (cases "Suc ?p = ?n")
      case last: True
      then show ?thesis using True r by (simp add: ow_contents_def ow_store_def Let_def split)
    next
      case False
      then have "(?p + 1) mod ?n = Suc ?p" using r by simp
      then show ?thesis using True r by (simp add: ow_contents_def ow_store_def Let_def split)
    qed
    ultimately show ?thesis using True by simp
  next
    case False
    then have f: "ow_filled w < ?n" "?p = ow_filled w" using assms by (auto simp: ow_ring_ok_def)
    show ?thesis
    proof (cases "Suc ?p = ?n")
      case True
      then show ?thesis using f r split by (simp add: ow_contents_def ow_store_def Let_def)
    next
      case False
      then have "Suc ?p < ?n" using r by simp
      then show ?thesis using f r split by (simp add: ow_contents_def ow_store_def Let_def)
    qed
  qed
qed

lemma ow_ring_ok_push: "ow_ring_ok w \<Longrightarrow> ow_ring_ok (ow_store s (ow_evict w))"
  by (auto simp: ow_ring_ok_def ow_store_def Let_def)

lemma ow_inv_push:
  assumes "ow_inv w" "os_bucket s < histBucketCount"
  shows "ow_inv (ow_store s (ow_evict w))"
proof -
  have ok: "ow_ring_ok w" "ow_stats w (ow_contents w)" using assms(1) by (auto simp: ow_inv_def)
  show ?thesis
    unfolding ow_inv_def ow_contents_push [OF ok(1)]
    using ow_ring_ok_push [OF ok(1)] ow_stats_store [OF ow_stats_evict [OF ok] assms(2)] by simp
qed

lemma ow_inv_new [simp]: "ow_inv (newOutcomeWindow n)"
  by (auto simp: ow_inv_def ow_ring_ok_def ow_stats_def newOutcomeWindow_def Let_def
      ow_contents_def defaultWindowSize_def wrap64_def)

lemma ow_contents_new [simp]: "ow_contents (newOutcomeWindow n) = []"
  by (auto simp: newOutcomeWindow_def Let_def ow_contents_def defaultWindowSize_def)

lemma ow_size_new: "ow_size (newOutcomeWindow n) = (if n \<le> 0 then 100 else nat n)"
  by (simp add: newOutcomeWindow_def Let_def defaultWindowSize_def)

text \<open>An outcome as \<open>Release\<close> reports it: latency, timed out, error.\<close>

type_synonym outcome = "duration \<times> bool \<times> bool"

abbreviation sample_of :: "mathlib \<Rightarrow> outcome \<Rightarrow> outcomeSample" where
  "sample_of M x \<equiv> (case x of (l, t, e) \<Rightarrow> mk_sample M l t e)"

abbreviation push_outcome :: "mathlib \<Rightarrow> outcome \<Rightarrow> outcomeWindow \<Rightarrow> outcomeWindow" where
  "push_outcome M x \<equiv> (case x of (l, t, e) \<Rightarrow> ow_record M l t e)"

lemma ow_inv_record: "ow_inv w \<Longrightarrow> ow_inv (ow_record M l t e w)"
  by (simp add: ow_record_def ow_inv_push mk_sample_def)

lemma ow_size_record [simp]: "ow_size (ow_record M l t e w) = ow_size w"
  by (simp add: ow_record_def ow_store_def Let_def)

lemma ow_contents_record:
  assumes "ow_inv w"
  shows "ow_contents (ow_record M l t e w) = recent (ow_size w) (ow_contents w @ [mk_sample M l t e])"
proof -
  have ok: "ow_ring_ok w" using assms by (simp add: ow_inv_def)
  then have n: "length (ow_contents w) = ow_filled w" "ow_filled w \<le> ow_size w" "0 < ow_size w"
    by (auto simp: length_ow_contents ow_ring_ok_def)
  then show ?thesis
    unfolding ow_record_def ow_contents_push [OF ok]
    by (cases "ow_contents w") (auto simp: recent_def)
qed

lemma ow_contents_le: "ow_inv w \<Longrightarrow> length (ow_contents w) \<le> ow_size w"
  by (auto simp: ow_inv_def ow_ring_ok_def length_ow_contents)

interpretation win: rolling_window ow_inv ow_size ow_contents "sample_of M" "push_outcome M" for M
  by unfold_locales (auto simp: ow_inv_record ow_contents_record ow_contents_le split: prod.splits)

lemma ow_inv_stats: "ow_inv w \<Longrightarrow> ow_stats w (ow_contents w)"
  by (simp add: ow_inv_def)

lemma ow_total_nonneg: "ow_inv w \<Longrightarrow> 0 \<le> ow_total w"
  and ow_total_eq: "ow_inv w \<Longrightarrow> ow_total w = int (length (ow_contents w))"
  and ow_total_le: "ow_inv w \<Longrightarrow> ow_total w \<le> int (ow_size w)"
  using ow_inv_stats [of w] ow_contents_le [of w] by (auto simp: ow_stats_def)

section \<open>What the window reports\<close>

lemma rate_bounds:
  assumes "0 \<le> k" "k \<le> n" "0 < n" "in_int64 n"
  shows "fle (Fin 0) (fdiv (f64_of_int k) (f64_of_int n)) \<and> fle (fdiv (f64_of_int k) (f64_of_int n)) (Fin 1)"
proof -
  have "in_int64 k" using assms by (simp add: in_int64_def)
  then obtain a b where ab: "f64_of_int k = Fin a" "f64_of_int n = Fin b"
    using assms by (metis f64_of_int_finite)
  have "Fin 0 \<le> Fin a" "Fin a \<le> Fin b" "Fin 1 \<le> Fin b"
    using f64_of_int_mono [of 0 k] f64_of_int_mono [of k n] f64_of_int_mono [of 1 n] assms ab
    by (simp_all add: f64_of_int_exact)
  then have "0 \<le> a / b" "a / b \<le> 1" "b \<noteq> 0" by (auto simp: divide_le_eq_1)
  then show ?thesis using rnd_mono [of 0 "a / b"] rnd_mono [of "a / b" 1] by (simp add: ab fle_def)
qed

lemma scan_buckets_spec:
  assumes "cum < target" "target \<le> cum + sum_list cs"
  shows "\<exists>j. scan_buckets target cum i cs = Some (i + j) \<and> j < length cs
    \<and> target \<le> cum + sum_list (take (Suc j) cs) \<and> cum + sum_list (take j cs) < target"
  using assms
proof (induction cs arbitrary: cum i)
  case (Cons c cs)
  show ?case
  proof (cases "target \<le> cum + c")
    case True
    then show ?thesis using Cons.prems by (intro exI [of _ 0]) simp
  next
    case False
    then obtain j where "scan_buckets target (cum + c) (i + 1) cs = Some (i + 1 + j)" "j < length cs"
      "target \<le> cum + c + sum_list (take (Suc j) cs)" "cum + c + sum_list (take j cs) < target"
      using Cons.IH [of "cum + c" "i + 1"] Cons.prems by auto
    then show ?thesis using False by (intro exI [of _ "Suc j"]) simp
  qed
qed simp

lemma sum_buckets:
  assumes "ow_stats w xs" "k \<le> histBucketCount"
  shows "sum_list (take k (ow_buckets w)) = count_if (\<lambda>s. os_bucket s < k) xs"
  using assms(2)
proof (induction k)
  case 0
  then show ?case by (simp add: count_if_def)
next
  case (Suc k)
  have "count_if (\<lambda>s. os_bucket s < Suc k) xs
    = count_if (\<lambda>s. os_bucket s < k) xs + count_if (\<lambda>s. os_bucket s = k) xs" for xs :: "outcomeSample list"
    by (induction xs) auto
  moreover have "take (Suc k) (ow_buckets w) = take k (ow_buckets w) @ [ow_buckets w ! k]"
    using Suc.prems assms(1) by (simp add: take_Suc_conv_app_nth ow_stats_def)
  ultimately show ?case using Suc assms(1) by (simp add: ow_stats_def)
qed

lemma pct_target_bounds:
  assumes "1 / 2 \<le> p" "p \<le> 1" "1 \<le> n" "n \<le> 2 ^ 53"
  shows "1 \<le> pct_target (Fin p) n \<and> pct_target (Fin p) n \<le> n"
proof -
  have n: "f64_of_int n = Fin (of_int n)" using assms by (simp add: f64_of_int_exact)
  have n1: "1 \<le> (of_int n :: rat)" using assms(3) by simp
  have "1 / 2 * 1 \<le> p * of_int n" using assms(1) n1 by (intro mult_mono) auto
  then have lo: "2 powi (- 1) \<le> p * of_int n" by simp
  have hi: "p * of_int n \<le> of_int n" using assms(2) n1 by simp
  obtain v where v: "rnd (p * of_int n) = Fin v" "2 powi (- 1) \<le> v" "v \<le> of_int n"
  proof -
    have "Fin 0 \<le> rnd (p * of_int n)" using lo by (intro rnd_nonneg) simp
    moreover have up: "rnd (p * of_int n) \<le> Fin (of_int n)"
      using rnd_mono [OF hi] rnd_of_int [of n] assms by simp
    ultimately obtain v where v: "rnd (p * of_int n) = Fin v" by (cases "rnd (p * of_int n)") auto
    then have "v = rnd_val (p * of_int n)" by (auto simp: rnd_def Let_def split: if_splits)
    then show thesis using that [OF v] rnd_val_ge_powi [OF lo] up v by simp
  qed
  then have c: "1 \<le> \<lceil>v\<rceil>" "\<lceil>v\<rceil> \<le> n" by (simp_all add: ceiling_le_iff)
  moreover have "in_int64 c" if "1 \<le> c" "c \<le> n" for c
    using that assms(4) by (simp add: in_int64_def)
  ultimately have "in_int64 \<lceil>v\<rceil>" by blast
  then have "pct_target (Fin p) n = \<lceil>v\<rceil>"
    unfolding pct_target_def n by (simp only: fmul.simps v(1) fceil.simps in_int64_floor_small)
  with c show ?thesis by simp
qed

lemma ow_stats_buckets:
  assumes "ow_stats w xs"
  shows "ow_buckets w = map (\<lambda>b. count_if (\<lambda>s. os_bucket s = b) xs) [0..<histBucketCount]"
  using assms by (intro nth_equalityI) (auto simp: ow_stats_def)

lemma pushes_from_new:
  "ow_inv (fold (push_outcome M) xs (newOutcomeWindow n))"
  "ow_contents (fold (push_outcome M) xs (newOutcomeWindow n))
     = recent (ow_size (newOutcomeWindow n)) (map (sample_of M) xs)"
  using win.pushes [of "newOutcomeWindow n" M xs] by simp_all

text \<open>
  A math library for the witnesses: the binary logarithm rounded down and its inverse. With
  it the growth factor of the buckets is 2.
\<close>

definition log2lib :: mathlib where
  "log2lib = \<lparr>Log = (\<lambda>a. case a of Fin x \<Rightarrow> f64_of_int (ilog2 x) | _ \<Rightarrow> a),
     Pow = (\<lambda>a b. case b of Fin y \<Rightarrow> (if 0 < y \<and> y < 1 then Fin 2 else Fin (2 powi \<lfloor>y\<rfloor>)) | _ \<Rightarrow> NaN)\<rparr>"

section \<open>Properties\<close>

text \<open>
  C16: after any sequence of recorded outcomes, the ring buffer holds exactly the samples of
  the last \<open>size\<close> outcomes (100 for a size that is not positive), and every incrementally
  maintained field (bucket counts, total, timeouts, errors, latency sum) equals its
  recomputation from those samples.
\<close>

theorem window_equals_recomputation:
  "let w = fold (push_outcome M) xs (newOutcomeWindow n);
       ss = recent (if n \<le> 0 then 100 else nat n) (map (sample_of M) xs)
   in ow_contents w = ss
      \<and> ow_buckets w = map (\<lambda>b. count_if (\<lambda>s. os_bucket s = b) ss) [0..<256]
      \<and> ow_total w = int (length ss)
      \<and> ow_timeouts w = count_if os_timedOut ss
      \<and> ow_errors w = count_if os_isError ss
      \<and> ow_sumLatency w = wrap64 (sum_list (map os_latency ss))"
proof -
  let ?w = "fold (push_outcome M) xs (newOutcomeWindow n)"
  have "ow_stats ?w (ow_contents ?w)" by (rule ow_inv_stats [OF pushes_from_new(1)])
  from this ow_stats_buckets [OF this] pushes_from_new(2) [of M xs n] show ?thesis
    unfolding pushes_from_new(2) Let_def ow_size_new by (simp add: ow_stats_def histBucketCount_def)
qed

text \<open>
  \<open>percentile\<close> returns the representative value of the least bucket at which the number of
  samples in that bucket or a lower one reaches the target rank, the rank is between one and
  the number of samples, and no lower bucket reaches it.
\<close>

theorem percentile_is_rank:
  assumes "xs \<noteq> []" "n \<le> 2 ^ 53" "1 / 2 \<le> p" "p \<le> 1"
  shows "let w = fold (push_outcome M) xs (newOutcomeWindow n); ss = ow_contents w;
      k = pct_target (Fin p) (int (length ss))
    in \<exists>i < 256. percentile M (Fin p) w = bucketUpperBound M i \<and> 1 \<le> k \<and> k \<le> int (length ss)
      \<and> k \<le> count_if (\<lambda>s. os_bucket s \<le> i) ss \<and> count_if (\<lambda>s. os_bucket s < i) ss < k"
proof -
  define w where "w = fold (push_outcome M) xs (newOutcomeWindow n)"
  define ss where "ss = ow_contents w"
  have inv: "ow_inv w" by (simp add: w_def pushes_from_new)
  then have st: "ow_stats w ss" by (simp add: ss_def ow_inv_stats)
  have tot: "ow_total w = int (length ss)" using inv by (simp add: ss_def ow_total_eq)
  have "ss = recent (ow_size (newOutcomeWindow n)) (map (sample_of M) xs)"
    by (simp add: ss_def w_def pushes_from_new)
  then have len: "length ss = min (if n \<le> 0 then 100 else nat n) (length xs)"
    by (simp add: ow_size_new)
  then have ne: "1 \<le> int (length ss)" "int (length ss) \<le> 2 ^ 53"
    using assms(1,2) by (cases xs; auto)+
  then have k: "1 \<le> pct_target (Fin p) (ow_total w)" "pct_target (Fin p) (ow_total w) \<le> int (length ss)"
    using pct_target_bounds [OF assms(3,4) ne] tot by auto
  have all: "sum_list (ow_buckets w) = int (length ss)"
    using sum_buckets [OF st order_refl] st by (simp add: ow_stats_def count_if_def filter_id_conv)
  obtain j where j: "scan_buckets (pct_target (Fin p) (ow_total w)) 0 0 (ow_buckets w) = Some j" "j < 256"
    "pct_target (Fin p) (ow_total w) \<le> sum_list (take (Suc j) (ow_buckets w))"
    "sum_list (take j (ow_buckets w)) < pct_target (Fin p) (ow_total w)"
    using scan_buckets_spec [of 0 "pct_target (Fin p) (ow_total w)" "ow_buckets w" 0] k all st
    by (auto simp: ow_stats_def histBucketCount_def)
  have "percentile M (Fin p) w = bucketUpperBound M j"
    using j(1) ne(1) tot by (auto simp: percentile_def)
  moreover have "sum_list (take (Suc j) (ow_buckets w)) = count_if (\<lambda>s. os_bucket s \<le> j) ss"
    using sum_buckets [OF st, of "Suc j"] j(2) by (simp add: less_Suc_eq_le histBucketCount_def)
  moreover have "sum_list (take j (ow_buckets w)) = count_if (\<lambda>s. os_bucket s < j) ss"
    using sum_buckets [OF st, of j] j(2) by (simp add: histBucketCount_def)
  ultimately show ?thesis
    using j k tot unfolding Let_def w_def [symmetric] ss_def [symmetric] by (intro exI [of _ j]) simp
qed

theorem percentile_is_rank_witness:
  "let xs = [(5000000, False, False), (7000000, True, False)];
     w = fold (push_outcome log2lib) xs (newOutcomeWindow 10);
     k = pct_target (Fin (1 / 2)) 2
   in \<exists>i < 256. percentile log2lib (Fin (1 / 2)) w = bucketUpperBound log2lib i \<and> 1 \<le> k \<and> k \<le> 2
      \<and> k \<le> count_if (\<lambda>s. os_bucket s \<le> i) (ow_contents w)
      \<and> count_if (\<lambda>s. os_bucket s < i) (ow_contents w) < k"
proof -
  let ?xs = "[(5000000, False, False), (7000000, True, False)] :: outcome list"
  have "ow_contents (fold (push_outcome log2lib) ?xs (newOutcomeWindow 10)) = map (sample_of log2lib) ?xs"
    unfolding pushes_from_new(2) by (simp add: ow_size_new)
  then have len: "int (length (ow_contents (fold (push_outcome log2lib) ?xs (newOutcomeWindow 10)))) = 2"
    by simp
  show ?thesis
    using percentile_is_rank [of ?xs 10 "1 / 2" log2lib] unfolding Let_def len by simp
qed

text \<open>The timeout rate and the error rate the controller reads are numbers between 0 and 1.\<close>

theorem rates_in_unit_interval:
  assumes "in_int64 n"
  shows "let w = fold (push_outcome M) xs (newOutcomeWindow n) in
    fle (Fin 0) (timeoutRate w) \<and> fle (timeoutRate w) (Fin 1)
    \<and> fle (Fin 0) (errorRate w) \<and> fle (errorRate w) (Fin 1)"
proof -
  define w where "w = fold (push_outcome M) xs (newOutcomeWindow n)"
  have inv: "ow_inv w" by (simp add: w_def pushes_from_new)
  have "ow_size w = ow_size (newOutcomeWindow n)"
    using win.cap_pushes [of "newOutcomeWindow n" M xs] by (simp add: w_def)
  then have "ow_total w \<le> max 100 n" using ow_total_le [OF inv] by (auto simp: ow_size_new split: if_splits)
  then have "in_int64 (ow_total w)" using ow_total_nonneg [OF inv] assms by (auto simp: in_int64_def)
  then show ?thesis
    using rate_bounds [of "ow_timeouts w" "ow_total w"] rate_bounds [of "ow_errors w" "ow_total w"]
      ow_inv_stats [OF inv] ow_total_nonneg [OF inv]
    by (cases "ow_total w = 0")
      (auto simp: Let_def w_def [symmetric] timeoutRate_def errorRate_def ow_stats_def count_if_bounds)
qed

theorem rates_in_unit_interval_witness:
  "in_int64 3 \<and> fle (timeoutRate (fold (push_outcome log2lib) [(1, True, True)] (newOutcomeWindow 3))) (Fin 1)"
  using rates_in_unit_interval [of 3 log2lib "[(1, True, True)]"]
  by (simp add: in_int64_def Let_def)

text \<open>
  when every sample of the window lies between two non-negative latencies and their sum
  does not overflow, the mean latency lies between them too.
\<close>

theorem meanLatency_between:
  assumes "ow_inv w" "ow_contents w \<noteq> []" "0 \<le> lo"
    "\<And>s. s \<in> set (ow_contents w) \<Longrightarrow> lo \<le> os_latency s \<and> os_latency s \<le> hi"
    "int (length (ow_contents w)) * hi < 2 ^ 63"
  shows "lo \<le> meanLatency w \<and> meanLatency w \<le> hi"
proof -
  let ?xs = "ow_contents w" and ?n = "int (length (ow_contents w))"
  have n: "0 < ?n" using assms(2) by simp
  have "?n * lo \<le> sum_list (map os_latency ys) + int (length ?xs - length ys) * lo
      \<and> sum_list (map os_latency ys) \<le> int (length ys) * hi"
    if "set ys \<subseteq> set ?xs" "length ys \<le> length ?xs" for ys
    using that
  proof (induction ys)
    case (Cons y ys)
    then show ?case using assms(4) [of y] by (auto simp: algebra_simps of_nat_diff)
  qed simp
  then have s: "?n * lo \<le> sum_list (map os_latency ?xs)" "sum_list (map os_latency ?xs) \<le> ?n * hi"
    by (metis add_0_right diff_self_eq_0 int_ops(1) mult_zero_left order_refl subset_refl)+
  have "0 \<le> ?n * lo" using assms(3) by simp
  then have "in_int64 (sum_list (map os_latency ?xs))" using s assms(5) unfolding in_int64_def by linarith
  then have "ow_sumLatency w = sum_list (map os_latency ?xs)" "ow_total w = ?n"
    using ow_inv_stats [OF assms(1)] by (auto simp: ow_stats_def wrap64_id)
  moreover have "in_int64 (sum_list (map os_latency ?xs))" by fact
  moreover have "0 \<le> sum_list (map os_latency ?xs)" using s \<open>0 \<le> ?n * lo\<close> by linarith
  ultimately have m: "meanLatency w = sum_list (map os_latency ?xs) div ?n"
    using n by (simp add: meanLatency_def quot64_nonneg)
  have "lo \<le> sum_list (map os_latency ?xs) div ?n"
    using zdiv_mono1 [OF s(1) n] n by simp
  moreover have "sum_list (map os_latency ?xs) div ?n \<le> hi"
    using s n zdiv_mono1 [OF s(2) n] by simp
  ultimately show ?thesis by (simp add: m)
qed

theorem meanLatency_between_witness:
  "let w = fold (push_outcome log2lib) [(10, False, False), (21, False, False)] (newOutcomeWindow 2) in
    10 \<le> meanLatency w \<and> meanLatency w \<le> 21"
proof -
  let ?xs = "[(10, False, False), (21, False, False)] :: outcome list"
  have c: "ow_contents (fold (push_outcome log2lib) ?xs (newOutcomeWindow 2)) = map (sample_of log2lib) ?xs"
    unfolding pushes_from_new(2) by (simp add: ow_size_new)
  then have "ow_contents (fold (push_outcome log2lib) ?xs (newOutcomeWindow 2)) \<noteq> []"
    "\<forall>s \<in> set (ow_contents (fold (push_outcome log2lib) ?xs (newOutcomeWindow 2))).
      10 \<le> os_latency s \<and> os_latency s \<le> 21"
    by (simp_all add: mk_sample_def)
  then show ?thesis
    using meanLatency_between [OF pushes_from_new(1), of log2lib ?xs 2 10 21] c
    unfolding Let_def by (simp add: mk_sample_def)
qed

text \<open>
  the value \<open>bucketUpperBound\<close> gives for the bucket of a latency (between 1 ms and one
  minute) is at most that latency itself, taken to milliseconds and back: it is the lower
  edge of the bucket, although it is named and documented as its top, so every percentile
  the adjustment loop reads is rounded down by up to one bucket. The hypothesis says that
  \<open>Pow\<close> inverts \<open>Log\<close>: the factor raised to the rounded-down logarithm does not exceed the
  argument.
\<close>

theorem bucket_bound_is_lower_edge:
  assumes pow_log: "\<And>x i. flt (Fin 1) x \<Longrightarrow> flt x (Fin 60000)
      \<Longrightarrow> int_of_f64 (fdiv (Log M x) (Log M (histFactor M))) = int i
      \<Longrightarrow> fle (Pow M (histFactor M) (f64_of_int (int i))) x"
    and positive: "\<And>i. i < 256 \<Longrightarrow> fle (Fin 0) (Pow M (histFactor M) (f64_of_int (int i)))"
    and range: "0 < bucketFor M d" "bucketFor M d < 255"
  shows "bucketUpperBound M (bucketFor M d)
    \<le> int_of_f64 (fmul (fdiv (f64_of_int d) (f64_of_int millisecond)) (f64_of_int millisecond))"
proof -
  define ms where "ms = fdiv (f64_of_int d) (f64_of_int millisecond)"
  have mil: "f64_of_int millisecond = Fin 1000000" by (simp add: millisecond_def f64_of_int_exact)
  obtain v where v: "ms = Fin v" "1 < v" "v < 60000" "rnd v = Fin v"
    and idx: "int_of_f64 (fdiv (Log M (fdiv ms histMinMs)) (Log M (histFactor M))) = int (bucketFor M d)"
  proof -
    have bounds: "\<not> fle ms histMinMs" "\<not> fle histMaxMs ms"
      using range by (auto simp: bucketFor_def ms_def [symmetric] histBucketCount_def split: if_splits)
    then obtain v where v: "ms = Fin v" "1 < v" "v < 60000"
      unfolding ms_def mil histMinMs_def histMaxMs_def
      by (cases "f64_of_int d"; cases ms) (auto simp: ms_def mil fle_def not_le)
    moreover have "rnd v = Fin v"
      using v(1) unfolding ms_def mil by (cases "f64_of_int d") (auto dest: rnd_idem)
    moreover have "int_of_f64 (fdiv (Log M (fdiv ms histMinMs)) (Log M (histFactor M))) = int (bucketFor M d)"
      using range bounds by (auto simp: bucketFor_def Let_def ms_def [symmetric] histBucketCount_def split: if_splits)
    ultimately show thesis using that by blast
  qed
  define P where "P = Pow M (histFactor M) (f64_of_int (int (bucketFor M d)))"
  have one: "fdiv ms histMinMs = ms" using v by (simp add: histMinMs_def)
  have P: "fle P ms" "fle (Fin 0) P"
    using pow_log [of ms "bucketFor M d"] idx [unfolded one] positive [of "bucketFor M d"] range v
    by (simp_all add: P_def)
  then obtain w where w: "P = Fin w" "0 \<le> w" "w \<le> v" using v by (cases P) (auto simp: fle_def)
  have "fle (Fin 0) (fmul histMinMs P)" "fle (fmul histMinMs P) ms"
    using w rnd_mono [of w v] rnd_nonneg [of w] v by (auto simp: histMinMs_def fle_def)
  note le = fmul_mono_pos [OF this(1), of 1000000] fmul_mono_pos [OF this(2), of 1000000]
  have "fmul ms (Fin 1000000) \<le> f64_of_int 60000000000"
    using v rnd_mono [of "v * 1000000" 60000000000] by (simp add: f64_of_int_def)
  moreover have "Fin 0 \<le> fmul ms (Fin 1000000)" using v by (simp add: rnd_nonneg)
  ultimately obtain y where y: "fmul ms (Fin 1000000) = Fin y" "y < 2 ^ 63"
    by (cases "fmul ms (Fin 1000000)") (auto simp: f64_of_int_exact)
  show ?thesis
    using int_of_f64_mono [of "fmul (fmul histMinMs P) (Fin 1000000)" y] le y
    unfolding bucketUpperBound_def Let_def P_def [symmetric] mil ms_def [unfolded mil, symmetric]
    by simp
qed

lemma log2lib_factor: "histFactor log2lib = Fin 2"
proof -
  have "rnd (1 / 255) \<noteq> NInf" "rnd (1 / 255) \<noteq> PInf" "0 < rnd_val (1 / 255)" "rnd_val (1 / 255) < 1"
    by code_simp+
  then have "rnd (1 / 255) = Fin (rnd_val (1 / 255))" "0 < rnd_val (1 / 255)" "rnd_val (1 / 255) < 1"
    using rnd_FinD by (cases "rnd (1 / 255)"; simp)+
  then show ?thesis by (simp add: histFactor_def log2lib_def)
qed

lemma log2lib_pow: "Pow log2lib (Fin 2) (f64_of_int (int i)) = f \<Longrightarrow> i < 256 \<Longrightarrow> f = Fin (2 powi int i)"
  by (auto simp: log2lib_def f64_of_int_exact)

theorem bucket_bound_is_lower_edge_witness:
  "bucketFor log2lib 5000000 = 2 \<and> bucketUpperBound log2lib 2 \<le> 5000000"
proof -
  have five: "bucketFor log2lib 5000000 = 2" by code_simp
  have "bucketUpperBound log2lib (bucketFor log2lib 5000000)
    \<le> int_of_f64 (fmul (fdiv (f64_of_int 5000000) (f64_of_int millisecond)) (f64_of_int millisecond))"
  proof (rule bucket_bound_is_lower_edge)
    fix x i
    assume x: "flt (Fin 1) x" "flt x (Fin 60000)"
      and i: "int_of_f64 (fdiv (Log log2lib x) (Log log2lib (histFactor log2lib))) = int i"
    obtain v where v: "x = Fin v" "1 < v" "v < 60000" using x by (cases x) (auto simp: flt_def)
    have k: "0 \<le> ilog2 v" "ilog2 v < 16"
      using ilog2_ge_iff [of v 0] ilog2_ge_iff [of v 16] v by auto
    have "ilog2 2 = 1" by (rule ilog2_unique) simp_all
    then have "Log log2lib (Fin 2) = Fin 1" "Log log2lib x = Fin (of_int (ilog2 v))"
      using v k by (simp_all add: log2lib_def f64_of_int_exact)
    then have "ilog2 v = int i"
      using i k by (simp add: log2lib_factor rnd_of_int in_int64_def Let_def)
    then show "fle (Pow log2lib (histFactor log2lib) (f64_of_int (int i))) x"
      using k v ilog2_bounds [of v] log2lib_pow [OF refl, of i] by (simp add: log2lib_factor)
  next
    show "fle (Fin 0) (Pow log2lib (histFactor log2lib) (f64_of_int (int i)))" if "i < 256" for i
      using log2lib_pow [OF refl that] by (simp add: log2lib_factor)
  qed (simp_all add: five)
  then show ?thesis
    using five by (simp add: f64_of_int_exact millisecond_def rnd_of_int [of 5, simplified] rnd_of_int [of 5000000, simplified] in_int64_def)
qed

end
