(* ===== verification/Controller.thy ===== *)
theory Controller imports OutcomeWindow begin

text \<open>
  The capacity controller (\<^verbatim>\<open>Controller\<close> of \<^verbatim>\<open>adaptiveadmission/capacity.go\<close>): the
  bounded-concurrency primitive \<open>Acquire\<close>/\<open>Release\<close>, the self-tuning step \<open>adjust\<close> and the
  bounded wake-ups through \<^verbatim>\<open>sync.Cond.Signal\<close>.

  An operation that the code runs under the controller's mutex is one function on the
  controller's state. The calls of \<open>Signal\<close> happen after the mutex is released, so the
  operations return how many of them are due, and the step relation \<open>wake_step\<close> executes
  them one at a time, interleaved with everything else.
\<close>

section \<open>State\<close>

datatype ControllerKind = ControllerFixed | ControllerAdaptive

fun ControllerKind_String :: "ControllerKind \<Rightarrow> string" where
  "ControllerKind_String ControllerFixed = ''fixed''"
| "ControllerKind_String ControllerAdaptive = ''adaptive''"

record AdaptiveConfig =
  ac_MinConcurrency :: go_int
  ac_InitialConcurrency :: go_int
  ac_MaxConcurrency :: go_int
  ac_TargetP95 :: duration
  ac_TimeoutRateThreshold :: f64
  ac_ErrorRateThreshold :: f64
  ac_AdjustInterval :: duration
  ac_WindowSize :: go_int

definition zeroAdaptiveConfig :: AdaptiveConfig where
  "zeroAdaptiveConfig = \<lparr>ac_MinConcurrency = 0, ac_InitialConcurrency = 0, ac_MaxConcurrency = 0,
     ac_TargetP95 = 0, ac_TimeoutRateThreshold = Fin 0, ac_ErrorRateThreshold = Fin 0,
     ac_AdjustInterval = 0, ac_WindowSize = 0\<rparr>"

record Controller =
  c_kind :: ControllerKind
  c_limit :: go_int
  c_inFlight :: go_int
  c_cfg :: AdaptiveConfig
  c_window :: outcomeWindow
  c_lastTimeoutShrink :: time
  c_lastErrorShrink :: time
  c_lastP95Shrink :: time

definition defaultAdjustInterval :: duration where "defaultAdjustInterval = 30 * second"
definition timeoutShrinkCooldown :: duration where "timeoutShrinkCooldown = 60 * second"
definition errorShrinkCooldown :: duration where "errorShrinkCooldown = 30 * second"
definition p95ShrinkCooldown :: duration where "p95ShrinkCooldown = 30 * second"

definition timeoutShrinkMultiplier :: f64 where "timeoutShrinkMultiplier = rnd (60 / 100)"
definition errorShrinkMultiplier :: f64 where "errorShrinkMultiplier = rnd (75 / 100)"
definition p95HardShrinkMultiplier :: f64 where "p95HardShrinkMultiplier = rnd (70 / 100)"
definition p95SoftShrinkMultiplier :: f64 where "p95SoftShrinkMultiplier = rnd (85 / 100)"
definition growMultiplier :: f64 where "growMultiplier = rnd (105 / 100)"

definition NewFixedController :: "go_int \<Rightarrow> Controller" where
  "NewFixedController limit =
    \<lparr>c_kind = ControllerFixed, c_limit = limit, c_inFlight = 0, c_cfg = zeroAdaptiveConfig,
     c_window = newOutcomeWindow defaultWindowSize, c_lastTimeoutShrink = time_zero,
     c_lastErrorShrink = time_zero, c_lastP95Shrink = time_zero\<rparr>"

definition NewAdaptiveController :: "AdaptiveConfig \<Rightarrow> Controller" where
  "NewAdaptiveController cfg =
    (let cfg = (if ac_AdjustInterval cfg \<le> 0 then cfg\<lparr>ac_AdjustInterval := defaultAdjustInterval\<rparr> else cfg);
         cfg = (if ac_WindowSize cfg \<le> 0 then cfg\<lparr>ac_WindowSize := defaultWindowSize\<rparr> else cfg) in
     \<lparr>c_kind = ControllerAdaptive, c_limit = ac_InitialConcurrency cfg, c_inFlight = 0, c_cfg = cfg,
      c_window = newOutcomeWindow (ac_WindowSize cfg), c_lastTimeoutShrink = time_zero,
      c_lastErrorShrink = time_zero, c_lastP95Shrink = time_zero\<rparr>)"

section \<open>Acquire and release\<close>

text \<open>One pass of \<open>Acquire\<close>'s loop: \<open>None\<close> means that the caller waits on the condition.\<close>

definition Acquire :: "go_int \<Rightarrow> Controller \<Rightarrow> Controller option" where
  "Acquire cost c =
    (if c_limit c < wrap64 (c_inFlight c + cost) then None
     else Some (c\<lparr>c_inFlight := wrap64 (c_inFlight c + cost)\<rparr>))"

text \<open>The number of \<open>Signal\<close> calls of \<open>wake(n)\<close>.\<close>

definition wake :: "go_int \<Rightarrow> nat" where
  "wake n = nat n"

definition Release :: "mathlib \<Rightarrow> go_int \<Rightarrow> duration \<Rightarrow> go_int \<Rightarrow> bool \<Rightarrow> Controller \<Rightarrow> Controller \<times> nat" where
  "Release M cost latency statusCode timedOut c =
    (c\<lparr>c_inFlight := wrap64 (c_inFlight c - cost),
       c_window := ow_record M latency timedOut (500 \<le> statusCode) (c_window c)\<rparr>,
     wake cost)"

definition ReleaseUnused :: "go_int \<Rightarrow> Controller \<Rightarrow> Controller \<times> nat" where
  "ReleaseUnused cost c = (c\<lparr>c_inFlight := wrap64 (c_inFlight c - cost)\<rparr>, wake cost)"

definition MeanLatency :: "Controller \<Rightarrow> duration" where
  "MeanLatency c = meanLatency (c_window c)"

section \<open>The adjustment step\<close>

definition shrink :: "go_int \<Rightarrow> f64 \<Rightarrow> go_int" where
  "shrink limit multiplier =
    (let n = int_of_f64 (fround (fmul (f64_of_int limit) multiplier)) in if n < 1 then 1 else n)"

definition grow :: "go_int \<Rightarrow> f64 \<Rightarrow> go_int" where
  "grow limit multiplier =
    (let n = int_of_f64 (fround (fmul (f64_of_int limit) multiplier)) in
     if n \<le> limit then wrap64 (limit + 1) else n)"

definition clampInt :: "go_int \<Rightarrow> go_int \<Rightarrow> go_int \<Rightarrow> go_int" where
  "clampInt v lo hi = (if v < lo then lo else if hi < v then hi else v)"

text \<open>The branch of the \<^verbatim>\<open>switch\<close> that fires.\<close>

datatype branch = BTimeout | BError | BP95Hard | BP95Soft | BGrow | BNone

definition adjust_branch :: "mathlib \<Rightarrow> time \<Rightarrow> Controller \<Rightarrow> branch" where
  "adjust_branch M now c =
    (let w = c_window c; cfg = c_cfg c; p95 = percentile M (rnd (95 / 100)) w; target = ac_TargetP95 cfg in
     if flt (ac_TimeoutRateThreshold cfg) (timeoutRate w)
        \<and> timeoutShrinkCooldown \<le> time_Sub now (c_lastTimeoutShrink c) then BTimeout
     else if flt (ac_ErrorRateThreshold cfg) (errorRate w)
        \<and> errorShrinkCooldown \<le> time_Sub now (c_lastErrorShrink c) then BError
     else if 0 < target \<and> wrap64 (2 * target) < p95
        \<and> p95ShrinkCooldown \<le> time_Sub now (c_lastP95Shrink c) then BP95Hard
     else if 0 < target \<and> target < p95
        \<and> p95ShrinkCooldown \<le> time_Sub now (c_lastP95Shrink c) then BP95Soft
     else if 0 < target \<and> p95 < quot64 target 2 then BGrow
     else BNone)"

text \<open>Its new limit, before clamping, and the cooldown it starts.\<close>

fun branch_limit :: "branch \<Rightarrow> go_int \<Rightarrow> go_int" where
  "branch_limit BTimeout limit = shrink limit timeoutShrinkMultiplier"
| "branch_limit BError limit = shrink limit errorShrinkMultiplier"
| "branch_limit BP95Hard limit = shrink limit p95HardShrinkMultiplier"
| "branch_limit BP95Soft limit = shrink limit p95SoftShrinkMultiplier"
| "branch_limit BGrow limit = grow limit growMultiplier"
| "branch_limit BNone limit = limit"

fun branch_stamp :: "branch \<Rightarrow> time \<Rightarrow> Controller \<Rightarrow> Controller" where
  "branch_stamp BTimeout now c = c\<lparr>c_lastTimeoutShrink := now\<rparr>"
| "branch_stamp BError now c = c\<lparr>c_lastErrorShrink := now\<rparr>"
| "branch_stamp BP95Hard now c = c\<lparr>c_lastP95Shrink := now\<rparr>"
| "branch_stamp BP95Soft now c = c\<lparr>c_lastP95Shrink := now\<rparr>"
| "branch_stamp b now c = c"

text \<open>
  \<open>adjust\<close> returns the new state, the old and new limit when they differ (what the
  \<^verbatim>\<open>onLimitChange\<close> callback is told) and the number of signals due.
\<close>

definition adjust :: "mathlib \<Rightarrow> time \<Rightarrow> Controller \<Rightarrow> Controller \<times> (go_int \<times> go_int) option \<times> nat" where
  "adjust M now c =
    (if ow_total (c_window c) = 0 then (c, None, 0)
     else
       let b = adjust_branch M now c;
           oldLimit = c_limit c;
           newLimit = clampInt (branch_limit b oldLimit) (ac_MinConcurrency (c_cfg c)) (ac_MaxConcurrency (c_cfg c));
           delta = wrap64 (newLimit - oldLimit)
       in ((branch_stamp b now c)\<lparr>c_limit := newLimit\<rparr>,
           if delta \<noteq> 0 then Some (oldLimit, newLimit) else None,
           if 0 < delta then wake delta else 0))"

text \<open>The adjustment loop of an adaptive controller: one \<open>adjust\<close> per tick until it is stopped.\<close>

datatype loop_event = Tick time | StopLoop

fun runAdjustLoop :: "mathlib \<Rightarrow> loop_event list \<Rightarrow> Controller \<Rightarrow> Controller" where
  "runAdjustLoop M [] c = c"
| "runAdjustLoop M (StopLoop # es) c = c"
| "runAdjustLoop M (Tick now # es) c = runAdjustLoop M es (fst (adjust M now c))"

definition Start :: "mathlib \<Rightarrow> loop_event list \<Rightarrow> Controller \<Rightarrow> Controller" where
  "Start M es c = (if c_kind c \<noteq> ControllerAdaptive then c else runAdjustLoop M es c)"


section \<open>Shrinking, growing and clamping\<close>

lemma fround_mono: "fle (Fin 0) a \<Longrightarrow> fle a b \<Longrightarrow> fle (fround a) (fround b)"
  by (cases a; cases b) (auto simp: fle_def intro: floor_mono)

lemma fround_nonneg: "fle (Fin 0) a \<Longrightarrow> fle (Fin 0) (fround a)"
  by (cases a) (auto simp: fle_def)

lemma int_of_f64_of_int: "in_int64 n \<Longrightarrow> int_of_f64 (Fin (of_int n)) = n"
  by (rule in_int64_floor_small)

lemma scaled_bounds:
  assumes "0 \<le> limit" "limit \<le> 2 ^ 53" "0 \<le> m" "m \<le> 1"
  shows "fle (Fin 0) (fmul (f64_of_int limit) (Fin m)) \<and> fle (fmul (f64_of_int limit) (Fin m)) (Fin (of_int limit))"
proof -
  have l: "f64_of_int limit = Fin (of_int limit)" using assms by (simp add: f64_of_int_exact)
  have "0 \<le> of_int limit * m" "of_int limit * m \<le> of_int limit"
    using assms by (simp_all add: mult_left_le)
  then have "Fin 0 \<le> rnd (of_int limit * m)" "rnd (of_int limit * m) \<le> rnd (of_int limit)"
    by (auto intro: rnd_nonneg rnd_mono)
  then show ?thesis using rnd_of_int [of limit] assms by (simp add: l fle_def)
qed

lemma shrink_ge_1 [simp]: "1 \<le> shrink limit m"
  by (simp add: shrink_def Let_def)

lemma shrink_le:
  assumes "1 \<le> limit" "limit \<le> 2 ^ 53" "0 \<le> m" "m \<le> 1"
  shows "shrink limit (Fin m) \<le> limit"
proof -
  let ?x = "fmul (f64_of_int limit) (Fin m)"
  have b: "fle (Fin 0) ?x" "fle ?x (Fin (of_int limit))" using scaled_bounds [of limit m] assms by auto
  have "fle (fround ?x) (fround (Fin (of_int limit)))" using b by (rule fround_mono)
  moreover have "fround (Fin (of_int limit)) = Fin (of_int limit)"
    using assms(1) by (simp add: floor_add_int floor_eq_iff)
  ultimately have "int_of_f64 (fround ?x) \<le> int_of_f64 (Fin (of_int limit))"
  proof (intro int_of_f64_mono)
    show "(of_int limit :: rat) < 2 ^ 63"
    proof -
      have "limit < 2 ^ 63" using assms(2) by simp
      then have "(of_int limit :: rat) < of_int (2 ^ 63)" by (simp only: of_int_less_iff)
      then show ?thesis by simp
    qed
  qed (use fround_nonneg [OF b(1)] in simp_all)
  also have "\<dots> = limit" using assms by (intro int_of_f64_of_int) (simp add: in_int64_def)
  finally show ?thesis using assms(1) by (simp add: shrink_def Let_def)
qed

lemma grow_gt: "limit < 2 ^ 63 - 1 \<Longrightarrow> - (2 ^ 63) \<le> limit \<Longrightarrow> limit < grow limit m"
  by (simp add: grow_def Let_def wrap64_def)

lemma grow_in_range [simp]: "in_int64 (grow limit m)"
  by (simp add: grow_def Let_def)

lemma clampInt_bounds: "lo \<le> hi \<Longrightarrow> lo \<le> clampInt v lo hi \<and> clampInt v lo hi \<le> hi"
  by (simp add: clampInt_def)

lemma clampInt_id: "lo \<le> v \<Longrightarrow> v \<le> hi \<Longrightarrow> clampInt v lo hi = v"
  by (simp add: clampInt_def)

lemma clampInt_mono: "lo \<le> hi \<Longrightarrow> v \<le> w \<Longrightarrow> clampInt v lo hi \<le> clampInt w lo hi"
  by (simp add: clampInt_def)

lemma multiplier_bounds:
  "Fin 0 \<le> rnd x \<Longrightarrow> rnd x \<le> Fin (55 / 64) \<Longrightarrow> \<exists>m. rnd x = Fin m \<and> 0 \<le> m \<and> m \<le> 55 / 64"
  by (cases "rnd x") auto

lemma multipliers_range:
  "\<exists>m. timeoutShrinkMultiplier = Fin m \<and> 0 \<le> m \<and> m \<le> 55 / 64"
  "\<exists>m. errorShrinkMultiplier = Fin m \<and> 0 \<le> m \<and> m \<le> 55 / 64"
  "\<exists>m. p95HardShrinkMultiplier = Fin m \<and> 0 \<le> m \<and> m \<le> 55 / 64"
  "\<exists>m. p95SoftShrinkMultiplier = Fin m \<and> 0 \<le> m \<and> m \<le> 55 / 64"
  unfolding timeoutShrinkMultiplier_def errorShrinkMultiplier_def p95HardShrinkMultiplier_def
    p95SoftShrinkMultiplier_def
  by (rule multiplier_bounds; code_simp)+

definition shrinking :: "branch \<Rightarrow> bool" where
  "shrinking b \<longleftrightarrow> b \<in> {BTimeout, BError, BP95Hard, BP95Soft}"

lemma branch_limit_shrink:
  assumes "shrinking b"
  shows "\<exists>m. branch_limit b limit = shrink limit (Fin m) \<and> 0 \<le> m \<and> m \<le> 55 / 64"
  using assms multipliers_range by (cases b; simp add: shrinking_def; metis)

lemma branch_limit_shrinking:
  assumes "shrinking b" "1 \<le> limit" "limit \<le> 2 ^ 53"
  shows "1 \<le> branch_limit b limit \<and> branch_limit b limit \<le> limit"
  using branch_limit_shrink [OF assms(1), of limit] shrink_le [OF assms(2,3)] by fastforce

text \<open>A shrink really lowers a limit of at least four; a soft shrink leaves a smaller one alone.\<close>

lemma shrink_less:
  assumes "4 \<le> limit" "limit \<le> 2 ^ 48" "0 \<le> m" "m \<le> 55 / 64"
  shows "shrink limit (Fin m) < limit"
proof -
  have l: "f64_of_int limit = Fin (of_int limit)" using assms by (simp add: f64_of_int_exact)
  have big: "(of_int limit :: rat) \<ge> 4" using assms(1) by simp
  have "of_int limit * m \<le> of_int limit * (55 / 64)" using assms big by (intro mult_left_mono) auto
  also have "\<dots> \<le> of_int limit - 9 / 16" using big by simp
  finally have "rnd (of_int limit * m) \<le> rnd (of_int limit - 9 / 16)" by (rule rnd_mono)
  also have "\<dots> = Fin (of_int limit - 9 / 16)"
  proof -
    have e: "of_int limit - 9 / 16 = of_int (16 * limit - 9) * (2 :: rat) powi (- 4)"
      by (simp add: power_int_minus field_simps)
    have "\<bar>of_int limit - 9 / 16 :: rat\<bar> \<le> of_int limit" using big by simp
    also have "\<dots> \<le> of_int (2 ^ 48)" using assms(2) by (simp only: of_int_le_iff)
    also have "\<dots> = 2 powi 48" by simp
    also have "\<dots> \<le> 2 powi 1023" by (simp only: powi2_le_iff)
    finally have "rnd (of_int limit - 9 / 16) = Fin (rnd_val (of_int limit - 9 / 16))" by (rule rnd_finite)
    also have "\<dots> = Fin (of_int limit - 9 / 16)"
      unfolding e using assms by (subst rnd_val_exact) auto
    finally show ?thesis .
  qed
  finally have up: "rnd (of_int limit * m) \<le> Fin (of_int limit - 9 / 16)" .
  have "Fin 0 \<le> rnd (of_int limit * m)" using assms by (intro rnd_nonneg) simp
  then obtain v where v: "rnd (of_int limit * m) = Fin v" "0 \<le> v" "v \<le> of_int limit - 9 / 16"
    using up by (cases "rnd (of_int limit * m)") auto
  have "\<lfloor>v + 1 / 2\<rfloor> < limit" using v(3) by (simp add: floor_less_iff)
  moreover have "0 \<le> \<lfloor>v + 1 / 2\<rfloor>" using v(2) by simp
  moreover have "in_int64 n" if "0 \<le> n" "n < limit" for n
    using that assms(2) by (simp add: in_int64_def)
  ultimately have "in_int64 \<lfloor>v + 1 / 2\<rfloor>" by blast
  then have "int_of_f64 (fround (rnd (of_int limit * m))) = \<lfloor>v + 1 / 2\<rfloor>"
    using v(2) unfolding v(1) by simp
  then show ?thesis using \<open>\<lfloor>v + 1 / 2\<rfloor> < limit\<close> assms(1) by (simp add: shrink_def l Let_def)
qed


lemma soft_shrink_stalls: "n \<in> {1, 2, 3} \<Longrightarrow> branch_limit BP95Soft n = n"
proof -
  have "shrink 1 p95SoftShrinkMultiplier = 1" "shrink 2 p95SoftShrinkMultiplier = 2"
    "shrink 3 p95SoftShrinkMultiplier = 3" by code_simp+
  then show "n \<in> {1, 2, 3} \<Longrightarrow> branch_limit BP95Soft n = n" by auto
qed

lemma branch_limit_less: "shrinking b \<Longrightarrow> 4 \<le> limit \<Longrightarrow> limit \<le> 2 ^ 48 \<Longrightarrow> branch_limit b limit < limit"
  using branch_limit_shrink [of b limit] shrink_less [of limit] by auto

section \<open>One adjustment\<close>

lemma branch_stamp_frame [simp]:
  "c_kind (branch_stamp b now c) = c_kind c" "c_limit (branch_stamp b now c) = c_limit c"
  "c_inFlight (branch_stamp b now c) = c_inFlight c" "c_cfg (branch_stamp b now c) = c_cfg c"
  "c_window (branch_stamp b now c) = c_window c"
  by (cases b; simp)+

text \<open>The limit an adjustment leaves behind.\<close>

definition adjusted_limit :: "mathlib \<Rightarrow> time \<Rightarrow> Controller \<Rightarrow> go_int" where
  "adjusted_limit M now c = (if ow_total (c_window c) = 0 then c_limit c
     else clampInt (branch_limit (adjust_branch M now c) (c_limit c))
       (ac_MinConcurrency (c_cfg c)) (ac_MaxConcurrency (c_cfg c)))"

lemma adjust_simps:
  "adjust M now c =
    (if ow_total (c_window c) = 0 then (c, None, 0)
     else ((branch_stamp (adjust_branch M now c) now c)\<lparr>c_limit := adjusted_limit M now c\<rparr>,
       if wrap64 (adjusted_limit M now c - c_limit c) \<noteq> 0 then Some (c_limit c, adjusted_limit M now c) else None,
       nat (wrap64 (adjusted_limit M now c - c_limit c))))"
  by (simp add: adjust_def adjusted_limit_def Let_def wake_def)

lemma adjust_frame [simp]:
  "c_kind (fst (adjust M now c)) = c_kind c" "c_limit (fst (adjust M now c)) = adjusted_limit M now c"
  "c_inFlight (fst (adjust M now c)) = c_inFlight c" "c_cfg (fst (adjust M now c)) = c_cfg c"
  "c_window (fst (adjust M now c)) = c_window c"
  by (simp_all add: adjust_simps, simp add: adjusted_limit_def)

lemma Release_frame [simp]:
  "c_kind (fst (Release M k l st t c)) = c_kind c" "c_limit (fst (Release M k l st t c)) = c_limit c"
  "c_cfg (fst (Release M k l st t c)) = c_cfg c" "snd (Release M k l st t c) = wake k"
  "c_inFlight (fst (Release M k l st t c)) = wrap64 (c_inFlight c - k)"
  by (simp_all add: Release_def)

lemma ReleaseUnused_frame [simp]:
  "c_kind (fst (ReleaseUnused k c)) = c_kind c" "c_limit (fst (ReleaseUnused k c)) = c_limit c"
  "c_cfg (fst (ReleaseUnused k c)) = c_cfg c" "c_window (fst (ReleaseUnused k c)) = c_window c"
  "c_inFlight (fst (ReleaseUnused k c)) = wrap64 (c_inFlight c - k)" "snd (ReleaseUnused k c) = wake k"
  by (simp_all add: ReleaseUnused_def)

lemma Acquire_frame:
  "Acquire k c = Some c' \<Longrightarrow> c_kind c' = c_kind c \<and> c_limit c' = c_limit c \<and> c_cfg c' = c_cfg c
    \<and> c_window c' = c_window c \<and> c_inFlight c' = wrap64 (c_inFlight c + k) \<and> c_inFlight c' \<le> c_limit c'"
  by (auto simp: Acquire_def split: if_splits)

section \<open>Sequences of operations\<close>

datatype ctl_event =
    EvAcquire go_int
  | EvRelease go_int duration go_int bool
  | EvReleaseUnused go_int
  | EvAdjust time

text \<open>An \<open>Acquire\<close> that has to wait leaves the state alone.\<close>

fun ctl_step :: "mathlib \<Rightarrow> ctl_event \<Rightarrow> Controller \<Rightarrow> Controller" where
  "ctl_step M (EvAcquire k) c = (case Acquire k c of Some c' \<Rightarrow> c' | None \<Rightarrow> c)"
| "ctl_step M (EvRelease k l st t) c = fst (Release M k l st t c)"
| "ctl_step M (EvReleaseUnused k) c = fst (ReleaseUnused k c)"
| "ctl_step M (EvAdjust now) c = fst (adjust M now c)"

text \<open>The branches that fired, with their times.\<close>

fun fired :: "mathlib \<Rightarrow> ctl_event list \<Rightarrow> Controller \<Rightarrow> (time \<times> branch) list" where
  "fired M [] c = []"
| "fired M (e # es) c =
    (case e of EvAdjust now \<Rightarrow> if ow_total (c_window c) = 0 then [] else [(now, adjust_branch M now c)] | _ \<Rightarrow> [])
    @ fired M es (ctl_step M e c)"


lemma ctl_step_frame [simp]:
  "c_kind (ctl_step M e c) = c_kind c" "c_cfg (ctl_step M e c) = c_cfg c"
  by (cases e; auto split: option.splits dest: Acquire_frame)+

lemma ctl_steps_frame [simp]:
  "c_kind (fold (ctl_step M) es c) = c_kind c" "c_cfg (fold (ctl_step M) es c) = c_cfg c"
  by (induction es arbitrary: c) auto

lemma ctl_step_limit:
  "c_limit (ctl_step M e c) = (case e of EvAdjust now \<Rightarrow> adjusted_limit M now c | _ \<Rightarrow> c_limit c)"
  by (cases e) (auto split: option.splits dest: Acquire_frame)

lemma NewAdaptive_simps [simp]:
  "c_limit (NewAdaptiveController cfg) = ac_InitialConcurrency cfg"
  "c_kind (NewAdaptiveController cfg) = ControllerAdaptive"
  "c_inFlight (NewAdaptiveController cfg) = 0"
  "ac_MinConcurrency (c_cfg (NewAdaptiveController cfg)) = ac_MinConcurrency cfg"
  "ac_MaxConcurrency (c_cfg (NewAdaptiveController cfg)) = ac_MaxConcurrency cfg"
  by (simp_all add: NewAdaptiveController_def Let_def)

lemma adjusted_limit_bounds:
  "ac_MinConcurrency (c_cfg c) \<le> ac_MaxConcurrency (c_cfg c) \<Longrightarrow> ow_total (c_window c) \<noteq> 0
    \<Longrightarrow> ac_MinConcurrency (c_cfg c) \<le> adjusted_limit M now c \<and> adjusted_limit M now c \<le> ac_MaxConcurrency (c_cfg c)"
  by (simp add: adjusted_limit_def clampInt_bounds)

lemma limit_run:
  assumes "ac_MinConcurrency (c_cfg c) \<le> ac_MaxConcurrency (c_cfg c)"
  shows "if fired M es c = [] then c_limit (fold (ctl_step M) es c) = c_limit c
    else ac_MinConcurrency (c_cfg c) \<le> c_limit (fold (ctl_step M) es c)
       \<and> c_limit (fold (ctl_step M) es c) \<le> ac_MaxConcurrency (c_cfg c)"
  using assms
proof (induction es arbitrary: c)
  case (Cons e es)
  have IH: "if fired M es (ctl_step M e c) = [] then c_limit (fold (ctl_step M) es (ctl_step M e c)) = c_limit (ctl_step M e c)
    else ac_MinConcurrency (c_cfg c) \<le> c_limit (fold (ctl_step M) es (ctl_step M e c))
       \<and> c_limit (fold (ctl_step M) es (ctl_step M e c)) \<le> ac_MaxConcurrency (c_cfg c)"
    using Cons.IH [of "ctl_step M e c"] Cons.prems unfolding ctl_step_frame by blast
  show ?case
  proof (cases "\<exists>now. e = EvAdjust now \<and> ow_total (c_window c) \<noteq> 0")
    case True
    then show ?thesis
      using IH adjusted_limit_bounds [OF Cons.prems] by (auto simp: ctl_step_limit split: if_splits)
  next
    case False
    then have "c_limit (ctl_step M e c) = c_limit c" "fired M (e # es) c = fired M es (ctl_step M e c)"
      by (auto simp: ctl_step_limit adjusted_limit_def split: ctl_event.splits)
    then show ?thesis using IH by simp
  qed
qed simp

text \<open>The cooldown a branch starts, and when it was started last.\<close>

datatype cooldown_class = TimeoutClass | ErrorClass | P95Class

fun class_of_branch :: "branch \<Rightarrow> cooldown_class option" where
  "class_of_branch BTimeout = Some TimeoutClass"
| "class_of_branch BError = Some ErrorClass"
| "class_of_branch BP95Hard = Some P95Class"
| "class_of_branch BP95Soft = Some P95Class"
| "class_of_branch b = None"

fun cooldown :: "cooldown_class \<Rightarrow> duration" where
  "cooldown TimeoutClass = timeoutShrinkCooldown"
| "cooldown ErrorClass = errorShrinkCooldown"
| "cooldown P95Class = p95ShrinkCooldown"

fun last_shrink :: "cooldown_class \<Rightarrow> Controller \<Rightarrow> time" where
  "last_shrink TimeoutClass c = c_lastTimeoutShrink c"
| "last_shrink ErrorClass c = c_lastErrorShrink c"
| "last_shrink P95Class c = c_lastP95Shrink c"

lemmas cooldown_defs = timeoutShrinkCooldown_def errorShrinkCooldown_def p95ShrinkCooldown_def second_def

lemma cooldown_range: "0 < cooldown k" "in_int64 (cooldown k)"
  by (cases k; simp add: cooldown_defs in_int64_def)+

lemma adjust_branch_cooldown:
  "class_of_branch (adjust_branch M now c) = Some k \<Longrightarrow> cooldown k \<le> time_Sub now (last_shrink k c)"
  by (auto simp: adjust_branch_def Let_def split: if_splits)

lemma last_shrink_adjust:
  "last_shrink k (fst (adjust M now c)) =
    (if ow_total (c_window c) \<noteq> 0 \<and> class_of_branch (adjust_branch M now c) = Some k then now else last_shrink k c)"
  by (cases k; cases "adjust_branch M now c"; simp add: adjust_simps)

lemma last_shrink_step:
  "last_shrink k (ctl_step M e c) =
    (case e of EvAdjust now \<Rightarrow> last_shrink k (fst (adjust M now c)) | _ \<Rightarrow> last_shrink k c)"
  by (cases k; cases e; auto simp: Release_def ReleaseUnused_def Acquire_def)

definition firings :: "cooldown_class \<Rightarrow> (time \<times> branch) list \<Rightarrow> time list" where
  "firings k xs = map fst (filter (\<lambda>x. class_of_branch (snd x) = Some k) xs)"

lemma firings_spaced:
  "sorted_wrt (\<lambda>t u. cooldown k \<le> u - t) (last_shrink k c # firings k (fired M es c))"
proof (induction es arbitrary: c)
  case (Cons e es)
  have IH: "sorted_wrt (\<lambda>t u. cooldown k \<le> u - t)
      (last_shrink k (ctl_step M e c) # firings k (fired M es (ctl_step M e c)))" by (rule Cons.IH)
  show ?case
  proof (cases "\<exists>now. e = EvAdjust now \<and> ow_total (c_window c) \<noteq> 0 \<and> class_of_branch (adjust_branch M now c) = Some k")
    case True
    then obtain now where now: "e = EvAdjust now" "ow_total (c_window c) \<noteq> 0"
      "class_of_branch (adjust_branch M now c) = Some k" by blast
    have "cooldown k \<le> now - last_shrink k c"
      using adjust_branch_cooldown [OF now(3)] sat64_ge_iff cooldown_range [of k] by (simp add: time_Sub_def)
    then show ?thesis
      using IH now cooldown_range(1) [of k] by (fastforce simp: last_shrink_step last_shrink_adjust firings_def)
  next
    case False
    then have "last_shrink k (ctl_step M e c) = last_shrink k c"
      "firings k (fired M (e # es) c) = firings k (fired M es (ctl_step M e c))"
      by (auto simp: last_shrink_step last_shrink_adjust firings_def split: ctl_event.splits)
    then show ?thesis using IH by simp
  qed
qed (simp add: firings_def)


section \<open>Waiting and waking\<close>

text \<open>
  The goroutines around one controller: \<open>ready\<close> ones are about to take the mutex and test the
  loop condition of \<open>Acquire(1)\<close>, \<open>waiting\<close> ones are blocked on the condition variable,
  \<open>holders\<close> have returned from \<open>Acquire\<close> and not yet released. \<open>signals\<close> counts the calls of
  \<open>Signal\<close> that finished operations still have to make; \<open>Signal\<close> with nobody waiting does
  nothing.
\<close>

record wsys =
  ws_ctl :: Controller
  ws_ready :: nat
  ws_waiting :: nat
  ws_signals :: nat
  ws_holders :: nat

inductive wake_step :: "mathlib \<Rightarrow> wsys \<Rightarrow> wsys \<Rightarrow> bool" for M where
  ws_arrive: "wake_step M s (s\<lparr>ws_ready := ws_ready s + 1\<rparr>)"
| ws_enter: "0 < ws_ready s \<Longrightarrow> Acquire 1 (ws_ctl s) = Some c \<Longrightarrow>
    wake_step M s (s\<lparr>ws_ctl := c, ws_ready := ws_ready s - 1, ws_holders := ws_holders s + 1\<rparr>)"
| ws_block: "0 < ws_ready s \<Longrightarrow> Acquire 1 (ws_ctl s) = None \<Longrightarrow>
    wake_step M s (s\<lparr>ws_ready := ws_ready s - 1, ws_waiting := ws_waiting s + 1\<rparr>)"
| ws_release: "0 < ws_holders s \<Longrightarrow> Release M 1 l st t (ws_ctl s) = (c, n) \<Longrightarrow>
    wake_step M s (s\<lparr>ws_ctl := c, ws_holders := ws_holders s - 1, ws_signals := ws_signals s + n\<rparr>)"
| ws_unused: "0 < ws_holders s \<Longrightarrow> ReleaseUnused 1 (ws_ctl s) = (c, n) \<Longrightarrow>
    wake_step M s (s\<lparr>ws_ctl := c, ws_holders := ws_holders s - 1, ws_signals := ws_signals s + n\<rparr>)"
| ws_adjust: "c_kind (ws_ctl s) = ControllerAdaptive \<Longrightarrow> adjust M now (ws_ctl s) = (c, chg, n) \<Longrightarrow>
    wake_step M s (s\<lparr>ws_ctl := c, ws_signals := ws_signals s + n\<rparr>)"
| ws_signal_one: "0 < ws_signals s \<Longrightarrow> 0 < ws_waiting s \<Longrightarrow>
    wake_step M s (s\<lparr>ws_signals := ws_signals s - 1, ws_waiting := ws_waiting s - 1, ws_ready := ws_ready s + 1\<rparr>)"
| ws_signal_none: "0 < ws_signals s \<Longrightarrow> ws_waiting s = 0 \<Longrightarrow>
    wake_step M s (s\<lparr>ws_signals := ws_signals s - 1\<rparr>)"

definition ws_init :: "Controller \<Rightarrow> wsys" where
  "ws_init c = \<lparr>ws_ctl = c, ws_ready = 0, ws_waiting = 0, ws_signals = 0, ws_holders = 0\<rparr>"

definition ws_reachable :: "mathlib \<Rightarrow> Controller \<Rightarrow> wsys \<Rightarrow> bool" where
  "ws_reachable M c s \<longleftrightarrow> (wake_step M)\<^sup>*\<^sup>* (ws_init c) s"

text \<open>Limits that stay between zero and \<open>B\<close>.\<close>

definition limits_within :: "int \<Rightarrow> Controller \<Rightarrow> bool" where
  "limits_within B c \<longleftrightarrow> B \<le> 2 ^ 62 \<and> 0 \<le> c_limit c \<and> c_limit c \<le> B
     \<and> (c_kind c = ControllerAdaptive \<longrightarrow>
          0 \<le> ac_MinConcurrency (c_cfg c) \<and> ac_MinConcurrency (c_cfg c) \<le> ac_MaxConcurrency (c_cfg c)
          \<and> ac_MaxConcurrency (c_cfg c) \<le> B)"

definition ws_inv :: "int \<Rightarrow> wsys \<Rightarrow> bool" where
  "ws_inv B s \<longleftrightarrow> limits_within B (ws_ctl s)
     \<and> c_inFlight (ws_ctl s) = int (ws_holders s) \<and> c_inFlight (ws_ctl s) \<le> B
     \<and> (ws_waiting s = 0 \<or> c_limit (ws_ctl s) - c_inFlight (ws_ctl s) \<le> int (ws_signals s) + int (ws_ready s))"

lemma Acquire_1:
  assumes "limits_within B c" "0 \<le> c_inFlight c" "c_inFlight c \<le> B"
  shows "Acquire 1 c = (if c_inFlight c < c_limit c then Some (c\<lparr>c_inFlight := c_inFlight c + 1\<rparr>) else None)"
proof -
  have "wrap64 (c_inFlight c + 1) = c_inFlight c + 1"
    using assms by (intro wrap64_id) (simp add: limits_within_def in_int64_def)
  then show ?thesis by (simp add: Acquire_def)
qed

lemma limits_within_frame:
  assumes "limits_within B c" "c_kind c' = c_kind c" "c_limit c' = c_limit c" "c_cfg c' = c_cfg c"
  shows "limits_within B c'"
  using assms by (simp add: limits_within_def)

lemma limits_within_adjust:
  assumes "limits_within B c" "c_kind c = ControllerAdaptive"
  shows "limits_within B (fst (adjust M now c))"
    and "snd (snd (adjust M now c)) = nat (adjusted_limit M now c - c_limit c)"
proof -
  have b: "0 \<le> adjusted_limit M now c" "adjusted_limit M now c \<le> B" "B \<le> 2 ^ 62" "0 \<le> c_limit c" "c_limit c \<le> B"
    using assms adjusted_limit_bounds [of c M now] by (auto simp: limits_within_def adjusted_limit_def)
  then show "limits_within B (fst (adjust M now c))" using assms by (simp add: limits_within_def)
  have "wrap64 (adjusted_limit M now c - c_limit c) = adjusted_limit M now c - c_limit c"
    using b by (intro wrap64_id) (simp add: in_int64_def)
  then show "snd (snd (adjust M now c)) = nat (adjusted_limit M now c - c_limit c)"
    by (simp add: adjust_simps) (simp add: adjusted_limit_def)
qed

lemma ws_inv_freed:
  assumes "ws_inv B s" "0 < ws_holders s" "c_kind c = c_kind (ws_ctl s)" "c_limit c = c_limit (ws_ctl s)"
    "c_cfg c = c_cfg (ws_ctl s)" "c_inFlight c = wrap64 (c_inFlight (ws_ctl s) - 1)"
  shows "ws_inv B (s\<lparr>ws_ctl := c, ws_holders := ws_holders s - 1, ws_signals := ws_signals s + wake 1\<rparr>)"
proof -
  have "wrap64 (c_inFlight (ws_ctl s) - 1) = c_inFlight (ws_ctl s) - 1"
    using assms(1,2) by (intro wrap64_id) (auto simp: ws_inv_def limits_within_def in_int64_def)
  then show ?thesis
    using assms limits_within_frame [of B "ws_ctl s" c] by (auto simp: ws_inv_def wake_def)
qed

lemma ws_inv_step:
  assumes "wake_step M s s'" "ws_inv B s"
  shows "ws_inv B s'"
  using assms
proof (induction rule: wake_step.induct)
  case (ws_enter s c)
  then have "Acquire 1 (ws_ctl s) = (if c_inFlight (ws_ctl s) < c_limit (ws_ctl s)
      then Some ((ws_ctl s)\<lparr>c_inFlight := c_inFlight (ws_ctl s) + 1\<rparr>) else None)"
    by (intro Acquire_1) (auto simp: ws_inv_def)
  with ws_enter show ?case by (auto simp: ws_inv_def limits_within_def split: if_splits)
next
  case (ws_block s)
  then have "Acquire 1 (ws_ctl s) = (if c_inFlight (ws_ctl s) < c_limit (ws_ctl s)
      then Some ((ws_ctl s)\<lparr>c_inFlight := c_inFlight (ws_ctl s) + 1\<rparr>) else None)"
    by (intro Acquire_1) (auto simp: ws_inv_def)
  with ws_block show ?case by (auto simp: ws_inv_def split: if_splits)
next
  case (ws_release s l st t c n)
  then show ?case
    using ws_inv_freed [of B s c] Release_frame [of M 1 l st t "ws_ctl s"] by simp
next
  case (ws_unused s c n)
  then show ?case
    using ws_inv_freed [of B s c] ReleaseUnused_frame [of 1 "ws_ctl s"] by simp
next
  case (ws_adjust s now c chg n)
  let ?c = "ws_ctl s"
  have c: "c = fst (adjust M now ?c)" "n = snd (snd (adjust M now ?c))" using ws_adjust.hyps by auto
  have "limits_within B ?c" using ws_adjust.prems by (simp add: ws_inv_def)
  note adj = limits_within_adjust [OF this ws_adjust.hyps(1), of M now]
  have "int (snd (snd (adjust M now ?c))) \<ge> adjusted_limit M now ?c - c_limit ?c"
    unfolding adj(2) by simp
  then show ?case using ws_adjust.prems adj(1) unfolding ws_inv_def c by auto
qed (auto simp: ws_inv_def)

lemma ws_inv_init: "limits_within B c \<Longrightarrow> c_inFlight c = 0 \<Longrightarrow> ws_inv B (ws_init c)"
  by (simp add: ws_inv_def ws_init_def limits_within_def)

lemma ws_inv_reachable:
  assumes "ws_reachable M c s" "limits_within B c" "c_inFlight c = 0"
  shows "ws_inv B s"
  using assms(1) ws_inv_init [OF assms(2,3)] unfolding ws_reachable_def
  by (induction rule: rtranclp_induct) (auto intro: ws_inv_step)


text \<open>What a step needs in order to raise the number of holders.\<close>

inductive_cases wake_stepE: "wake_step M s s'"

lemma wake_step_holders:
  assumes "wake_step M s s'" "ws_holders s < ws_holders s'"
  shows "\<exists>c. Acquire 1 (ws_ctl s) = Some c \<and> ws_ctl s' = c"
  using assms(1) by (cases rule: wake_stepE) (use assms(2) in auto)

text \<open>The steps by which a wake-up gets through: a signal reaches a waiter, a goroutine that is up acquires.\<close>

inductive wakeup_step :: "wsys \<Rightarrow> wsys \<Rightarrow> bool" where
  wu_signal: "0 < ws_signals s \<Longrightarrow> 0 < ws_waiting s \<Longrightarrow>
    wakeup_step s (s\<lparr>ws_signals := ws_signals s - 1, ws_waiting := ws_waiting s - 1, ws_ready := ws_ready s + 1\<rparr>)"
| wu_enter: "0 < ws_ready s \<Longrightarrow> Acquire 1 (ws_ctl s) = Some c \<Longrightarrow>
    wakeup_step s (s\<lparr>ws_ctl := c, ws_ready := ws_ready s - 1, ws_holders := ws_holders s + 1\<rparr>)"

lemma wakeup_step_wake: "wakeup_step s s' \<Longrightarrow> wake_step M s s'"
  by (induction rule: wakeup_step.induct) (simp_all only: ws_signal_one ws_enter)

lemma ws_progress:
  assumes "ws_inv B s" "0 < ws_waiting s" "c_inFlight (ws_ctl s) < c_limit (ws_ctl s)"
  shows "\<exists>s'. wakeup_step\<^sup>*\<^sup>* s s' \<and> ws_holders s' = ws_holders s + 1"
proof -
  have acq: "Acquire 1 (ws_ctl s) = Some ((ws_ctl s)\<lparr>c_inFlight := c_inFlight (ws_ctl s) + 1\<rparr>)"
    using assms by (subst Acquire_1 [of B]) (auto simp: ws_inv_def)
  have enter: "\<exists>u. wakeup_step t u \<and> ws_holders u = ws_holders s + 1"
    if "0 < ws_ready t" "ws_ctl t = ws_ctl s" "ws_holders t = ws_holders s" for t
    using wu_enter [OF that(1), unfolded that(2), OF acq] that(3) by (intro exI) auto
  show ?thesis
  proof (cases "0 < ws_ready s")
    case True
    then show ?thesis using enter [of s] by blast
  next
    case False
    then have "0 < ws_signals s" using assms by (auto simp: ws_inv_def)
    let ?t = "s\<lparr>ws_signals := ws_signals s - 1, ws_waiting := ws_waiting s - 1, ws_ready := ws_ready s + 1\<rparr>"
    have "wakeup_step s ?t" by (rule wu_signal) fact+
    moreover obtain u where "wakeup_step ?t u" "ws_holders u = ws_holders s + 1" using enter [of ?t] by auto
    ultimately show ?thesis by (meson rtranclp.rtrancl_refl converse_rtranclp_into_rtranclp)
  qed
qed

section \<open>Properties\<close>

text \<open>
  C7: whatever sequence of acquisitions, releases and adjustments an adaptive controller goes
  through, its limit is the configured initial one until the first adjustment that sees a
  sample, and within the configured minimum and maximum ever after.
\<close>

theorem adaptive_limit_in_range:
  assumes "ac_MinConcurrency cfg \<le> ac_MaxConcurrency cfg"
  shows "let c0 = NewAdaptiveController cfg; c = fold (ctl_step M) es c0 in
    if fired M es c0 = [] then c_limit c = ac_InitialConcurrency cfg
    else ac_MinConcurrency cfg \<le> c_limit c \<and> c_limit c \<le> ac_MaxConcurrency cfg"
  using limit_run [of "NewAdaptiveController cfg" M es] assms unfolding Let_def NewAdaptive_simps by blast

theorem adaptive_limit_in_range_witness:
  "let cfg = zeroAdaptiveConfig\<lparr>ac_MinConcurrency := 2, ac_InitialConcurrency := 4, ac_MaxConcurrency := 8\<rparr>;
     es = [EvAcquire 1, EvRelease 1 5 200 True, EvAdjust 0];
     c = fold (ctl_step log2lib) es (NewAdaptiveController cfg)
   in fired log2lib es (NewAdaptiveController cfg) \<noteq> [] \<and> 2 \<le> c_limit c \<and> c_limit c \<le> 8"
proof -
  let ?cfg = "zeroAdaptiveConfig\<lparr>ac_MinConcurrency := 2, ac_InitialConcurrency := 4, ac_MaxConcurrency := 8\<rparr>"
  let ?es = "[EvAcquire 1, EvRelease 1 5 200 True, EvAdjust 0]"
  have "fired log2lib ?es (NewAdaptiveController ?cfg) \<noteq> []"
    by (simp add: Acquire_def Release_def NewAdaptiveController_def Let_def ow_record_def ow_store_def
        ow_evict_def newOutcomeWindow_def zeroAdaptiveConfig_def defaultWindowSize_def)
  then show ?thesis
    using adaptive_limit_in_range [of ?cfg log2lib ?es] by (simp add: Let_def)
qed

text \<open>
  C14: an adjustment moves the limit in the direction of its branch: the four degradation
  branches never raise it, growth raises it (strictly, unless it is at the maximum), no
  branch leaves it alone; the number of waiters signalled is exactly the amount the limit
  rose by, and the limit-change callback is told the old and the new limit exactly when they
  differ.
\<close>

theorem adjust_moves_limit_by_branch:
  assumes "1 \<le> ac_MinConcurrency (c_cfg c)" "ac_MinConcurrency (c_cfg c) \<le> c_limit c"
    "c_limit c \<le> ac_MaxConcurrency (c_cfg c)" "ac_MaxConcurrency (c_cfg c) \<le> 2 ^ 53"
    "ow_total (c_window c) \<noteq> 0"
  shows "let b = adjust_branch M now c; (c', chg, n) = adjust M now c in
    (if b = BNone then c_limit c' = c_limit c
     else if b = BGrow then c_limit c \<le> c_limit c' \<and> (c_limit c < c_limit c' \<or> c_limit c = ac_MaxConcurrency (c_cfg c))
     else c_limit c' \<le> c_limit c)
    \<and> n = nat (c_limit c' - c_limit c)
    \<and> chg = (if c_limit c' = c_limit c then None else Some (c_limit c, c_limit c'))"
proof -
  define b where "b = adjust_branch M now c"
  let ?lo = "ac_MinConcurrency (c_cfg c)" and ?hi = "ac_MaxConcurrency (c_cfg c)" and ?l = "c_limit c"
  let ?n = "adjusted_limit M now c"
  have n: "?n = clampInt (branch_limit b ?l) ?lo ?hi" using assms by (simp add: adjusted_limit_def b_def)
  have "?lo \<le> ?n \<and> ?n \<le> ?hi" unfolding n using assms by (intro clampInt_bounds) simp
  then have "wrap64 (?n - ?l) = ?n - ?l" using assms by (intro wrap64_id) (simp add: in_int64_def)
  moreover have "?n = ?l" if "b = BNone" using that n assms clampInt_id by simp
  moreover have "?l \<le> ?n \<and> (?l < ?n \<or> ?l = ?hi)" if "b = BGrow"
  proof -
    have "?l < branch_limit b ?l" using that assms by (simp add: grow_gt)
    then show ?thesis using assms n by (auto simp: clampInt_def)
  qed
  moreover have "?n \<le> ?l" if "b \<noteq> BNone" "b \<noteq> BGrow"
  proof -
    have "branch_limit b ?l \<le> ?l"
      using branch_limit_shrinking [of b ?l] that assms by (cases b) (auto simp: shrinking_def)
    then show ?thesis using assms n by (auto simp: clampInt_def)
  qed
  ultimately show ?thesis
    unfolding Let_def b_def [symmetric] using assms(5) by (simp add: adjust_simps b_def [symmetric])
qed

text \<open>The controller of the witnesses: limit 10 of 2 to 20, one timed-out sample in its window.\<close>

definition sample_controller :: Controller where
  "sample_controller = (NewAdaptiveController (zeroAdaptiveConfig\<lparr>ac_MinConcurrency := 2,
     ac_InitialConcurrency := 10, ac_MaxConcurrency := 20, ac_TimeoutRateThreshold := Fin (1 / 2),
     ac_WindowSize := 4\<rparr>))\<lparr>c_window := ow_record log2lib 5000000 True False (newOutcomeWindow 4)\<rparr>"

theorem adjust_moves_limit_by_branch_witness:
  "adjust_branch log2lib 0 sample_controller = BTimeout
   \<and> c_limit (fst (adjust log2lib 0 sample_controller)) \<le> c_limit sample_controller
   \<and> snd (snd (adjust log2lib 0 sample_controller))
       = nat (c_limit (fst (adjust log2lib 0 sample_controller)) - c_limit sample_controller)"
proof -
  let ?c = sample_controller
  have br: "adjust_branch log2lib 0 ?c = BTimeout" by code_simp
  have t: "ow_total (c_window ?c) \<noteq> 0" by code_simp
  have l: "c_limit ?c = 10" "ac_MinConcurrency (c_cfg ?c) = 2" "ac_MaxConcurrency (c_cfg ?c) = 20"
    by (simp_all add: sample_controller_def)
  obtain c' chg n where adj: "adjust log2lib 0 ?c = (c', chg, n)" by (metis prod_cases3)
  show ?thesis
    using adjust_moves_limit_by_branch [of ?c log2lib 0] br t l unfolding Let_def adj by simp
qed

text \<open>
  C15: a branch never fires twice within its cooldown (60 s for the timeout branch, 30 s for the
  error branch, 30 s shared by the two p95 branches), whatever happens in between and even if
  the clock were to go backwards: in the list of times at which one class fired, each later
  time is at least the cooldown after each earlier one.
\<close>

theorem cooldowns_respected:
  "sorted_wrt (\<lambda>t u. cooldown k \<le> u - t) (firings k (fired M es c))"
  using firings_spaced [of k c M es] by simp

text \<open>
  every degradation branch strictly lowers a limit of at least four, so repeated
  degradation always reaches the region below four; there the soft p95 branch has no further
  effect, because 0.85 times the limit rounds back to it.
\<close>

theorem shrink_makes_progress:
  assumes "1 \<le> limit" "limit \<le> 2 ^ 48" "shrinking b"
  shows "1 \<le> branch_limit b limit
    \<and> (if 4 \<le> limit then branch_limit b limit < limit else branch_limit BP95Soft limit = limit)"
proof -
  have "branch_limit BP95Soft limit = limit" if "\<not> 4 \<le> limit"
    using that assms(1) by (intro soft_shrink_stalls) auto
  then show ?thesis
    using assms branch_limit_less [of b limit] branch_limit_shrinking [of b limit] by simp
qed

theorem shrink_makes_progress_witness:
  "branch_limit BP95Soft 4 < 4 \<and> branch_limit BP95Soft 3 = 3"
  using shrink_makes_progress [of 4 BP95Soft] shrink_makes_progress [of 3 BP95Soft]
  by (simp add: shrinking_def)

text \<open>
  however acquisitions, releases, adjustments and signals interleave, the in-flight count
  is the number of goroutines that hold capacity, it never exceeds the largest limit the
  controller can have (for a fixed controller, its limit), and an acquisition succeeds only
  when the count it leaves is within the limit of that moment.
\<close>

theorem admission_within_limit:
  assumes "limits_within B c" "c_inFlight c = 0" "ws_reachable M c s"
  shows "c_inFlight (ws_ctl s) = int (ws_holders s) \<and> int (ws_holders s) \<le> B
    \<and> (\<forall>s'. wake_step M s s' \<longrightarrow> ws_holders s < ws_holders s' \<longrightarrow> int (ws_holders s') \<le> c_limit (ws_ctl s'))"
proof -
  have inv: "ws_inv B s" using assms by (auto intro: ws_inv_reachable)
  moreover have "int (ws_holders s') \<le> c_limit (ws_ctl s')"
    if step: "wake_step M s s'" "ws_holders s < ws_holders s'" for s'
    using wake_step_holders [OF step] Acquire_frame [of 1 "ws_ctl s"] ws_inv_step [OF step(1) inv]
    by (auto simp: ws_inv_def)
  ultimately show ?thesis by (simp add: ws_inv_def)
qed

text \<open>One goroutine took the only unit, a second one waits, then the first released.\<close>

definition demo_wsys :: wsys where
  "demo_wsys = \<lparr>ws_ctl = NewFixedController 1, ws_ready = 0, ws_waiting = 1, ws_signals = 1, ws_holders = 0\<rparr>"

lemma demo_reachable: "ws_reachable M (NewFixedController 1) demo_wsys"
proof -
  let ?c = "NewFixedController 1"
  let ?s = "\<lambda>c r w sg h. \<lparr>ws_ctl = c, ws_ready = r, ws_waiting = w, ws_signals = sg, ws_holders = h\<rparr>"
  have "wake_step M (?s ?c 0 0 0 0) (?s ?c 1 0 0 0)"
    using ws_arrive [of M "?s ?c 0 0 0 0"] by simp
  moreover have "wake_step M (?s ?c 1 0 0 0) (?s (?c\<lparr>c_inFlight := 1\<rparr>) 0 0 0 1)"
    using ws_enter [of "?s ?c 1 0 0 0" "?c\<lparr>c_inFlight := 1\<rparr>" M] by (simp add: Acquire_def NewFixedController_def wrap64_def)
  moreover have "wake_step M (?s (?c\<lparr>c_inFlight := 1\<rparr>) 0 0 0 1) (?s (?c\<lparr>c_inFlight := 1\<rparr>) 1 0 0 1)"
    using ws_arrive [of M "?s (?c\<lparr>c_inFlight := 1\<rparr>) 0 0 0 1"] by simp
  moreover have "wake_step M (?s (?c\<lparr>c_inFlight := 1\<rparr>) 1 0 0 1) (?s (?c\<lparr>c_inFlight := 1\<rparr>) 0 1 0 1)"
    using ws_block [of "?s (?c\<lparr>c_inFlight := 1\<rparr>) 1 0 0 1" M] by (simp add: Acquire_def NewFixedController_def wrap64_def)
  moreover have "wake_step M (?s (?c\<lparr>c_inFlight := 1\<rparr>) 0 1 0 1) (?s ?c 0 1 1 0)"
    using ws_unused [of "?s (?c\<lparr>c_inFlight := 1\<rparr>) 0 1 0 1" "?c" 1 M]
    by (simp add: ReleaseUnused_def NewFixedController_def wrap64_def wake_def)
  ultimately show ?thesis
    unfolding ws_reachable_def ws_init_def demo_wsys_def by (meson rtranclp.rtrancl_refl converse_rtranclp_into_rtranclp)
qed

lemma fixed_within: "0 \<le> n \<Longrightarrow> n \<le> 2 ^ 62 \<Longrightarrow> limits_within n (NewFixedController n)"
  by (simp add: limits_within_def NewFixedController_def)

theorem admission_within_limit_witness:
  "ws_reachable log2lib (NewFixedController 1) demo_wsys \<and> int (ws_holders demo_wsys) \<le> 1"
  using admission_within_limit [of 1 "NewFixedController 1" log2lib demo_wsys] demo_reachable fixed_within [of 1]
  by (simp add: NewFixedController_def)

text \<open>
  C5: no wake-up is lost. Whenever some goroutine waits although capacity is free, a
  \<open>Signal\<close> is still due or a goroutine is already on its way to the mutex, and signals that are
  due and goroutines that are up, without any new arrival or release, hand the capacity over. Hence with no step pending, a waiter implies
  that the controller is full.
\<close>

theorem free_capacity_reaches_waiters:
  assumes "limits_within B c" "c_inFlight c = 0" "ws_reachable M c s"
    "0 < ws_waiting s" "c_inFlight (ws_ctl s) < c_limit (ws_ctl s)"
  shows "(0 < ws_signals s \<or> 0 < ws_ready s)
    \<and> (\<exists>s'. wakeup_step\<^sup>*\<^sup>* s s' \<and> ws_holders s' = ws_holders s + 1)"
proof -
  have inv: "ws_inv B s" using assms by (auto intro: ws_inv_reachable)
  then have "0 < ws_signals s \<or> 0 < ws_ready s" using assms(4,5) by (auto simp: ws_inv_def)
  then show ?thesis using ws_progress [OF inv assms(4,5)] by blast
qed

theorem free_capacity_reaches_waiters_witness:
  "0 < ws_waiting demo_wsys \<and> (\<exists>s'. wakeup_step\<^sup>*\<^sup>* demo_wsys s' \<and> ws_holders s' = 1)"
  using free_capacity_reaches_waiters [of 1 "NewFixedController 1" log2lib demo_wsys] demo_reachable fixed_within [of 1]
  by (simp add: NewFixedController_def demo_wsys_def)

end
