(* ===== verification/GoHeap.thy ===== *)
theory GoHeap imports Go_Base "HOL-Library.Multiset" begin

text \<open>
  Go's \<^verbatim>\<open>container/heap\<close> (the standard library package the scheduler's queue is built
  on): \<open>Push\<close>, \<open>Pop\<close> and the sifting loops \<open>up\<close> and \<open>down\<close>, over a slice whose elements are
  told their index by \<open>Swap\<close>, \<open>Push\<close> and \<open>Pop\<close>.

  The operations take the comparison \<open>lt\<close> (\<open>Less\<close> on two elements) and \<open>si\<close>, which stores
  an index in an element. The locale \<open>heap_order\<close> states what the package's documentation
  asks of them, and proves that the operations then form a priority queue.
\<close>

section \<open>Operations\<close>

definition heap_swap :: "('a \<Rightarrow> int \<Rightarrow> 'a) \<Rightarrow> nat \<Rightarrow> nat \<Rightarrow> 'a list \<Rightarrow> 'a list" where
  "heap_swap si i j h = h[i := si (h ! j) (int i), j := si (h ! i) (int j)]"

text \<open>\<open>up\<close>: at index 0 the loop stops because the truncated \<open>(j - 1) / 2\<close> is \<open>j\<close> itself.\<close>

fun heap_up :: "('a \<Rightarrow> 'a \<Rightarrow> bool) \<Rightarrow> ('a \<Rightarrow> int \<Rightarrow> 'a) \<Rightarrow> nat \<Rightarrow> 'a list \<Rightarrow> 'a list" where
  "heap_up lt si j h =
    (let i = (j - 1) div 2 in
     if i = j \<or> \<not> lt (h ! j) (h ! i) then h else heap_up lt si i (heap_swap si i j h))"

declare heap_up.simps [simp del]

function heap_down :: "('a \<Rightarrow> 'a \<Rightarrow> bool) \<Rightarrow> ('a \<Rightarrow> int \<Rightarrow> 'a) \<Rightarrow> nat \<Rightarrow> nat \<Rightarrow> 'a list \<Rightarrow> 'a list" where
  "heap_down lt si i n h =
    (let j1 = 2 * i + 1 in
     if n \<le> j1 then h
     else let j = (if j1 + 1 < n \<and> lt (h ! (j1 + 1)) (h ! j1) then j1 + 1 else j1) in
       if \<not> lt (h ! j) (h ! i) then h else heap_down lt si j n (heap_swap si i j h))"
  by auto
termination by (relation "measure (\<lambda>(lt, si, i, n, h). n - i)") (auto split: if_splits)

declare heap_down.simps [simp del]

definition heap_push :: "('a \<Rightarrow> 'a \<Rightarrow> bool) \<Rightarrow> ('a \<Rightarrow> int \<Rightarrow> 'a) \<Rightarrow> 'a \<Rightarrow> 'a list \<Rightarrow> 'a list" where
  "heap_push lt si x h = heap_up lt si (length h) (h @ [si x (int (length h))])"

text \<open>\<open>Pop\<close> on an empty heap panics: \<open>None\<close>.\<close>

definition heap_pop :: "('a \<Rightarrow> 'a \<Rightarrow> bool) \<Rightarrow> ('a \<Rightarrow> int \<Rightarrow> 'a) \<Rightarrow> 'a list \<Rightarrow> ('a \<times> 'a list) option" where
  "heap_pop lt si h =
    (if h = [] then None
     else let n = length h - 1; h' = heap_down lt si 0 n (heap_swap si 0 n h) in
       Some (si (h' ! n) (- 1), take n h'))"

section \<open>What a priority queue promises\<close>

text \<open>
  The interface of the scheduler: \<open>contents\<close> is the multiset of queued elements, \<open>better x y\<close>
  says that \<open>x\<close> must be served before \<open>y\<close>, and only elements that satisfy \<open>ok\<close> are queued.
\<close>

locale priority_queue =
  fixes inv :: "'q \<Rightarrow> bool"
    and contents :: "'q \<Rightarrow> 'e multiset"
    and view :: "'x \<Rightarrow> 'e"
    and ok :: "'e \<Rightarrow> bool"
    and better :: "'e \<Rightarrow> 'e \<Rightarrow> bool"
    and push :: "'x \<Rightarrow> 'q \<Rightarrow> 'q"
    and pop :: "'q \<Rightarrow> ('x \<times> 'q) option"
  assumes inv_push: "inv q \<Longrightarrow> ok (view x) \<Longrightarrow> inv (push x q)"
    and contents_push: "inv q \<Longrightarrow> ok (view x) \<Longrightarrow> contents (push x q) = add_mset (view x) (contents q)"
    and pop_None: "inv q \<Longrightarrow> pop q = None \<longleftrightarrow> contents q = {#}"
    and inv_pop: "inv q \<Longrightarrow> pop q = Some (x, q') \<Longrightarrow> inv q'"
    and contents_pop: "inv q \<Longrightarrow> pop q = Some (x, q') \<Longrightarrow> contents q = add_mset (view x) (contents q')"
    and pop_best: "inv q \<Longrightarrow> pop q = Some (x, q') \<Longrightarrow> e \<in># contents q' \<Longrightarrow> \<not> better e (view x)"
begin

lemma pop_member: "inv q \<Longrightarrow> pop q = Some (x, q') \<Longrightarrow> view x \<in># contents q"
  by (simp add: contents_pop)

lemma pop_size: "inv q \<Longrightarrow> pop q = Some (x, q') \<Longrightarrow> size (contents q) = Suc (size (contents q'))"
  by (simp add: contents_pop)

text \<open>Popping until the queue is empty yields the contents, never a better element after a worse one.\<close>

fun drains :: "'q \<Rightarrow> 'x list \<Rightarrow> bool" where
  "drains q [] \<longleftrightarrow> pop q = None"
| "drains q (x # xs) \<longleftrightarrow> (\<exists>q'. pop q = Some (x, q') \<and> drains q' xs)"

lemma drains_contents: "inv q \<Longrightarrow> drains q xs \<Longrightarrow> contents q = mset (map view xs)"
proof (induction xs arbitrary: q)
  case (Cons x xs)
  then obtain q' where q': "pop q = Some (x, q')" "drains q' xs" by auto
  then have "contents q' = mset (map view xs)" using Cons.IH [of q'] inv_pop [OF Cons.prems(1)] by blast
  then show ?case using contents_pop [OF Cons.prems(1) q'(1)] by simp
qed (simp add: pop_None)

lemma drains_ordered: "inv q \<Longrightarrow> drains q xs \<Longrightarrow> sorted_wrt (\<lambda>x y. \<not> better (view y) (view x)) xs"
proof (induction xs arbitrary: q)
  case (Cons x xs)
  then obtain q' where q': "pop q = Some (x, q')" "drains q' xs" by auto
  then have inv': "inv q'" using Cons.prems inv_pop by blast
  then have "contents q' = mset (map view xs)" using q' drains_contents by blast
  then show ?case using Cons.IH [OF inv' q'(2)] pop_best [OF Cons.prems(1) q'(1)] by auto
qed simp

lemma drains_exists: "inv q \<Longrightarrow> \<exists>xs. drains q xs"
proof (induction "size (contents q)" arbitrary: q)
  case 0
  then have "drains q []" by (simp add: pop_None)
  then show ?case by blast
next
  case (Suc n)
  then have "pop q \<noteq> None" by (auto simp: pop_None)
  then obtain x q' where q': "pop q = Some (x, q')" by auto
  then obtain xs where "drains q' xs" using Suc pop_size [OF Suc.prems q'] inv_pop by fastforce
  then have "drains q (x # xs)" using q' by simp
  then show ?case by blast
qed

end


section \<open>The binary heap implements it\<close>

locale heap_order =
  fixes lt :: "'a \<Rightarrow> 'a \<Rightarrow> bool"
    and si :: "'a \<Rightarrow> int \<Rightarrow> 'a"
    and ok :: "'a \<Rightarrow> bool"
  assumes lt_asym: "ok x \<Longrightarrow> ok y \<Longrightarrow> lt x y \<Longrightarrow> \<not> lt y x"
    and lt_negtrans: "ok x \<Longrightarrow> ok y \<Longrightarrow> ok z \<Longrightarrow> \<not> lt x y \<Longrightarrow> \<not> lt y z \<Longrightarrow> \<not> lt x z"
    and lt_si [simp]: "lt (si x i) y = lt x y" "lt x (si y i) = lt x y"
    and si_si [simp]: "si (si x i) j = si x j"
    and ok_si [simp]: "ok (si x i) = ok x"
begin

text \<open>Elements up to their index.\<close>

definition norm :: "'a \<Rightarrow> 'a" where
  "norm x = si x 0"

lemma norm_si [simp]: "norm (si x i) = norm x"
  and lt_norm [simp]: "lt (norm x) y = lt x y" "lt x (norm y) = lt x y"
  and ok_norm [simp]: "ok (norm x) = ok x"
  by (simp_all add: norm_def)

definition all_ok :: "'a list \<Rightarrow> bool" where
  "all_ok h \<longleftrightarrow> (\<forall>x \<in> set h. ok x)"

text \<open>The heap property below \<open>n\<close>, except at one child or below one parent.\<close>

definition parent :: "nat \<Rightarrow> nat" where
  "parent k = (k - 1) div 2"

definition heap_ok :: "nat \<Rightarrow> 'a list \<Rightarrow> bool" where
  "heap_ok n h \<longleftrightarrow> (\<forall>k. 0 < k \<and> k < n \<longrightarrow> \<not> lt (h ! k) (h ! parent k))"

definition heap_but_child :: "nat \<Rightarrow> nat \<Rightarrow> 'a list \<Rightarrow> bool" where
  "heap_but_child n j h \<longleftrightarrow>
     (\<forall>k. 0 < k \<and> k < n \<and> k \<noteq> j \<longrightarrow> \<not> lt (h ! k) (h ! parent k))
     \<and> (\<forall>k. 0 < k \<and> k < n \<and> parent k = j \<and> 0 < j \<longrightarrow> \<not> lt (h ! k) (h ! parent j))"

definition heap_but_parent :: "nat \<Rightarrow> nat \<Rightarrow> 'a list \<Rightarrow> bool" where
  "heap_but_parent n i h \<longleftrightarrow>
     (\<forall>k. 0 < k \<and> k < n \<and> parent k \<noteq> i \<longrightarrow> \<not> lt (h ! k) (h ! parent k))
     \<and> (\<forall>k. 0 < k \<and> k < n \<and> parent k = i \<and> 0 < i \<longrightarrow> \<not> lt (h ! k) (h ! parent i))"

lemma parent_less [simp]: "0 < k \<Longrightarrow> parent k < k"
  by (auto simp: parent_def)

lemma parent_eq_iff: "0 < k \<Longrightarrow> parent k = i \<longleftrightarrow> k = 2 * i + 1 \<or> k = 2 * i + 2"
  unfolding parent_def by presburger

lemma length_heap_swap [simp]: "length (heap_swap si i j h) = length h"
  by (simp add: heap_swap_def)

lemma nth_heap_swap:
  "k < length h \<Longrightarrow> i < length h \<Longrightarrow> j < length h \<Longrightarrow>
    heap_swap si i j h ! k = (if k = j then si (h ! i) (int j) else if k = i then si (h ! j) (int i) else h ! k)"
  by (simp add: heap_swap_def nth_list_update)

lemma lt_swap_nth:
  assumes "k < length h" "l < length h" "i < length h" "j < length h"
  shows "lt (heap_swap si i j h ! k) (heap_swap si i j h ! l)
    = lt (h ! (if k = j then i else if k = i then j else k)) (h ! (if l = j then i else if l = i then j else l))"
  using assms by (simp add: nth_heap_swap)

lemma norm_swap: "i < length h \<Longrightarrow> j < length h \<Longrightarrow> mset (map norm (heap_swap si i j h)) = mset (map norm h)"
proof -
  assume ij: "i < length h" "j < length h"
  have "map norm (heap_swap si i j h) = (map norm h)[i := map norm h ! j, j := map norm h ! i]"
    using ij by (intro nth_equalityI) (auto simp: nth_heap_swap nth_list_update)
  then show ?thesis using ij mset_swap [of j "map norm h" i] by simp
qed

lemma all_ok_mset: "mset (map norm h) = mset (map norm h') \<Longrightarrow> all_ok h = all_ok h'"
proof -
  assume "mset (map norm h) = mset (map norm h')"
  then have "norm ` set h = norm ` set h'" by (metis mset_eq_setD set_map)
  then show ?thesis by (simp add: all_ok_def) (metis imageE image_eqI ok_norm)
qed

lemma all_ok_swap [simp]: "i < length h \<Longrightarrow> j < length h \<Longrightarrow> all_ok (heap_swap si i j h) = all_ok h"
  by (rule all_ok_mset) (rule norm_swap)

lemma all_ok_nth: "all_ok h \<Longrightarrow> i < length h \<Longrightarrow> ok (h ! i)"
  by (simp add: all_ok_def)

lemma heap_up_step:
  assumes "all_ok h" "heap_but_child (length h) j h" "0 < j" "j < length h" "lt (h ! j) (h ! parent j)"
  shows "heap_but_child (length h) (parent j) (heap_swap si (parent j) j h)"
proof -
  let ?p = "parent j" and ?h = "heap_swap si (parent j) j h"
  have p: "?p < j" "?p < length h" using assms(3,4) parent_less [of j] by linarith+
  have old: "\<not> lt (h ! k) (h ! parent k)" if "0 < k" "k < length h" "k \<noteq> j" for k
    using assms(2) that by (auto simp: heap_but_child_def)
  have grand: "\<not> lt (h ! k) (h ! ?p)" if "0 < k" "k < length h" "parent k = j" for k
    using assms(2,3) that by (auto simp: heap_but_child_def)
  have ok: "ok (h ! k)" if "k < length h" for k using all_ok_nth assms(1) that by blast
  have below: "\<not> lt (h ! k) (h ! j)" if "0 < k" "k < length h" "parent k = ?p" "k \<noteq> j" for k
  proof -
    have "\<not> lt (h ! k) (h ! ?p)" using old [of k] that by simp
    moreover have "\<not> lt (h ! ?p) (h ! j)" using lt_asym [OF ok ok assms(5)] assms(4) p by simp
    ultimately show ?thesis using lt_negtrans [OF ok ok ok] that(2) p(2) assms(4) by blast
  qed
  have "\<not> lt (?h ! k) (?h ! parent k)" if k: "0 < k" "k < length h" "k \<noteq> ?p" for k
  proof -
    have pk: "parent k < k" "parent k < length h" using k parent_less [of k] by linarith+
    note swap = lt_swap_nth [OF k(2) pk(2) p(2) assms(4)]
    consider "k = j" | "k \<noteq> j" "parent k = j" | "k \<noteq> j" "parent k = ?p" | "k \<noteq> j" "parent k \<noteq> j" "parent k \<noteq> ?p"
      by blast
    then show ?thesis
    proof cases
      case 1
      then show ?thesis using swap k p lt_asym [OF ok ok assms(5)] assms(4) by simp
    next
      case 2
      then show ?thesis using swap k grand [of k] by simp
    next
      case 3
      then show ?thesis using swap k p below [of k] by simp
    next
      case 4
      then show ?thesis using swap k old [of k] by simp
    qed
  qed
  moreover have "\<not> lt (?h ! k) (?h ! parent ?p)" if k: "0 < k" "k < length h" "parent k = ?p" "0 < ?p" for k
  proof -
    have pp: "parent ?p < ?p" "parent ?p < length h" using k p parent_less [of ?p] by linarith+
    have p': "\<not> lt (h ! ?p) (h ! parent ?p)" using old [of ?p] k p by auto
    have "\<not> lt (h ! k) (h ! parent ?p)" if "k \<noteq> j"
      using lt_negtrans [of "h ! k" "h ! ?p" "h ! parent ?p"] old [of k] k that p' ok pp p by auto
    moreover have "parent ?p \<noteq> ?p" "parent ?p \<noteq> j" "k \<noteq> ?p" using pp p k parent_less [of k] by linarith+
    ultimately show ?thesis using lt_swap_nth [OF k(2) pp(2) p(2) assms(4)] p' by (cases "k = j") simp_all
  qed
  ultimately show ?thesis by (auto simp: heap_but_child_def)
qed

lemma heap_but_child_done:
  "heap_but_child n j h \<Longrightarrow> j = 0 \<or> \<not> lt (h ! j) (h ! parent j) \<Longrightarrow> heap_ok n h"
  unfolding heap_ok_def heap_but_child_def by blast

lemma heap_up_ok:
  assumes "all_ok h" "heap_but_child (length h) j h" "j < length h"
  shows "heap_ok (length h) (heap_up lt si j h) \<and> length (heap_up lt si j h) = length h
    \<and> mset (map norm (heap_up lt si j h)) = mset (map norm h)"
  using assms
proof (induction j arbitrary: h rule: less_induct)
  case (less j)
  show ?case
  proof (cases "j = 0 \<or> \<not> lt (h ! j) (h ! parent j)")
    case True
    then have "heap_up lt si j h = h" by (auto simp: heap_up.simps [of lt si j h] parent_def Let_def)
    then show ?thesis using heap_but_child_done [OF less.prems(2) True] by simp
  next
    case False
    let ?h = "heap_swap si (parent j) j h"
    have j: "0 < j" "parent j < j" "parent j < length h" using False less.prems(3) parent_less [of j] by linarith+
    have "heap_up lt si j h = heap_up lt si (parent j) ?h"
      using False j by (subst heap_up.simps) (simp add: parent_def Let_def)
    moreover have "heap_but_child (length h) (parent j) ?h"
      using heap_up_step [OF less.prems(1,2) j(1) less.prems(3)] False by blast
    ultimately show ?thesis
      using less.IH [OF j(2), of ?h] less.prems j norm_swap [OF j(3) less.prems(3)] by simp
  qed
qed

lemma heap_down_step:
  assumes "all_ok h" "heap_but_parent n i h" "n \<le> length h" "j < n" "0 < j" "parent j = i"
    "\<And>k. 0 < k \<Longrightarrow> k < n \<Longrightarrow> parent k = i \<Longrightarrow> \<not> lt (h ! k) (h ! j)" "lt (h ! j) (h ! i)"
  shows "heap_but_parent n j (heap_swap si i j h)"
proof -
  let ?h = "heap_swap si i j h"
  have i: "i < j" "i < length h" "j < length h" using assms(3-6) parent_less [of j] by linarith+
  have old: "\<not> lt (h ! k) (h ! parent k)" if "0 < k" "k < n" "parent k \<noteq> i" for k
    using assms(2) that by (auto simp: heap_but_parent_def)
  have grand: "\<not> lt (h ! k) (h ! parent i)" if "0 < k" "k < n" "parent k = i" "0 < i" for k
    using assms(2) that by (auto simp: heap_but_parent_def)
  have ok: "ok (h ! k)" if "k < length h" for k using all_ok_nth assms(1) that by blast
  have "\<not> lt (?h ! k) (?h ! parent k)" if k: "0 < k" "k < n" "parent k \<noteq> j" for k
  proof -
    have pk: "parent k < k" "parent k < length h" "k < length h" using k assms(3) parent_less [of k] by linarith+
    note swap = lt_swap_nth [OF pk(3,2) i(2,3)]
    consider "k = j" | "k \<noteq> j" "parent k = i" | "k = i" | "k \<noteq> j" "k \<noteq> i" "parent k \<noteq> i" by blast
    then show ?thesis
    proof cases
      case 1
      then show ?thesis using swap i assms(6) lt_asym [OF ok ok assms(8)] by simp
    next
      case 2
      then show ?thesis using swap k i pk assms(7) [of k] by simp
    next
      case 3
      then show ?thesis using swap k i pk assms(5,6) grand [of j] assms(4) by simp
    next
      case 4
      then show ?thesis using swap k old [of k] by simp
    qed
  qed
  moreover have "\<not> lt (?h ! k) (?h ! parent j)" if k: "0 < k" "k < n" "parent k = j" for k
  proof -
    have pk: "j < k" "k < length h" using k assms(3) parent_less [of k] by linarith+
    then show ?thesis using k i assms(5,6) old [of k] by (auto simp: lt_swap_nth)
  qed
  ultimately show ?thesis by (auto simp: heap_but_parent_def)
qed

lemma heap_but_parent_done:
  "heap_but_parent n i h \<Longrightarrow> (\<And>k. 0 < k \<Longrightarrow> k < n \<Longrightarrow> parent k = i \<Longrightarrow> \<not> lt (h ! k) (h ! i)) \<Longrightarrow> heap_ok n h"
  unfolding heap_ok_def heap_but_parent_def by blast

lemma heap_down_ok:
  assumes "all_ok h" "heap_but_parent n i h" "n \<le> length h" "i < n"
  shows "heap_ok n (heap_down lt si i n h) \<and> length (heap_down lt si i n h) = length h
    \<and> mset (map norm (heap_down lt si i n h)) = mset (map norm h)
    \<and> drop n (heap_down lt si i n h) = drop n h"
  using assms
proof (induction "n - i" arbitrary: i h rule: less_induct)
  case less
  let ?j1 = "2 * i + 1"
  define j where "j = (if ?j1 + 1 < n \<and> lt (h ! (?j1 + 1)) (h ! ?j1) then ?j1 + 1 else ?j1)"
  have unf: "heap_down lt si i n h = (if n \<le> ?j1 then h else if \<not> lt (h ! j) (h ! i) then h
      else heap_down lt si j n (heap_swap si i j h))"
    by (subst heap_down.simps) (simp add: Let_def j_def)
  show ?case
  proof (cases "n \<le> ?j1")
    case True
    then have "heap_ok n h"
      by (intro heap_but_parent_done [OF less.prems(2)]) (auto simp: parent_eq_iff)
    then show ?thesis using True unf by simp
  next
    case False
    have j: "j < n" "0 < j" "parent j = i" "i < j" "j < length h" "i < length h"
      using False less.prems(3,4) by (auto simp: j_def parent_eq_iff)
    have best: "\<not> lt (h ! k) (h ! j)" if "0 < k" "k < n" "parent k = i" for k
    proof -
      have k: "k = ?j1 \<or> k = ?j1 + 1" using that by (auto simp: parent_eq_iff)
      have "ok (h ! k)" "ok (h ! j)" using all_ok_nth [OF less.prems(1)] that less.prems(3) j by simp_all
      then show ?thesis using k that lt_asym [of "h ! k" "h ! j"] lt_asym [of "h ! k" "h ! k"]
        by (auto simp: j_def split: if_splits)
    qed
    show ?thesis
    proof (cases "lt (h ! j) (h ! i)")
      case True
      let ?h = "heap_swap si i j h"
      have "heap_but_parent n j ?h"
        using heap_down_step [OF less.prems(1-3) j(1-3) best True] by blast
      moreover have "drop n ?h = drop n h" using j less.prems(4) by (simp add: heap_swap_def)
      ultimately show ?thesis
        using less.hyps [of j ?h] less.prems j norm_swap [OF j(6,5)] unf False True by simp
    next
      case nlt: False
      have "\<not> lt (h ! k) (h ! i)" if k: "0 < k" "k < n" "parent k = i" for k
        using best [OF k] nlt lt_negtrans [of "h ! k" "h ! j" "h ! i"] all_ok_nth [OF less.prems(1)]
          k less.prems(3) j by simp
      then have "heap_ok n h" by (rule heap_but_parent_done [OF less.prems(2)])
      then show ?thesis using nlt False unf by simp
    qed
  qed
qed

text \<open>The whole slice is a heap of admissible elements.\<close>

definition heap_inv :: "'a list \<Rightarrow> bool" where
  "heap_inv h \<longleftrightarrow> heap_ok (length h) h \<and> all_ok h"

lemma heap_root_best:
  assumes "heap_ok n h" "all_ok h" "n \<le> length h" "k < n"
  shows "\<not> lt (h ! k) (h ! 0)"
  using assms(4)
proof (induction k rule: less_induct)
  case (less k)
  show ?case
  proof (cases "k = 0")
    case True
    have "ok (h ! 0)" using all_ok_nth [OF assms(2), of 0] less.prems assms(3) by fastforce
    then show ?thesis using lt_asym [of "h ! 0" "h ! 0"] True by blast
  next
    case False
    then have "parent k < k" "\<not> lt (h ! k) (h ! parent k)"
      using assms(1) less.prems by (simp_all add: heap_ok_def)
    moreover have "0 < length h" "k < length h" "parent k < length h"
      using less.prems assms(3) \<open>parent k < k\<close> by linarith+
    then have "ok (h ! k)" "ok (h ! parent k)" "ok (h ! 0)" by (simp_all only: all_ok_nth [OF assms(2)])
    ultimately show ?thesis
      using less.IH [of "parent k"] less.prems lt_negtrans [of "h ! k" "h ! parent k" "h ! 0"] by simp
  qed
qed

lemma heap_push_ok:
  assumes "heap_inv h" "ok x"
  shows "heap_inv (heap_push lt si x h)
    \<and> mset (map norm (heap_push lt si x h)) = add_mset (norm x) (mset (map norm h))"
proof -
  let ?h = "h @ [si x (int (length h))]"
  have ok: "all_ok ?h" using assms by (auto simp: heap_inv_def all_ok_def)
  have "\<not> lt (?h ! k) (?h ! parent k)" if "0 < k" "k < length h" for k
  proof -
    have "parent k < length h" using that parent_less [of k] by linarith
    then show ?thesis using that assms(1) by (simp add: heap_inv_def heap_ok_def nth_append)
  qed
  moreover have False if "0 < k" "k < length ?h" "parent k = length h" for k
    using that parent_less [of k] by simp
  ultimately have "heap_but_child (length ?h) (length h) ?h"
    by (auto simp: heap_but_child_def)
  note up = heap_up_ok [OF ok this]
  then show ?thesis using all_ok_mset [of "heap_up lt si (length h) ?h" ?h] ok
    by (simp add: heap_inv_def heap_push_def)
qed

lemma heap_pop_ok:
  assumes "heap_inv h" "heap_pop lt si h = Some (x, h')"
  shows "heap_inv h' \<and> mset (map norm h) = add_mset (norm x) (mset (map norm h'))
    \<and> norm x = norm (h ! 0) \<and> (\<forall>e \<in># mset (map norm h'). \<not> lt e x)"
proof -
  define n where "n = length h - 1"
  define s where "s = heap_swap si 0 n h"
  define d where "d = heap_down lt si 0 n s"
  have h: "h \<noteq> []" "length h = Suc n" using assms(2) by (auto simp: heap_pop_def n_def split: if_splits)
  have x: "x = si (d ! n) (- 1)" "h' = take n d"
    using assms(2) by (auto simp: heap_pop_def Let_def n_def s_def d_def split: if_splits)
  have s: "length s = Suc n" "all_ok s" "mset (map norm s) = mset (map norm h)" "s ! n = si (h ! 0) (int n)"
  proof -
    have n: "0 < length h" "n < length h" using h by simp_all
    show "length s = Suc n" "all_ok s" "mset (map norm s) = mset (map norm h)"
      using h assms(1) n norm_swap [OF n] unfolding s_def heap_inv_def by simp_all
    show "s ! n = si (h ! 0) (int n)" using n by (simp add: s_def nth_heap_swap)
  qed
  have "\<not> lt (s ! k) (s ! parent k)" if k: "0 < k" "k < n" "parent k \<noteq> 0" for k
  proof -
    have "\<not> lt (h ! k) (h ! parent k)" using assms(1) k h by (simp add: heap_inv_def heap_ok_def)
    moreover have "parent k < n" using parent_less [of k] k by linarith
    ultimately show ?thesis using k h by (simp add: s_def lt_swap_nth)
  qed
  then have but: "heap_but_parent n 0 s" by (simp add: heap_but_parent_def)
  have d: "heap_ok n d \<and> length d = Suc n \<and> mset (map norm d) = mset (map norm h) \<and> drop n d = drop n s"
  proof (cases "n = 0")
    case True
    then show ?thesis using s by (simp add: d_def heap_down.simps [of lt si 0 0 s] heap_ok_def)
  next
    case False
    then show ?thesis using heap_down_ok [OF s(2) but] s by (simp add: d_def)
  qed
  have ok: "all_ok d" using all_ok_mset [of d h] d assms(1) by (simp add: heap_inv_def)
  have last: "d ! n = si (h ! 0) (int n)"
    using d s nth_via_drop [of n d] by (metis Cons_nth_drop_Suc drop_eq_Nil2 lessI nth_via_drop)
  have split: "d = take n d @ [d ! n]" using d by (metis lessI take_Suc_conv_app_nth take_all order_refl)
  have "heap_inv h'"
    using d ok unfolding x(2) by (auto simp: heap_inv_def heap_ok_def all_ok_def dest: in_set_takeD)
      (metis less_trans parent_less nth_take)
  moreover have "mset (map norm h) = add_mset (norm x) (mset (map norm h'))"
    using d arg_cong [OF split, of "\<lambda>l. mset (map norm l)"] by (simp add: x)
  moreover have "\<not> lt e x" if "e \<in># mset (map norm h')" for e
  proof -
    have "e \<in># mset (map norm h)" using calculation(2) that by simp
    then obtain k where "e = norm (h ! k)" "k < length h" by (auto simp: in_set_conv_nth)
    then show ?thesis
      using heap_root_best [of "length h" h k] assms(1) by (simp add: x last heap_inv_def)
  qed
  ultimately show ?thesis by (simp add: x last)
qed

sublocale pq: priority_queue heap_inv "\<lambda>h. mset (map norm h)" norm ok lt "heap_push lt si" "heap_pop lt si"
proof
  show "heap_inv q \<Longrightarrow> heap_pop lt si q = None \<longleftrightarrow> mset (map norm q) = {#}" for q
    by (auto simp: heap_pop_def Let_def)
  show "heap_inv q \<Longrightarrow> heap_pop lt si q = Some (x, q') \<Longrightarrow> e \<in># mset (map norm q') \<Longrightarrow> \<not> lt e (norm x)" for q x q' e
    using heap_pop_ok [of q x q'] by (metis lt_norm(2))
qed (use heap_push_ok heap_pop_ok in auto)

end

end
