(* ===== verification/TicketHeap.thy ===== *)
theory TicketHeap imports GoHeap Float64 "HOL-Library.Word" begin

text \<open>
  The queue of the scheduler (\<^verbatim>\<open>Ticket\<close> and \<^verbatim>\<open>ticketHeap\<close> of
  \<^verbatim>\<open>adaptiveadmission/queue.go\<close>): a binary heap of tickets, higher score first, arrival
  order among equal scores.

  A ticket is identified by its arrival number; the channel \<^verbatim>\<open>granted\<close> is represented by
  the list of granted tickets of the system in \<open>Scheduler\<close>. The theory interprets the heap
  locale on the comparison of the code: it is a strict weak order on the tickets whose score
  is a number, and only on those.
\<close>

record Ticket =
  t_Score :: f64
  t_seq :: "64 word"
  t_index :: go_int

definition ticket_less :: "Ticket \<Rightarrow> Ticket \<Rightarrow> bool" where
  "ticket_less a b =
    (if \<not> feq (t_Score a) (t_Score b) then flt (t_Score b) (t_Score a) else t_seq a < t_seq b)"

definition set_index :: "Ticket \<Rightarrow> int \<Rightarrow> Ticket" where
  "set_index t i = t\<lparr>t_index := i\<rparr>"

definition score_ok :: "Ticket \<Rightarrow> bool" where
  "score_ok t \<longleftrightarrow> t_Score t \<noteq> NaN"

definition pq_Push :: "Ticket \<Rightarrow> Ticket list \<Rightarrow> Ticket list" where
  "pq_Push = heap_push ticket_less set_index"

definition pq_Pop :: "Ticket list \<Rightarrow> (Ticket \<times> Ticket list) option" where
  "pq_Pop = heap_pop ticket_less set_index"

lemma set_index_simps [simp]:
  "t_Score (set_index t i) = t_Score t" "t_seq (set_index t i) = t_seq t" "t_index (set_index t i) = i"
  "set_index (set_index t i) j = set_index t j" "score_ok (set_index t i) = score_ok t"
  by (simp_all add: set_index_def score_ok_def)

lemma ticket_less_iff:
  "score_ok a \<Longrightarrow> score_ok b \<Longrightarrow>
    ticket_less a b \<longleftrightarrow> t_Score b < t_Score a \<or> (t_Score a = t_Score b \<and> t_seq a < t_seq b)"
  by (auto simp: ticket_less_def feq_def flt_def score_ok_def)

interpretation th: heap_order ticket_less set_index score_ok
proof
  fix x y z
  assume ok: "score_ok x" "score_ok y" "score_ok z"
  assume "\<not> ticket_less x y" "\<not> ticket_less y z"
  then show "\<not> ticket_less x z" using ok by (auto simp: ticket_less_iff not_less)
qed (auto simp: ticket_less_iff, auto simp: ticket_less_def)

text \<open>The parts of a ticket that matter to a caller.\<close>

definition key :: "Ticket \<Rightarrow> 64 word \<times> f64" where
  "key t = (t_seq t, t_Score t)"

definition pq_ok :: "Ticket list \<Rightarrow> bool" where
  "pq_ok h \<longleftrightarrow> th.heap_inv h"

definition pq_keys :: "Ticket list \<Rightarrow> (64 word \<times> f64) multiset" where
  "pq_keys h = mset (map key h)"

lemma key_norm [simp]: "key (th.norm t) = key t"
  by (simp add: key_def th.norm_def)

lemma key_set_index [simp]: "key (set_index t i) = key t"
  by (simp add: key_def)

lemma pq_keys_norm: "pq_keys h = image_mset key (mset (map th.norm h))"
  by (simp add: pq_keys_def multiset.map_comp comp_def)

lemma pq_ok_Nil [simp]: "pq_ok []"
  by (simp add: pq_ok_def th.heap_inv_def th.heap_ok_def th.all_ok_def)

lemma pq_Push_ok: "pq_ok h \<Longrightarrow> score_ok t \<Longrightarrow> pq_ok (pq_Push t h)"
  by (simp add: pq_ok_def pq_Push_def th.pq.inv_push)

lemma pq_Push_keys: "pq_ok h \<Longrightarrow> score_ok t \<Longrightarrow> pq_keys (pq_Push t h) = add_mset (key t) (pq_keys h)"
  unfolding pq_keys_norm pq_ok_def pq_Push_def by (simp add: th.heap_push_ok del: mset_map)

lemma pq_Pop_ok: "pq_ok h \<Longrightarrow> pq_Pop h = Some (t, h') \<Longrightarrow> pq_ok h'"
  unfolding pq_ok_def pq_Pop_def by (rule th.pq.inv_pop)

lemma pq_Pop_keys: "pq_ok h \<Longrightarrow> pq_Pop h = Some (t, h') \<Longrightarrow> pq_keys h = add_mset (key t) (pq_keys h')"
  unfolding pq_keys_norm pq_ok_def pq_Pop_def by (simp add: th.pq.contents_pop del: mset_map)

lemma pq_Pop_None: "pq_Pop h = None \<longleftrightarrow> h = []"
  by (simp add: pq_Pop_def heap_pop_def Let_def)

lemma pq_Pop_best:
  assumes "pq_ok h" "pq_Pop h = Some (t, h')" "u \<in> set h'"
  shows "\<not> ticket_less u t"
  using th.pq.pop_best [of h t h' "th.norm u"] assms by (simp add: pq_ok_def pq_Pop_def)

lemma pq_ok_score: "pq_ok h \<Longrightarrow> t \<in> set h \<Longrightarrow> score_ok t"
  by (simp add: pq_ok_def th.heap_inv_def th.all_ok_def)

lemma pq_keys_set: "set_mset (pq_keys h) = key ` set h"
  by (simp add: pq_keys_def)

lemma size_pq_keys [simp]: "size (pq_keys h) = length h"
  by (simp add: pq_keys_def)


section \<open>Draining the queue\<close>

text \<open>All tickets in the order in which repeated \<open>Pop\<close> returns them.\<close>

fun pop_all :: "nat \<Rightarrow> Ticket list \<Rightarrow> Ticket list" where
  "pop_all 0 h = []"
| "pop_all (Suc n) h = (case pq_Pop h of None \<Rightarrow> [] | Some (t, h') \<Rightarrow> t # pop_all n h')"

lemma pq_Pop_length: "pq_ok h \<Longrightarrow> pq_Pop h = Some (t, h') \<Longrightarrow> length h = Suc (length h')"
  using pq_Pop_keys [of h t h'] by (metis size_add_mset size_pq_keys)

lemma drains_pop_all: "pq_ok h \<Longrightarrow> n = length h \<Longrightarrow> th.pq.drains h (pop_all n h)"
proof (induction n h rule: pop_all.induct)
  case (1 h)
  moreover have "heap_pop ticket_less set_index [] = None" by (simp add: heap_pop_def)
  ultimately show ?case by simp
next
  case (2 n h)
  then obtain t h' where p: "pq_Pop h = Some (t, h')" using pq_Pop_None [of h] by fastforce
  then have "pq_ok h'" "n = length h'" using 2 pq_Pop_ok pq_Pop_length [of h t h'] by auto
  then have "th.pq.drains h' (pop_all n h')" using 2 p by blast
  moreover have "pop_all (Suc n) h = t # pop_all n h'" using p by simp
  ultimately show ?case using p by (simp add: pq_Pop_def)
qed

lemma pushes_ok:
  "pq_ok h \<Longrightarrow> (\<And>t. t \<in> set ts \<Longrightarrow> score_ok t) \<Longrightarrow>
    pq_ok (fold pq_Push ts h) \<and> pq_keys (fold pq_Push ts h) = pq_keys h + mset (map key ts)"
  by (induction ts arbitrary: h) (simp_all add: pq_Push_ok pq_Push_keys)

section \<open>Properties\<close>

text \<open>
  C17: pushing any tickets whose scores are numbers and popping until the queue is empty yields
  exactly those tickets, higher scores first and equal scores in arrival order: of two
  tickets, the one popped later never precedes the other in the order of \<open>Less\<close>.
\<close>

theorem queue_serves_by_priority:
  assumes "\<And>t. t \<in> set ts \<Longrightarrow> score_ok t"
  shows "let out = pop_all (length ts) (fold pq_Push ts []) in
    mset (map key out) = mset (map key ts)
    \<and> sorted_wrt (\<lambda>t u. t_Score u < t_Score t \<or> (t_Score t = t_Score u \<and> t_seq t \<le> t_seq u)) out"
proof -
  let ?h = "fold pq_Push ts []"
  have h: "pq_ok ?h" "pq_keys ?h = mset (map key ts)"
    using pushes_ok [of "[]" ts] assms by (simp_all add: pq_keys_def)
  have "length ?h = length ts" using arg_cong [OF h(2), of size] by simp
  then have d: "th.pq.drains ?h (pop_all (length ts) ?h)" using drains_pop_all [OF h(1)] by simp
  have i: "th.heap_inv ?h" using h(1) by (simp add: pq_ok_def)
  have c: "mset (map th.norm ?h) = mset (map th.norm (pop_all (length ts) ?h))"
    using th.pq.drains_contents [OF i d] .
  then have keys: "mset (map key (pop_all (length ts) ?h)) = mset (map key ts)"
    using h(2) unfolding pq_keys_norm by (metis pq_keys_def pq_keys_norm)
  have ok: "score_ok t" if "t \<in> set (pop_all (length ts) ?h)" for t
  proof -
    have "key t \<in> key ` set ts" using keys that by (metis image_eqI set_map mset_eq_setD)
    then obtain u where "u \<in> set ts" "key t = key u" by auto
    then show ?thesis using assms [of u] by (simp add: key_def score_ok_def)
  qed
  have "sorted_wrt (\<lambda>x y. \<not> ticket_less (th.norm y) (th.norm x)) (pop_all (length ts) ?h)"
    by (rule th.pq.drains_ordered [OF i d])
  then have "sorted_wrt (\<lambda>t u. t_Score u < t_Score t \<or> (t_Score t = t_Score u \<and> t_seq t \<le> t_seq u))
      (pop_all (length ts) ?h)"
    by (rule sorted_wrt_mono_rel [rotated]) (auto simp: ticket_less_iff ok)
  then show ?thesis using keys by (simp add: Let_def)
qed

definition demo_ticket :: "rat \<Rightarrow> 64 word \<Rightarrow> Ticket" where
  "demo_ticket x n = \<lparr>t_Score = Fin x, t_seq = n, t_index = 0\<rparr>"

definition demo_tickets :: "Ticket list" where
  "demo_tickets = [demo_ticket 1 1, demo_ticket 3 2, demo_ticket 1 3, demo_ticket 2 4]"

theorem queue_serves_by_priority_witness:
  "mset (map key (pop_all 4 (fold pq_Push demo_tickets []))) = mset (map key demo_tickets)
    \<and> map t_seq (pop_all 4 (fold pq_Push demo_tickets [])) = [2, 4, 1, 3]"
proof -
  have "map t_seq (pop_all 4 (fold pq_Push demo_tickets [])) = [2, 4, 1, 3]" by code_simp
  moreover have "length demo_tickets = 4" "\<And>t. t \<in> set demo_tickets \<Longrightarrow> score_ok t"
    by (auto simp: demo_tickets_def demo_ticket_def score_ok_def)
  ultimately show ?thesis using queue_serves_by_priority [of demo_tickets] by (simp only: Let_def)
qed

text \<open>
  a single score that is not a number breaks the order for the others: with scores 9, NaN,
  8 and 10 pushed in this order, the first ticket popped is the one with score 9, although
  the one with score 10 is queued and \<open>Less\<close> puts it first.
\<close>

theorem nan_score_breaks_priority:
  "let h = fold pq_Push [demo_ticket 9 1, \<lparr>t_Score = NaN, t_seq = 2, t_index = 0\<rparr>,
      demo_ticket 8 3, demo_ticket 10 4] [];
     (t, h') = the (pq_Pop h)
   in t_seq t = 1 \<and> (\<exists>u \<in> set h'. t_Score u = Fin 10 \<and> ticket_less u t)"
  by code_simp

end
