(* ===== verification/Scheduler.thy ===== *)
theory Scheduler imports Controller TicketHeap begin

text \<open>
  The bounded priority queue in front of a controller (\<^verbatim>\<open>Scheduler\<close> of
  \<^verbatim>\<open>adaptiveadmission/queue.go\<close>): admission (\<open>Enqueue\<close> with its two rejections), the single
  dispatch loop that acquires capacity before it pops a ticket, and the drain on \<open>Stop\<close>.

  The step relation \<open>sched_step\<close> interleaves the clients, the loop, the requests that were
  granted and the controller's own adjustments. Each step is what the code does under one
  mutex. \<open>P\<close> restricts the scores the clients submit.
\<close>

section \<open>State and operations\<close>

datatype RejectReason = RejectNone | RejectQueueFull | RejectQueueWaitExceeded

fun RejectReason_String :: "RejectReason \<Rightarrow> string" where
  "RejectReason_String RejectQueueFull = ''queue_full''"
| "RejectReason_String RejectQueueWaitExceeded = ''queue_wait_exceeded''"
| "RejectReason_String RejectNone = ''none''"

record QueueConfig =
  qc_MaxSize :: go_int
  qc_WaitTimeout :: duration

record Scheduler =
  s_pq :: "Ticket list"
  s_seq :: "64 word"
  s_cfg :: QueueConfig
  s_controller :: Controller
  s_stopped :: bool

definition NewScheduler :: "QueueConfig \<Rightarrow> Controller \<Rightarrow> Scheduler" where
  "NewScheduler cfg c = \<lparr>s_pq = [], s_seq = 0, s_cfg = cfg, s_controller = c, s_stopped = False\<rparr>"

definition Depth :: "Scheduler \<Rightarrow> go_int" where
  "Depth s = int (length (s_pq s))"

text \<open>The estimate and whether there is enough data for one.\<close>

definition projectedWaitLocked :: "go_int \<Rightarrow> Scheduler \<Rightarrow> duration \<times> bool" where
  "projectedWaitLocked depth s =
    (let limit = c_limit (s_controller s); mean = MeanLatency (s_controller s) in
     if limit \<le> 0 \<or> mean \<le> 0 then (0, False)
     else (int_of_f64 (fdiv (fmul (f64_of_int depth) (f64_of_int mean)) (f64_of_int limit)), True))"

text \<open>The ticket handed to the caller is the one that was created; the index is private to the heap.\<close>

definition Enqueue :: "f64 \<Rightarrow> Scheduler \<Rightarrow> (Ticket option \<times> RejectReason) \<times> Scheduler" where
  "Enqueue score s =
    (let depth = int (length (s_pq s)) in
     if 0 < qc_MaxSize (s_cfg s) \<and> qc_MaxSize (s_cfg s) \<le> depth then ((None, RejectQueueFull), s)
     else if 0 < qc_WaitTimeout (s_cfg s)
       \<and> (let (projected, ok) = projectedWaitLocked depth s in ok \<and> qc_WaitTimeout (s_cfg s) < projected)
     then ((None, RejectQueueWaitExceeded), s)
     else
       let n = s_seq s + 1; t = \<lparr>t_Score = score, t_seq = n, t_index = 0\<rparr> in
       ((Some t, RejectNone), s\<lparr>s_seq := n, s_pq := pq_Push t (s_pq s)\<rparr>))"

text \<open>One pass of \<open>waitPopHead\<close>: wait on the condition, report the stop, or take the head.\<close>

datatype pop_result = PopWait | PopStopped | PopTicket Ticket Scheduler

definition waitPopHead :: "Scheduler \<Rightarrow> pop_result" where
  "waitPopHead s =
    (if s_pq s = [] \<and> \<not> s_stopped s then PopWait
     else case pq_Pop (s_pq s) of
       None \<Rightarrow> PopStopped
     | Some (t, h) \<Rightarrow> PopTicket t (s\<lparr>s_pq := h\<rparr>))"

definition StopFlag :: "Scheduler \<Rightarrow> Scheduler" where
  "StopFlag s = s\<lparr>s_stopped := True\<rparr>"

section \<open>The dispatch loop among its clients\<close>

text \<open>
  Where the loop is: about to acquire a unit of capacity; holding it and about to look at the
  queue; blocked on the condition; about to close the channel of a popped ticket; about to
  give the unit back; returned.
\<close>

datatype loop_pc = LAcquire | LWait | LBlocked | LClose Ticket | LReleaseUnused | LDone

text \<open>
  \<open>granted\<close> lists the tickets whose channel has been closed, in that order, \<open>running\<close> the
  requests that were granted and have not called \<open>Release\<close>, \<open>leaked\<close> counts the ones that
  never will, because the wrapped handler panicked; \<open>accepted\<close> records every ticket
  \<open>Enqueue\<close> ever returned.
\<close>

record ssys =
  y_s :: Scheduler
  y_pc :: loop_pc
  y_granted :: "Ticket list"
  y_running :: "64 word list"
  y_leaked :: nat
  y_accepted :: "Ticket list"

text \<open>\<^verbatim>\<open>s.cond.Signal()\<close>: only the loop ever waits on it.\<close>

definition signal_loop :: "loop_pc \<Rightarrow> loop_pc" where
  "signal_loop pc = (if pc = LBlocked then LWait else pc)"

abbreviation y_ctl :: "ssys \<Rightarrow> Controller" where
  "y_ctl y \<equiv> s_controller (y_s y)"

definition set_ctl :: "Controller \<Rightarrow> ssys \<Rightarrow> ssys" where
  "set_ctl c y = y\<lparr>y_s := (y_s y)\<lparr>s_controller := c\<rparr>\<rparr>"

inductive sched_step :: "mathlib \<Rightarrow> (f64 \<Rightarrow> bool) \<Rightarrow> ssys \<Rightarrow> ssys \<Rightarrow> bool" for M P where
  st_enqueue: "P score \<Longrightarrow> Enqueue score (y_s y) = ((Some t, r), s) \<Longrightarrow>
    sched_step M P y (y\<lparr>y_s := s, y_pc := signal_loop (y_pc y), y_accepted := y_accepted y @ [t]\<rparr>)"
| st_acquire: "y_pc y = LAcquire \<Longrightarrow> Acquire 1 (y_ctl y) = Some c \<Longrightarrow>
    sched_step M P y ((set_ctl c y)\<lparr>y_pc := LWait\<rparr>)"
| st_block: "y_pc y = LWait \<Longrightarrow> waitPopHead (y_s y) = PopWait \<Longrightarrow>
    sched_step M P y (y\<lparr>y_pc := LBlocked\<rparr>)"
| st_pop: "y_pc y = LWait \<Longrightarrow> waitPopHead (y_s y) = PopTicket t s \<Longrightarrow>
    sched_step M P y (y\<lparr>y_s := s, y_pc := LClose t\<rparr>)"
| st_stopped: "y_pc y = LWait \<Longrightarrow> waitPopHead (y_s y) = PopStopped \<Longrightarrow>
    sched_step M P y (y\<lparr>y_pc := LReleaseUnused\<rparr>)"
| st_close: "y_pc y = LClose t \<Longrightarrow>
    sched_step M P y (y\<lparr>y_pc := LAcquire, y_granted := y_granted y @ [t], y_running := y_running y @ [t_seq t]\<rparr>)"
| st_release_unused: "y_pc y = LReleaseUnused \<Longrightarrow>
    sched_step M P y ((set_ctl (fst (ReleaseUnused 1 (y_ctl y))) y)\<lparr>y_pc := LDone\<rparr>)"
| st_finish: "n \<in> set (y_running y) \<Longrightarrow>
    sched_step M P y ((set_ctl (fst (Release M 1 latency status timedOut (y_ctl y))) y)\<lparr>y_running := remove1 n (y_running y)\<rparr>)"
| st_panic: "n \<in> set (y_running y) \<Longrightarrow>
    sched_step M P y (y\<lparr>y_running := remove1 n (y_running y), y_leaked := Suc (y_leaked y)\<rparr>)"
| st_stop: "sched_step M P y (y\<lparr>y_s := StopFlag (y_s y), y_pc := signal_loop (y_pc y)\<rparr>)"
| st_adjust: "c_kind (y_ctl y) = ControllerAdaptive \<Longrightarrow>
    sched_step M P y (set_ctl (fst (adjust M now (y_ctl y))) y)"

definition sched_init :: "QueueConfig \<Rightarrow> Controller \<Rightarrow> ssys" where
  "sched_init cfg c = \<lparr>y_s = NewScheduler cfg c, y_pc = LAcquire, y_granted = [], y_running = [],
     y_leaked = 0, y_accepted = []\<rparr>"

definition sched_reachable :: "mathlib \<Rightarrow> (f64 \<Rightarrow> bool) \<Rightarrow> QueueConfig \<Rightarrow> Controller \<Rightarrow> ssys \<Rightarrow> bool" where
  "sched_reachable M P cfg c y \<longleftrightarrow> (sched_step M P)\<^sup>*\<^sup>* (sched_init cfg c) y"

inductive_cases sched_stepE: "sched_step M P y y'"


section \<open>The operations, case by case\<close>

lemma Enqueue_SomeD:
  assumes "Enqueue score s = ((Some t, r), s')"
  shows "r = RejectNone \<and> t = \<lparr>t_Score = score, t_seq = s_seq s + 1, t_index = 0\<rparr>
    \<and> s' = s\<lparr>s_seq := s_seq s + 1, s_pq := pq_Push t (s_pq s)\<rparr>
    \<and> (0 < qc_MaxSize (s_cfg s) \<longrightarrow> int (length (s_pq s)) < qc_MaxSize (s_cfg s))"
  using assms by (auto simp: Enqueue_def Let_def split: if_splits)

lemma waitPopHead_cases:
  "waitPopHead s = PopWait \<longleftrightarrow> s_pq s = [] \<and> \<not> s_stopped s"
  "waitPopHead s = PopStopped \<longleftrightarrow> s_pq s = [] \<and> s_stopped s"
  "waitPopHead s = PopTicket t s' \<longleftrightarrow> (\<exists>h. pq_Pop (s_pq s) = Some (t, h) \<and> s' = s\<lparr>s_pq := h\<rparr>)"
  by (auto simp: waitPopHead_def pq_Pop_None split: option.splits if_splits)
    (simp add: pq_Pop_def heap_pop_def)+

lemma set_ctl_simps [simp]:
  "s_pq (y_s (set_ctl c y)) = s_pq (y_s y)" "s_seq (y_s (set_ctl c y)) = s_seq (y_s y)"
  "s_cfg (y_s (set_ctl c y)) = s_cfg (y_s y)" "s_stopped (y_s (set_ctl c y)) = s_stopped (y_s y)"
  "y_ctl (set_ctl c y) = c" "y_pc (set_ctl c y) = y_pc y" "y_granted (set_ctl c y) = y_granted y"
  "y_running (set_ctl c y) = y_running y" "y_leaked (set_ctl c y) = y_leaked y"
  "y_accepted (set_ctl c y) = y_accepted y"
  by (simp_all add: set_ctl_def)

lemma StopFlag_simps [simp]:
  "s_pq (StopFlag s) = s_pq s" "s_seq (StopFlag s) = s_seq s" "s_cfg (StopFlag s) = s_cfg s"
  "s_controller (StopFlag s) = s_controller s" "s_stopped (StopFlag s)"
  by (simp_all add: StopFlag_def)

lemma sched_invariant:
  assumes "sched_reachable M P cfg c y" "I (sched_init cfg c)"
    "\<And>y y'. sched_step M P y y' \<Longrightarrow> I y \<Longrightarrow> I y'"
  shows "I y"
  using assms(1) unfolding sched_reachable_def
  by (induction rule: rtranclp_induct) (auto intro: assms(2,3))

section \<open>Invariants\<close>

lemma length_remove1_int: "n \<in> set xs \<Longrightarrow> int (length (remove1 n xs)) = int (length xs) - 1"
  using length_remove1_Suc [of n xs] by linarith

fun held :: "loop_pc \<Rightarrow> int" where
  "held LAcquire = 0"
| "held LDone = 0"
| "held pc = 1"

fun closing :: "loop_pc \<Rightarrow> Ticket list" where
  "closing (LClose t) = [t]"
| "closing pc = []"

lemma signal_loop_simps [simp]:
  "held (signal_loop pc) = held pc" "closing (signal_loop pc) = closing pc"
  "signal_loop pc \<noteq> LBlocked" "signal_loop pc = LDone \<longleftrightarrow> pc = LDone"
  "signal_loop pc = LReleaseUnused \<longleftrightarrow> pc = LReleaseUnused"
  by (simp_all add: signal_loop_def)

lemma held_range: "0 \<le> held pc" "held pc \<le> 1"
  by (cases pc; simp)+

text \<open>Every unit of capacity is accounted for.\<close>

definition cap_inv :: "int \<Rightarrow> ssys \<Rightarrow> bool" where
  "cap_inv B y \<longleftrightarrow> limits_within B (y_ctl y) \<and> c_inFlight (y_ctl y) \<le> B
     \<and> c_inFlight (y_ctl y) = int (length (y_running y)) + int (y_leaked y) + held (y_pc y)"

lemma cap_inv_step:
  assumes "sched_step M P y y'" "cap_inv B y"
  shows "cap_inv B y'"
  using assms(1)
proof cases
  case (st_enqueue score t r s)
  then show ?thesis using assms(2) Enqueue_SomeD [OF st_enqueue(3)] by (simp add: cap_inv_def)
next
  case (st_acquire c)
  have "c_limit (y_ctl y) \<le> B" using assms(2) by (simp add: cap_inv_def limits_within_def)
  with st_acquire show ?thesis
    using assms(2) Acquire_1 [of B "y_ctl y"] limits_within_frame [of B "y_ctl y" c]
    by (auto simp: cap_inv_def split: if_splits)
next
  case st_release_unused
  then have "wrap64 (c_inFlight (y_ctl y) - 1) = c_inFlight (y_ctl y) - 1"
    using assms(2) by (intro wrap64_id) (auto simp: cap_inv_def limits_within_def in_int64_def)
  then show ?thesis
    using assms(2) st_release_unused limits_within_frame [of B "y_ctl y" "fst (ReleaseUnused 1 (y_ctl y))"]
    by (simp add: cap_inv_def)
next
  case (st_finish n latency status timedOut)
  then have len: "0 < length (y_running y)" by (cases "y_running y") auto
  then have "wrap64 (c_inFlight (y_ctl y) - 1) = c_inFlight (y_ctl y) - 1"
    using assms(2) held_range [of "y_pc y"]
    by (intro wrap64_id) (auto simp: cap_inv_def limits_within_def in_int64_def)
  then show ?thesis
    using assms(2) st_finish len
      limits_within_frame [of B "y_ctl y" "fst (Release M 1 latency status timedOut (y_ctl y))"]
    by (simp add: cap_inv_def length_remove1_int)
next
  case (st_panic n)
  then have "0 < length (y_running y)" by (cases "y_running y") auto
  then show ?thesis using assms(2) st_panic by (simp add: cap_inv_def length_remove1_int)
next
  case (st_adjust now)
  then show ?thesis using assms(2) limits_within_adjust(1) [of B "y_ctl y" M now] by (simp add: cap_inv_def)
qed (use assms(2) in \<open>auto simp: cap_inv_def waitPopHead_cases\<close>)

text \<open>Every accepted ticket is in exactly one place, under its own number.\<close>

definition queue_inv :: "ssys \<Rightarrow> bool" where
  "queue_inv y \<longleftrightarrow> pq_ok (s_pq (y_s y))
     \<and> s_seq (y_s y) = of_nat (length (y_accepted y))
     \<and> map t_seq (y_accepted y) = map of_nat [1..<Suc (length (y_accepted y))]
     \<and> pq_keys (s_pq (y_s y)) + mset (map key (y_granted y @ closing (y_pc y))) = mset (map key (y_accepted y))"

lemma queue_inv_step:
  assumes "sched_step M (\<lambda>x. x \<noteq> NaN) y y'" "queue_inv y"
  shows "queue_inv y'"
  using assms(1)
proof cases
  case (st_enqueue score t r s)
  note e = Enqueue_SomeD [OF st_enqueue(3)]
  have "score_ok t" using e st_enqueue(2) by (simp add: score_ok_def)
  then show ?thesis
    using assms(2) st_enqueue e by (simp add: queue_inv_def pq_Push_ok pq_Push_keys)
next
  case (st_pop t s)
  then obtain h where h: "pq_Pop (s_pq (y_s y)) = Some (t, h)" "s = (y_s y)\<lparr>s_pq := h\<rparr>"
    by (auto simp: waitPopHead_cases)
  then show ?thesis
    using assms(2) st_pop pq_Pop_ok [of "s_pq (y_s y)" t h] pq_Pop_keys [of "s_pq (y_s y)" t h] by (simp add: queue_inv_def)
qed (use assms(2) in \<open>auto simp: queue_inv_def waitPopHead_cases\<close>)

text \<open>The loop sleeps only when there is nothing to do, and the bound on the depth holds.\<close>

definition loop_inv :: "QueueConfig \<Rightarrow> ssys \<Rightarrow> bool" where
  "loop_inv cfg y \<longleftrightarrow> s_cfg (y_s y) = cfg
     \<and> (y_pc y = LBlocked \<longrightarrow> s_pq (y_s y) = [] \<and> \<not> s_stopped (y_s y))
     \<and> (y_pc y \<in> {LReleaseUnused, LDone} \<longrightarrow> s_stopped (y_s y))"

lemma loop_inv_step:
  assumes "sched_step M P y y'" "loop_inv cfg y"
  shows "loop_inv cfg y'"
  using assms(1)
proof cases
  case (st_enqueue score t r s)
  then show ?thesis using assms(2) Enqueue_SomeD [OF st_enqueue(3)] by (simp add: loop_inv_def)
next
  case (st_pop t s)
  then show ?thesis using assms(2) by (auto simp: loop_inv_def waitPopHead_cases)
qed (use assms(2) in \<open>simp_all add: loop_inv_def waitPopHead_cases\<close>)


section \<open>Order of service\<close>

text \<open>Of two tickets with equal scores the first in arrival order comes first.\<close>

definition fifo :: "64 word \<times> f64 \<Rightarrow> 64 word \<times> f64 \<Rightarrow> bool" where
  "fifo k k' \<longleftrightarrow> (snd k = snd k' \<longrightarrow> fst k < fst k')"

definition fifo_inv :: "ssys \<Rightarrow> bool" where
  "fifo_inv y \<longleftrightarrow> (length (y_accepted y) < 2 ^ 64 \<longrightarrow>
     (let gs = map key (y_granted y @ closing (y_pc y)) in
      sorted_wrt fifo gs \<and> (\<forall>k \<in> set gs. \<forall>k' \<in># pq_keys (s_pq (y_s y)). fifo k k')))"

lemma unat_of_nat_small: "n < 2 ^ 64 \<Longrightarrow> unat (of_nat n :: 64 word) = n"
  by (simp add: unat_of_nat take_bit_nat_eq_self)

lemma accepted_seqs:
  assumes "map t_seq ts = map of_nat [1..<Suc (length ts)]" "length ts < 2 ^ 64"
  shows "distinct (map t_seq ts)" "t \<in> set ts \<Longrightarrow> unat (t_seq t) \<le> length ts"
proof -
  have inj: "inj_on (of_nat :: nat \<Rightarrow> 64 word) {1..<Suc (length ts)}"
    using assms(2) by (intro inj_onI) (metis atLeastLessThan_iff less_Suc_eq_le order_le_less_trans unat_of_nat_small)
  show "distinct (map t_seq ts)"
    unfolding assms(1) by (simp only: distinct_map distinct_upt set_upt inj simp_thms)
  show "unat (t_seq t) \<le> length ts" if "t \<in> set ts"
  proof -
    have "t_seq t \<in> set (map of_nat [1..<Suc (length ts)])" using that unfolding assms(1) [symmetric] by simp
    then obtain i where "t_seq t = of_nat i" "i \<le> length ts" by auto
    then show ?thesis using assms(2) by (simp add: unat_of_nat_small)
  qed
qed

lemma queue_inv_keys:
  assumes "queue_inv y" "length (y_accepted y) < 2 ^ 64"
  shows "k \<in> set (map key (y_granted y @ closing (y_pc y))) \<Longrightarrow> unat (fst k) \<le> length (y_accepted y)"
    and "pq_keys (s_pq (y_s y)) = add_mset k (add_mset k' N) \<Longrightarrow> fst k \<noteq> fst k'"
proof -
  have eq: "pq_keys (s_pq (y_s y)) + mset (map key (y_granted y @ closing (y_pc y))) = mset (map key (y_accepted y))"
    and acc: "map t_seq (y_accepted y) = map of_nat [1..<Suc (length (y_accepted y))]"
    using assms(1) by (simp_all add: queue_inv_def)
  show "unat (fst k) \<le> length (y_accepted y)" if "k \<in> set (map key (y_granted y @ closing (y_pc y)))"
  proof -
    have "k \<in># mset (map key (y_accepted y))" using that unfolding eq [symmetric] by simp
    then obtain t where "t \<in> set (y_accepted y)" "k = key t" by auto
    then show ?thesis using accepted_seqs(2) [OF acc assms(2)] by (simp add: key_def)
  qed
  show "fst k \<noteq> fst k'" if "pq_keys (s_pq (y_s y)) = add_mset k (add_mset k' N)"
  proof -
    obtain ks where "mset ks = N + mset (map key (y_granted y @ closing (y_pc y)))" using ex_mset by blast
    then have "mset (map key (y_accepted y)) = mset (k # k' # ks)" using eq that by simp
    then have "image_mset fst (mset (map key (y_accepted y))) = image_mset fst (mset (k # k' # ks))" by simp
    then have "mset (map t_seq (y_accepted y)) = mset (map fst (k # k' # ks))"
      by (simp add: key_def multiset.map_comp comp_def)
    then have "distinct (map fst (k # k' # ks))"
      using accepted_seqs(1) [OF acc assms(2)] mset_eq_imp_distinct_iff by blast
    then show ?thesis by simp
  qed
qed

lemma fifo_best:
  assumes "pq_ok q" "pq_Pop q = Some (t, h)" "\<And>k' N. pq_keys q = add_mset (key t) (add_mset k' N) \<Longrightarrow> fst (key t) \<noteq> fst k'"
    "k' \<in># pq_keys h"
  shows "fifo (key t) k'"
proof -
  obtain u where u: "u \<in> set h" "k' = key u" using assms(4) by (auto simp: pq_keys_set)
  have ok: "score_ok u" using pq_ok_score [OF pq_Pop_ok [OF assms(1,2)] u(1)] .
  obtain v where "v \<in> set q" "key v = key t"
    using pq_Pop_keys [OF assms(1,2)] pq_keys_set [of q] by (metis imageE union_single_eq_member)
  then have "score_ok t" using pq_ok_score [OF assms(1), of v] by (simp add: key_def score_ok_def)
  then have "\<not> t_Score t < t_Score u" "t_Score t = t_Score u \<Longrightarrow> t_seq t \<le> t_seq u"
    using pq_Pop_best [OF assms(1,2) u(1)] ok by (auto simp: ticket_less_iff)
  moreover have "t_seq t \<noteq> t_seq u"
  proof -
    obtain N where "pq_keys h = add_mset k' N" using assms(4) by (meson mset_add)
    then show ?thesis using assms(3) [of k' N] pq_Pop_keys [OF assms(1,2)] u by (simp add: key_def)
  qed
  ultimately show ?thesis by (auto simp: fifo_def key_def u)
qed

lemma fifo_inv_step:
  assumes "sched_step M (\<lambda>x. x \<noteq> NaN) y y'" "queue_inv y" "fifo_inv y"
  shows "fifo_inv y'"
  using assms(1)
proof cases
  case (st_enqueue score t r s)
  note e = Enqueue_SomeD [OF st_enqueue(3)]
  show ?thesis
    unfolding fifo_inv_def Let_def
  proof (intro impI)
    assume len: "length (y_accepted y') < 2 ^ 64"
    then have lens: "length (y_accepted y) < 2 ^ 64" "length (y_accepted y) + 1 < 2 ^ 64" using st_enqueue by simp_all
    let ?gs = "map key (y_granted y @ closing (y_pc y))"
    have "fst k < t_seq t" if "k \<in> set ?gs" for k
    proof -
      have "unat (t_seq t) = length (y_accepted y) + 1"
        using assms(2) e lens unat_of_nat_small [of "Suc (length (y_accepted y))"] by (simp add: queue_inv_def add.commute)
      then show ?thesis
        using queue_inv_keys(1) [OF assms(2) lens(1) that] by (simp add: word_less_nat_alt)
    qed
    then have "\<forall>k \<in> set ?gs. fifo k (key t)" by (simp add: fifo_def key_def)
    moreover have "score_ok t" "pq_ok (s_pq (y_s y))" using e st_enqueue(2) assms(2) by (simp_all add: score_ok_def queue_inv_def)
    ultimately show "sorted_wrt fifo (map key (y_granted y' @ closing (y_pc y'))) \<and>
        (\<forall>k \<in> set (map key (y_granted y' @ closing (y_pc y'))). \<forall>k' \<in># pq_keys (s_pq (y_s y')). fifo k k')"
      using assms(3) st_enqueue e lens(1) by (auto simp: fifo_inv_def Let_def pq_Push_keys)
  qed
next
  case (st_pop t s)
  then obtain h where h: "pq_Pop (s_pq (y_s y)) = Some (t, h)" "s = (y_s y)\<lparr>s_pq := h\<rparr>"
    by (auto simp: waitPopHead_cases)
  have ok: "pq_ok (s_pq (y_s y))" using assms(2) by (simp add: queue_inv_def)
  have best: "fifo (key t) k'" if "length (y_accepted y) < 2 ^ 64" "k' \<in># pq_keys h" for k'
    using fifo_best [OF ok h(1) queue_inv_keys(2) [OF assms(2) that(1)] that(2)] .
  show ?thesis
    using assms(3) st_pop h best pq_Pop_keys [OF ok h(1)]
    by (auto simp: fifo_inv_def Let_def sorted_wrt_append)
qed (use assms(3) in \<open>simp_all add: fifo_inv_def Let_def waitPopHead_cases\<close>)


section \<open>Reachable states\<close>

lemma cap_inv_reachable:
  assumes "sched_reachable M P cfg c y" "limits_within B c" "c_inFlight c = 0"
  shows "cap_inv B y"
  using assms(1)
proof (rule sched_invariant)
  show "cap_inv B (sched_init cfg c)"
    using assms(2,3) by (simp add: cap_inv_def sched_init_def NewScheduler_def limits_within_def)
qed (rule cap_inv_step)

lemma loop_inv_reachable: "sched_reachable M P cfg c y \<Longrightarrow> loop_inv cfg y"
proof (erule sched_invariant)
  show "loop_inv cfg (sched_init cfg c)" by (simp add: loop_inv_def sched_init_def NewScheduler_def)
qed (rule loop_inv_step)

lemma order_inv_reachable:
  assumes "sched_reachable M (\<lambda>x. x \<noteq> NaN) cfg c y"
  shows "queue_inv y \<and> fifo_inv y"
  using assms
proof (rule sched_invariant)
  show "queue_inv (sched_init cfg c) \<and> fifo_inv (sched_init cfg c)"
    by (simp add: queue_inv_def fifo_inv_def sched_init_def NewScheduler_def pq_keys_def Let_def)
qed (auto intro: queue_inv_step fifo_inv_step)

text \<open>The configured depth is never exceeded, because only \<open>Enqueue\<close> lengthens the queue.\<close>

lemma pq_Push_length: "pq_ok q \<Longrightarrow> score_ok t \<Longrightarrow> length (pq_Push t q) = Suc (length q)"
  using pq_Push_keys [of q t] by (metis size_add_mset size_pq_keys)

definition depth_inv :: "ssys \<Rightarrow> bool" where
  "depth_inv y \<longleftrightarrow> (0 < qc_MaxSize (s_cfg (y_s y)) \<longrightarrow> Depth (y_s y) \<le> qc_MaxSize (s_cfg (y_s y)))"

lemma depth_inv_step:
  assumes "sched_step M (\<lambda>x. x \<noteq> NaN) y y'" "queue_inv y" "depth_inv y"
  shows "depth_inv y'"
  using assms(1)
proof cases
  case (st_enqueue score t r s)
  note e = Enqueue_SomeD [OF st_enqueue(3)]
  have "length (pq_Push t (s_pq (y_s y))) = Suc (length (s_pq (y_s y)))"
    using e st_enqueue(2) assms(2) by (intro pq_Push_length) (simp_all add: score_ok_def queue_inv_def)
  then have "int (length (s_pq s)) = int (length (s_pq (y_s y))) + 1" using e by simp
  moreover have "s_cfg s = s_cfg (y_s y)" using e by simp
  ultimately show ?thesis using st_enqueue(1) e by (auto simp: depth_inv_def Depth_def)
next
  case (st_pop t s)
  then obtain h where h: "pq_Pop (s_pq (y_s y)) = Some (t, h)" "s = (y_s y)\<lparr>s_pq := h\<rparr>"
    by (auto simp: waitPopHead_cases)
  then show ?thesis
    using st_pop assms(2,3) pq_Pop_length [of "s_pq (y_s y)" t h] by (auto simp: depth_inv_def Depth_def queue_inv_def)
qed (use assms(3) in \<open>simp_all add: depth_inv_def Depth_def\<close>)

lemma depth_inv_reachable:
  assumes "sched_reachable M (\<lambda>x. x \<noteq> NaN) cfg c y"
  shows "depth_inv y"
proof -
  have "queue_inv y \<and> depth_inv y"
    using assms
  proof (rule sched_invariant)
    show "queue_inv (sched_init cfg c) \<and> depth_inv (sched_init cfg c)"
      by (simp add: queue_inv_def depth_inv_def sched_init_def NewScheduler_def pq_keys_def Depth_def)
  qed (auto intro: queue_inv_step depth_inv_step)
  then show ?thesis by simp
qed

section \<open>Executing the system\<close>

text \<open>A deterministic driver for concrete runs: every action it takes is a step.\<close>

datatype act = AEnqueue f64 | ALoop | AFinish "64 word" duration go_int bool | APanic "64 word" | AStop

fun loop_act :: "ssys \<Rightarrow> ssys option" where
  "loop_act y = (case y_pc y of
      LAcquire \<Rightarrow> (case Acquire 1 (y_ctl y) of None \<Rightarrow> None | Some c \<Rightarrow> Some ((set_ctl c y)\<lparr>y_pc := LWait\<rparr>))
    | LWait \<Rightarrow> (case waitPopHead (y_s y) of
          PopWait \<Rightarrow> Some (y\<lparr>y_pc := LBlocked\<rparr>)
        | PopStopped \<Rightarrow> Some (y\<lparr>y_pc := LReleaseUnused\<rparr>)
        | PopTicket t s \<Rightarrow> Some (y\<lparr>y_s := s, y_pc := LClose t\<rparr>))
    | LClose t \<Rightarrow> Some (y\<lparr>y_pc := LAcquire, y_granted := y_granted y @ [t], y_running := y_running y @ [t_seq t]\<rparr>)
    | LReleaseUnused \<Rightarrow> Some ((set_ctl (fst (ReleaseUnused 1 (y_ctl y))) y)\<lparr>y_pc := LDone\<rparr>)
    | LBlocked \<Rightarrow> None
    | LDone \<Rightarrow> None)"

fun exec_act :: "mathlib \<Rightarrow> act \<Rightarrow> ssys \<Rightarrow> ssys option" where
  "exec_act M (AEnqueue score) y = (case Enqueue score (y_s y) of
      ((Some t, r), s) \<Rightarrow> Some (y\<lparr>y_s := s, y_pc := signal_loop (y_pc y), y_accepted := y_accepted y @ [t]\<rparr>)
    | ((None, r), s) \<Rightarrow> None)"
| "exec_act M ALoop y = loop_act y"
| "exec_act M (AFinish n l st t) y = (if n \<in> set (y_running y)
     then Some ((set_ctl (fst (Release M 1 l st t (y_ctl y))) y)\<lparr>y_running := remove1 n (y_running y)\<rparr>) else None)"
| "exec_act M (APanic n) y = (if n \<in> set (y_running y)
     then Some (y\<lparr>y_running := remove1 n (y_running y), y_leaked := Suc (y_leaked y)\<rparr>) else None)"
| "exec_act M AStop y = Some (y\<lparr>y_s := StopFlag (y_s y), y_pc := signal_loop (y_pc y)\<rparr>)"

fun exec_acts :: "mathlib \<Rightarrow> act list \<Rightarrow> ssys \<Rightarrow> ssys option" where
  "exec_acts M [] y = Some y"
| "exec_acts M (a # as) y = (case exec_act M a y of None \<Rightarrow> None | Some y' \<Rightarrow> exec_acts M as y')"

text \<open>Moves of the loop alone, and the ticket it grants next.\<close>

fun loop_run :: "nat \<Rightarrow> ssys \<Rightarrow> ssys option" where
  "loop_run 0 y = Some y"
| "loop_run (Suc n) y = (case loop_act y of None \<Rightarrow> None | Some z \<Rightarrow> loop_run n z)"

definition next_grant :: "ssys \<Rightarrow> Ticket option" where
  "next_grant y = (case y_pc y of LClose t \<Rightarrow> Some t | _ \<Rightarrow> map_option fst (pq_Pop (s_pq (y_s y))))"

lemma loop_act_step: "loop_act y = Some y' \<Longrightarrow> sched_step M P y y'"
  by (auto split: loop_pc.splits option.splits pop_result.splits intro: sched_step.intros)

definition act_ok :: "(f64 \<Rightarrow> bool) \<Rightarrow> act \<Rightarrow> bool" where
  "act_ok P a = (case a of AEnqueue x \<Rightarrow> P x | _ \<Rightarrow> True)"

lemma exec_act_step: "exec_act M a y = Some y' \<Longrightarrow> act_ok P a \<Longrightarrow> sched_step M P y y'"
  by (cases a)
    (auto simp: act_ok_def simp del: loop_act.simps split: prod.splits option.splits if_splits
      intro: loop_act_step st_enqueue st_finish st_panic st_stop)

lemma exec_acts_steps: "exec_acts M as y = Some y' \<Longrightarrow> list_all (act_ok P) as \<Longrightarrow> (sched_step M P)\<^sup>*\<^sup>* y y'"
proof (induction as arbitrary: y)
  case (Cons a as)
  then obtain z where "exec_act M a y = Some z" "exec_acts M as z = Some y'" by (auto split: option.splits)
  then show ?case
    using Cons exec_act_step [of M a y z P] by (auto intro: converse_rtranclp_into_rtranclp)
qed simp

lemma exec_reachable:
  "exec_acts M as (sched_init cfg c) = Some y \<Longrightarrow> list_all (act_ok P) as \<Longrightarrow> sched_reachable M P cfg c y"
  by (simp add: sched_reachable_def exec_acts_steps)


section \<open>Little's law\<close>

text \<open>The floating-point quotient of two exact integers lies between the integers around the real one.\<close>

lemma float_quotient:
  assumes "0 \<le> a" "a \<le> 2 ^ 53" "1 \<le> b" "b \<le> 2 ^ 53"
  shows "k * b \<le> a \<Longrightarrow> k \<le> int_of_f64 (fdiv (f64_of_int a) (f64_of_int b))"
    and "a \<le> k * b \<Longrightarrow> int_of_f64 (fdiv (f64_of_int a) (f64_of_int b)) \<le> k"
proof -
  let ?q = "of_int a / of_int b :: rat"
  have b: "0 < (of_int b :: rat)" using assms by simp
  have ab: "f64_of_int a = Fin (of_int a)" "f64_of_int b = Fin (of_int b)"
    using assms by (simp_all add: f64_of_int_exact)
  have le_iff: "of_int n \<le> ?q \<longleftrightarrow> n * b \<le> a" "?q \<le> of_int n \<longleftrightarrow> a \<le> n * b" for n
    using b by (simp_all add: le_divide_eq divide_le_eq) (metis of_int_le_iff of_int_mult)+
  have small: "n \<le> a" if "n * b \<le> a" for n
  proof (cases "0 \<le> n")
    case True
    then have "n * 1 \<le> n * b" using assms(3) by (intro mult_left_mono) auto
    then show ?thesis using that by simp
  qed (use assms in simp)
  have up: "rnd ?q \<le> Fin (of_int n)" if "a \<le> n * b" "0 \<le> n" "n \<le> 2 ^ 53" for n
    using rnd_mono [of ?q "of_int n"] that le_iff rnd_of_int [of n] by simp
  have down: "Fin (of_int n) \<le> rnd ?q" if "n * b \<le> a" "0 \<le> n" for n
    using rnd_mono [of "of_int n" ?q] that le_iff rnd_of_int [of n] small [OF that(1)] assms by simp
  have "a \<le> a * b" using assms mult_left_mono [of 1 b a] by simp
  then have "rnd ?q \<le> Fin (of_int a)" using up assms by simp
  moreover have "Fin 0 \<le> rnd ?q" using down [of 0] assms by simp
  ultimately obtain v where v: "rnd ?q = Fin v" "0 \<le> v" "v \<le> of_int a" by (cases "rnd ?q") auto
  have "0 \<le> \<lfloor>v\<rfloor>" "\<lfloor>v\<rfloor> \<le> a" using v by (simp, simp add: floor_le_iff)
  moreover have "in_int64 n" if "0 \<le> n" "n \<le> a" for n using that assms(2) by (simp add: in_int64_def)
  ultimately have "in_int64 \<lfloor>v\<rfloor>" by blast
  then have p: "int_of_f64 (fdiv (f64_of_int a) (f64_of_int b)) = \<lfloor>v\<rfloor>" using v assms by (simp add: ab)
  show "k \<le> int_of_f64 (fdiv (f64_of_int a) (f64_of_int b))" if "k * b \<le> a"
  proof (cases "0 \<le> k")
    case True
    then show ?thesis using down [OF that] v p by (simp add: le_floor_iff)
  qed (use p \<open>0 \<le> \<lfloor>v\<rfloor>\<close> in linarith)
  show "int_of_f64 (fdiv (f64_of_int a) (f64_of_int b)) \<le> k" if "a \<le> k * b"
  proof (cases "k \<le> a")
    case True
    have "0 \<le> k" using that assms by (metis mult_less_0_iff not_less order_trans zero_less_one order_less_le_trans)
    then have "v \<le> of_int k" using up [OF that] True assms v by simp
    then show ?thesis using p by (simp add: floor_le_iff)
  qed (use p \<open>\<lfloor>v\<rfloor> \<le> a\<close> in linarith)
qed

section \<open>A concrete run\<close>

text \<open>
  Three units of capacity; scores 1, 5, 1, 5 arrive; two tickets are granted and the loop holds
  its lookahead unit.
\<close>

definition demo_cfg :: QueueConfig where
  "demo_cfg = \<lparr>qc_MaxSize = 4, qc_WaitTimeout = 1000\<rparr>"

definition demo_acts :: "act list" where
  "demo_acts = map AEnqueue [Fin 1, Fin 5, Fin 1, Fin 5] @ replicate 7 ALoop"

definition demo_y :: ssys where
  "demo_y = the (exec_acts log2lib demo_acts (sched_init demo_cfg (NewFixedController 3)))"

lemma demo_y_exec: "exec_acts log2lib demo_acts (sched_init demo_cfg (NewFixedController 3)) = Some demo_y"
proof -
  have "exec_acts log2lib demo_acts (sched_init demo_cfg (NewFixedController 3)) \<noteq> None" by code_simp
  then show ?thesis by (auto simp: demo_y_def)
qed

lemma demo_y_reachable: "sched_reachable log2lib (\<lambda>x. x \<noteq> NaN) demo_cfg (NewFixedController 3) demo_y"
  by (rule exec_reachable [OF demo_y_exec]) (simp add: demo_acts_def act_ok_def numeral_eq_Suc)

lemma demo_y_facts:
  "map t_seq (y_granted demo_y) = [2, 4]" "length (y_accepted demo_y) = 4" "y_pc demo_y = LWait"
  "map t_seq (s_pq (y_s demo_y)) = [1, 3]" "y_running demo_y = [2, 4]" "y_leaked demo_y = 0" "Depth (y_s demo_y) = 2"
  "c_limit (y_ctl demo_y) = 3" "s_stopped (y_s demo_y) = False"
  by code_simp+

section \<open>Properties\<close>

text \<open>
  no ticket is lost, granted twice or granted unasked: at every moment the tickets still
  queued, the one being granted and the ones granted are together exactly the tickets
  \<open>Enqueue\<close> has returned, and their arrival numbers are distinct as long as fewer than 2 to
  the 64 were issued.
\<close>

theorem every_ticket_accounted_for:
  assumes "sched_reachable M (\<lambda>x. x \<noteq> NaN) cfg c y"
  shows "pq_keys (s_pq (y_s y)) + mset (map key (closing (y_pc y))) + mset (map key (y_granted y))
      = mset (map key (y_accepted y))
    \<and> (length (y_accepted y) < 2 ^ 64 \<longrightarrow> distinct (map t_seq (y_accepted y)))"
  using order_inv_reachable [OF assms] accepted_seqs(1) [of "y_accepted y"]
  by (auto simp: queue_inv_def ac_simps)

theorem every_ticket_accounted_for_witness:
  "map t_seq (y_granted demo_y) = [2, 4] \<and> distinct (map t_seq (y_accepted demo_y))
    \<and> pq_keys (s_pq (y_s demo_y)) + mset (map key (closing (y_pc demo_y))) + mset (map key (y_granted demo_y))
      = mset (map key (y_accepted demo_y))"
  using every_ticket_accounted_for [OF demo_y_reachable] demo_y_facts by simp

text \<open>
  tickets with equal scores are granted in arrival order: in the sequence of grants, and
  between a granted ticket and one still queued.
\<close>

theorem equal_scores_served_in_arrival_order:
  assumes "sched_reachable M (\<lambda>x. x \<noteq> NaN) cfg c y" "length (y_accepted y) < 2 ^ 64"
  shows "sorted_wrt (\<lambda>t u. t_Score t = t_Score u \<longrightarrow> t_seq t < t_seq u) (y_granted y)
    \<and> (\<forall>t \<in> set (y_granted y). \<forall>u \<in> set (s_pq (y_s y)). t_Score t = t_Score u \<longrightarrow> t_seq t < t_seq u)"
proof -
  have "fifo_inv y" using order_inv_reachable [OF assms(1)] by simp
  then have s: "sorted_wrt fifo (map key (y_granted y))"
    "\<And>t u. t \<in> set (y_granted y) \<Longrightarrow> u \<in> set (s_pq (y_s y)) \<Longrightarrow> fifo (key t) (key u)"
    using assms(2) by (auto simp: fifo_inv_def Let_def sorted_wrt_append pq_keys_set)
  show ?thesis using s(1) s(2) by (auto simp: sorted_wrt_map fifo_def key_def)
qed

theorem equal_scores_served_in_arrival_order_witness:
  "map t_seq (y_granted demo_y) = [2, 4]
    \<and> sorted_wrt (\<lambda>t u. t_Score t = t_Score u \<longrightarrow> t_seq t < t_seq u) (y_granted demo_y)"
  using equal_scores_served_in_arrival_order [OF demo_y_reachable] demo_y_facts by simp

text \<open>
  capacity is spent on the most deserving ticket of the moment: whatever ticket the loop
  takes from the queue has a higher score than every ticket it leaves there, or the same
  score and an earlier arrival.
\<close>

theorem popped_ticket_outranks_queue:
  assumes "sched_reachable M (\<lambda>x. x \<noteq> NaN) cfg c y" "length (y_accepted y) < 2 ^ 64"
    "waitPopHead (y_s y) = PopTicket t s" "u \<in> set (s_pq s)"
  shows "t_Score u < t_Score t \<or> (t_Score t = t_Score u \<and> t_seq t < t_seq u)"
proof -
  have q: "queue_inv y" using order_inv_reachable [OF assms(1)] by simp
  then have ok: "pq_ok (s_pq (y_s y))" by (simp add: queue_inv_def)
  obtain h where h: "pq_Pop (s_pq (y_s y)) = Some (t, h)" "s = (y_s y)\<lparr>s_pq := h\<rparr>"
    using assms(3) by (auto simp: waitPopHead_cases)
  have "key u \<in># pq_keys h" using assms(4) h by (simp add: pq_keys_set)
  then have "fifo (key t) (key u)"
    by (intro fifo_best [OF ok h(1)]) (use queue_inv_keys(2) [OF q assms(2)] in blast)+
  moreover have "\<not> t_Score t < t_Score u"
  proof -
    have "score_ok u" using pq_ok_score [OF pq_Pop_ok [OF ok h(1)]] assms(4) h by simp
    then show ?thesis
      using pq_Pop_best [OF ok h(1), of u] assms(4) h
      by (auto simp: ticket_less_def flt_def feq_def score_ok_def split: if_splits)
  qed
  ultimately show ?thesis by (auto simp: fifo_def key_def)
qed


theorem popped_ticket_outranks_queue_witness:
  "\<exists>t s u. waitPopHead (y_s demo_y) = PopTicket t s \<and> u \<in> set (s_pq s)
    \<and> (t_Score u < t_Score t \<or> (t_Score t = t_Score u \<and> t_seq t < t_seq u))"
proof -
  have "(case waitPopHead (y_s demo_y) of PopTicket t s \<Rightarrow> s_pq s \<noteq> [] | _ \<Rightarrow> False)" by code_simp
  then obtain t s where "waitPopHead (y_s demo_y) = PopTicket t s" "s_pq s \<noteq> []"
    by (auto split: pop_result.splits)
  moreover from this obtain u where "u \<in> set (s_pq s)" by (cases "s_pq s") auto
  ultimately show ?thesis
    using popped_ticket_outranks_queue [OF demo_y_reachable, of t s u] demo_y_facts by auto
qed

text \<open>
  capacity is conserved: the controller's in-flight count is the number of granted requests
  that have not released, plus the units lost to panics, plus the one lookahead unit of the
  loop; it never exceeds the largest limit, so neither does the number of requests that run.
\<close>

theorem capacity_is_accounted_for:
  assumes "sched_reachable M P cfg c y" "limits_within B c" "c_inFlight c = 0"
  shows "c_inFlight (y_ctl y) = int (length (y_running y)) + int (y_leaked y) + held (y_pc y)
    \<and> int (length (y_running y)) \<le> B"
  using cap_inv_reachable [OF assms] held_range [of "y_pc y"] by (auto simp: cap_inv_def)

theorem capacity_is_accounted_for_witness:
  "c_inFlight (y_ctl demo_y) = 3 \<and> int (length (y_running demo_y)) \<le> 3"
  using capacity_is_accounted_for [OF demo_y_reachable fixed_within [of 3]] demo_y_facts
  by (auto simp: NewFixedController_def cap_inv_def)

text \<open>
  with a positive maximum the queue never holds more tickets than it allows, and a request
  that finds it at the maximum is refused with \<open>queue_full\<close> and changes nothing.
\<close>

theorem queue_depth_bounded:
  assumes "sched_reachable M (\<lambda>x. x \<noteq> NaN) cfg c y" "0 < qc_MaxSize cfg"
  shows "Depth (y_s y) \<le> qc_MaxSize cfg
    \<and> (Depth (y_s y) = qc_MaxSize cfg \<longleftrightarrow> Enqueue score (y_s y) = ((None, RejectQueueFull), y_s y))"
  using depth_inv_reachable [OF assms(1)] loop_inv_reachable [OF assms(1)] assms(2)
  by (auto simp: depth_inv_def loop_inv_def Depth_def Enqueue_def Let_def)

theorem queue_depth_bounded_witness:
  "Depth (y_s demo_y) \<le> 4 \<and> Enqueue (Fin 1) (y_s demo_y) \<noteq> ((None, RejectQueueFull), y_s demo_y)"
  using queue_depth_bounded [OF demo_y_reachable, of "Fin 1"] demo_y_facts by (simp add: demo_cfg_def)

text \<open>
  C19: the wait projection implements Little's law: with room in the queue, positive limit and
  mean latency and values below 2 to the 53, a request is refused for its projected wait when
  depth times mean latency divided by the limit is at least one nanosecond above the timeout,
  and never when the quotient is within the timeout, in spite of the floating-point rounding.
\<close>

theorem wait_projection_is_littles_law:
  assumes "0 < qc_WaitTimeout (s_cfg s)" "qc_MaxSize (s_cfg s) \<le> 0 \<or> Depth s < qc_MaxSize (s_cfg s)"
    "0 < c_limit (s_controller s)" "c_limit (s_controller s) \<le> 2 ^ 53"
    "0 < MeanLatency (s_controller s)" "Depth s * MeanLatency (s_controller s) \<le> 2 ^ 53"
  shows "(Depth s * MeanLatency (s_controller s) \<le> qc_WaitTimeout (s_cfg s) * c_limit (s_controller s)
      \<longrightarrow> snd (fst (Enqueue score s)) = RejectNone)
    \<and> ((qc_WaitTimeout (s_cfg s) + 1) * c_limit (s_controller s) \<le> Depth s * MeanLatency (s_controller s)
      \<longrightarrow> snd (fst (Enqueue score s)) = RejectQueueWaitExceeded)"
proof -
  let ?d = "Depth s" and ?m = "MeanLatency (s_controller s)" and ?l = "c_limit (s_controller s)"
    and ?T = "qc_WaitTimeout (s_cfg s)"
  let ?p = "int_of_f64 (fdiv (f64_of_int (?d * ?m)) (f64_of_int ?l))"
  have snd_fst: "snd (fst (Enqueue score s)) = (if ?T < ?p then RejectQueueWaitExceeded else RejectNone)"
  proof (cases "?d = 0")
    case True
    have "in_int64 ?m" by (simp add: MeanLatency_def meanLatency_def quot64_def in_int64_def [of 0])
    then obtain v where "f64_of_int ?m = Fin v" by (rule f64_of_int_finite)
    then have "fmul (Fin 0) (f64_of_int ?m) = Fin 0" by simp
    with True show ?thesis using assms
      by (auto simp: Enqueue_def Let_def projectedWaitLocked_def Depth_def f64_of_int_exact split: prod.splits)
  next
    case False
    then have d: "1 \<le> ?d" by (simp add: Depth_def Suc_le_eq)
    then have "?m \<le> ?d * ?m" "?d \<le> ?d * ?m"
      using assms(5) mult_right_mono [of 1 ?d ?m] mult_left_mono [of 1 ?m ?d] by simp_all
    then have "?m \<le> 2 ^ 53" "?d \<le> 2 ^ 53" using assms(6) by linarith+
    then have "fmul (f64_of_int ?d) (f64_of_int ?m) = f64_of_int (?d * ?m)"
      using d assms(5,6) by (simp add: f64_of_int_exact [of ?d] f64_of_int_exact [of ?m]) (simp add: f64_of_int_def)
    then have "projectedWaitLocked ?d s = (?p, True)" using assms(3,5) by (simp add: projectedWaitLocked_def Let_def)
    then show ?thesis using assms(1,2) by (auto simp: Enqueue_def Let_def Depth_def [symmetric])
  qed
  have nn: "0 \<le> ?d * ?m" using assms(5) by (simp add: Depth_def)
  have "1 \<le> ?l" using assms(3) by simp
  note q = float_quotient [OF nn assms(6) this assms(4)]
  show ?thesis using q(1) [of "?T + 1"] q(2) [of ?T] unfolding snd_fst by auto
qed

text \<open>Two tickets wait for a controller of limit 10 whose mean latency is 5 ms.\<close>

definition waiting_scheduler :: "duration \<Rightarrow> Scheduler" where
  "waiting_scheduler T = \<lparr>s_pq = [demo_ticket 1 1, demo_ticket 1 2], s_seq = 2,
     s_cfg = \<lparr>qc_MaxSize = 0, qc_WaitTimeout = T\<rparr>, s_controller = sample_controller, s_stopped = False\<rparr>"

theorem wait_projection_is_littles_law_witness:
  "snd (fst (Enqueue (Fin 1) (waiting_scheduler 1000000))) = RejectNone
   \<and> snd (fst (Enqueue (Fin 1) (waiting_scheduler 999999))) = RejectQueueWaitExceeded"
proof -
  have m: "MeanLatency sample_controller = 5000000" by code_simp
  have l: "c_limit sample_controller = 10" by (simp add: sample_controller_def)
  show ?thesis
    using wait_projection_is_littles_law [of "waiting_scheduler 1000000" "Fin 1"]
      wait_projection_is_littles_law [of "waiting_scheduler 999999" "Fin 1"] m l
    by (simp add: waiting_scheduler_def Depth_def)
qed

text \<open>
  C18: a queued ticket does not starve while capacity is free: as long as the loop has not
  decided to exit, and either holds a unit or can get one, at most three moves of the loop, with
  nobody else doing anything, grant the ticket it is about to grant or else the head of the queue;
  in particular the loop is never asleep over a queue that is not empty.
\<close>

theorem queued_ticket_gets_granted:
  assumes "sched_reachable M P cfg c y" "limits_within B c" "c_inFlight c = 0"
    "s_pq (y_s y) \<noteq> []" "y_pc y \<notin> {LReleaseUnused, LDone}"
    "y_pc y = LAcquire \<longrightarrow> c_inFlight (y_ctl y) < c_limit (y_ctl y)"
  shows "\<exists>n y' t. n \<le> 3 \<and> loop_run n y = Some y' \<and> next_grant y = Some t \<and> y_granted y' = y_granted y @ [t]
    \<and> y_running y' = y_running y @ [t_seq t] \<and> y_pc y' = LAcquire"
proof -
  obtain t h where p: "pq_Pop (s_pq (y_s y)) = Some (t, h)" using assms(4) pq_Pop_None [of "s_pq (y_s y)"] by fastforce
  have pop: "loop_run 2 z = Some (z\<lparr>y_s := (y_s z)\<lparr>s_pq := h\<rparr>, y_pc := LAcquire, y_granted := y_granted z @ [t],
      y_running := y_running z @ [t_seq t]\<rparr>)" if "y_pc z = LWait" "s_pq (y_s z) = s_pq (y_s y)" for z
  proof -
    have "waitPopHead (y_s z) = PopTicket t ((y_s z)\<lparr>s_pq := h\<rparr>)" using p that(2) by (simp add: waitPopHead_cases)
    then show ?thesis using that(1) by (simp add: numeral_2_eq_2)
  qed
  show ?thesis
  proof (cases "y_pc y")
    case LAcquire
    then obtain c' where c': "Acquire 1 (y_ctl y) = Some c'"
      using cap_inv_reachable [OF assms(1-3)] Acquire_1 [of B "y_ctl y"] assms(6) by (auto simp: cap_inv_def)
    have "loop_run 3 y = loop_run 2 ((set_ctl c' y)\<lparr>y_pc := LWait\<rparr>)"
      using LAcquire c' by (simp add: numeral_3_eq_3 numeral_2_eq_2)
    then show ?thesis using pop [of "(set_ctl c' y)\<lparr>y_pc := LWait\<rparr>"] LAcquire p by (intro exI [of _ 3]) (simp add: next_grant_def)
  next
    case LWait
    then show ?thesis using pop [of y] p by (intro exI [of _ 2]) (simp add: next_grant_def)
  next
    case (LClose u)
    then show ?thesis by (intro exI [of _ 1]) (simp add: next_grant_def)
  qed (use loop_inv_reachable [OF assms(1)] assms(4,5) in \<open>auto simp: loop_inv_def\<close>)
qed

lemma demo_next: "map_option t_seq (next_grant demo_y) = Some 1"
  by code_simp

theorem queued_ticket_gets_granted_witness:
  "\<exists>n y'. n \<le> 3 \<and> loop_run n demo_y = Some y' \<and> map t_seq (y_granted y') = [2, 4, 1]"
proof -
  obtain n y' t where "n \<le> 3" "loop_run n demo_y = Some y'" "next_grant demo_y = Some t" "y_granted y' = y_granted demo_y @ [t]"
    using queued_ticket_gets_granted [OF demo_y_reachable fixed_within [of 3]] demo_y_facts by (auto simp: NewFixedController_def)
  then show ?thesis using demo_y_facts(1) demo_next by (intro exI [of _ n] exI [of _ y']) simp
qed

text \<open>
  \<open>Stop\<close> drains: the loop decides to exit only when \<open>Stop\<close> was called and every ticket
  accepted until then has been granted.
\<close>

theorem stop_drains_the_queue:
  assumes "sched_reachable M (\<lambda>x. x \<noteq> NaN) cfg c y" "y_pc y = LWait"
    "sched_step M (\<lambda>x. x \<noteq> NaN) y y'" "y_pc y' = LReleaseUnused"
  shows "s_stopped (y_s y') \<and> mset (map key (y_granted y')) = mset (map key (y_accepted y'))"
proof -
  have q: "queue_inv y" using order_inv_reachable [OF assms(1)] by simp
  have "y' = y\<lparr>y_pc := LReleaseUnused\<rparr> \<and> waitPopHead (y_s y) = PopStopped"
    using assms(3) by cases (use assms(2,4) in \<open>auto simp: signal_loop_def\<close>)
  then show ?thesis using q assms(2) by (simp add: waitPopHead_cases queue_inv_def pq_keys_def)
qed

text \<open>The system of the witnesses, with the queue drained and \<open>Stop\<close> called.\<close>

definition drain_acts :: "act list" where
  "drain_acts = [AEnqueue (Fin 1), ALoop, ALoop, ALoop, AStop, ALoop]"

definition drained_y :: ssys where
  "drained_y = the (exec_acts log2lib drain_acts (sched_init demo_cfg (NewFixedController 3)))"

definition stopped_y :: ssys where
  "stopped_y = the (exec_acts log2lib [ALoop] drained_y)"

definition exited_y :: ssys where
  "exited_y = the (exec_acts log2lib [ALoop] stopped_y)"

definition late_y :: ssys where
  "late_y = the (exec_acts log2lib [AEnqueue (Fin 9)] exited_y)"

lemma drain_exec:
  "exec_acts log2lib drain_acts (sched_init demo_cfg (NewFixedController 3)) = Some drained_y"
  "exec_acts log2lib [ALoop] drained_y = Some stopped_y"
  "exec_acts log2lib [AEnqueue (Fin 9)] exited_y = Some late_y"
proof -
  have "exec_acts log2lib drain_acts (sched_init demo_cfg (NewFixedController 3)) \<noteq> None"
    "exec_acts log2lib [ALoop] drained_y \<noteq> None"
    "exec_acts log2lib [AEnqueue (Fin 9)] exited_y \<noteq> None" by code_simp+
  then show "exec_acts log2lib drain_acts (sched_init demo_cfg (NewFixedController 3)) = Some drained_y"
    "exec_acts log2lib [ALoop] drained_y = Some stopped_y"
    "exec_acts log2lib [AEnqueue (Fin 9)] exited_y = Some late_y"
    by (auto simp: drained_y_def stopped_y_def late_y_def)
qed

lemma drained_facts:
  "y_pc drained_y = LWait" "y_pc stopped_y = LReleaseUnused" "y_pc exited_y = LDone"
  "map t_seq (y_granted stopped_y) = [1]" "map t_seq (y_granted exited_y) = [1]"
  "map t_seq (s_pq (y_s late_y)) = [2]"
  by code_simp+

lemma drained_reachable:
  "sched_reachable log2lib (\<lambda>x. x \<noteq> NaN) demo_cfg (NewFixedController 3) drained_y"
  "sched_step log2lib (\<lambda>x. x \<noteq> NaN) drained_y stopped_y"
  "(sched_step log2lib (\<lambda>x. x \<noteq> NaN))\<^sup>*\<^sup>* exited_y late_y"
proof -
  show "sched_reachable log2lib (\<lambda>x. x \<noteq> NaN) demo_cfg (NewFixedController 3) drained_y"
    by (rule exec_reachable [OF drain_exec(1)]) (simp add: drain_acts_def act_ok_def)
  show "sched_step log2lib (\<lambda>x. x \<noteq> NaN) drained_y stopped_y"
    using drain_exec(2) exec_act_step [of log2lib ALoop drained_y stopped_y]
    by (simp add: act_ok_def split: option.splits)
  show "(sched_step log2lib (\<lambda>x. x \<noteq> NaN))\<^sup>*\<^sup>* exited_y late_y"
    by (rule exec_acts_steps [OF drain_exec(3)]) (simp add: act_ok_def)
qed

theorem stop_drains_the_queue_witness:
  "s_stopped (y_s stopped_y) \<and> mset (map key (y_granted stopped_y)) = mset (map key (y_accepted stopped_y))
    \<and> map t_seq (y_granted stopped_y) = [1]"
  using stop_drains_the_queue [OF drained_reachable(1) drained_facts(1) drained_reachable(2) drained_facts(2)]
    drained_facts by simp

text \<open>
  once the loop has returned nothing is ever granted again, although \<open>Enqueue\<close> still
  accepts requests (it does not look at \<open>stopped\<close>): a ticket queued then waits for ever.
\<close>

theorem no_grant_after_exit:
  assumes "y_pc y = LDone" "(sched_step M P)\<^sup>*\<^sup>* y y'"
  shows "y_pc y' = LDone \<and> y_granted y' = y_granted y
    \<and> (\<forall>score cfg. s_cfg (y_s y') = cfg \<longrightarrow> qc_MaxSize cfg \<le> 0 \<longrightarrow> qc_WaitTimeout cfg \<le> 0
        \<longrightarrow> snd (fst (Enqueue score (y_s y'))) = RejectNone)"
proof -
  have "y_pc y' = LDone \<and> y_granted y' = y_granted y"
    using assms(2,1)
  proof (induction rule: rtranclp_induct)
    case (step z z')
    from step.hyps(2) show ?case by cases (use step in \<open>auto simp: signal_loop_def\<close>)
  qed simp
  then show ?thesis by (auto simp: Enqueue_def Let_def)
qed

theorem no_grant_after_exit_witness:
  "y_pc late_y = LDone \<and> map t_seq (s_pq (y_s late_y)) = [2] \<and> map t_seq (y_granted late_y) = [1]"
  using no_grant_after_exit [OF drained_facts(3) drained_reachable(3)] drained_facts by simp

text \<open>
  a panic in the wrapped handler loses its unit of capacity for ever, because \<open>dispatch\<close>
  releases only after the handler has returned: with a fixed limit of \<open>n\<close>, \<open>n\<close> such panics
  stop the scheduler, and from then on no ticket is ever granted.
\<close>

theorem panics_exhaust_capacity:
  assumes "0 \<le> n" "n \<le> 2 ^ 62" "sched_reachable M P cfg (NewFixedController n) y" "n \<le> int (y_leaked y)"
    "(sched_step M P)\<^sup>*\<^sup>* y y'"
  shows "y_running y' = [] \<and> y_granted y' = y_granted y"
proof -
  have inv: "cap_inv n z" if "sched_reachable M P cfg (NewFixedController n) z" for z
    by (rule cap_inv_reachable [OF that fixed_within [OF assms(1,2)]]) (simp add: NewFixedController_def)
  have "sched_reachable M P cfg (NewFixedController n) y' \<and> n \<le> int (y_leaked y') \<and> y_granted y' = y_granted y"
    using assms(5)
  proof (induction rule: rtranclp_induct)
    case base
    then show ?case using assms(3,4) by simp
  next
    case (step z z')
    have "held (y_pc z) = 0 \<and> int (length (y_running z)) = 0"
      using inv [of z] step.IH held_range [of "y_pc z"] unfolding cap_inv_def by linarith
    then have "held (y_pc z) = 0" "y_running z = []" by simp_all
    note idle = this
    have *: "n \<le> int (y_leaked z)" "y_granted z = y_granted y" using step.IH by blast+
    have "n \<le> int (y_leaked z') \<and> y_granted z' = y_granted y"
      using step.hyps(2) by cases (use idle * in simp_all)
    moreover have "sched_reachable M P cfg (NewFixedController n) z'"
      using step.IH step.hyps(2) unfolding sched_reachable_def by (blast intro: rtranclp.rtrancl_into_rtrancl)
    ultimately show ?case by blast
  qed
  moreover from this have "int (length (y_running y')) = 0"
    using inv [of y'] held_range [of "y_pc y'"] unfolding cap_inv_def by linarith
  ultimately show ?thesis by simp
qed

definition leak_acts :: "act list" where
  "leak_acts = [AEnqueue (Fin 1), AEnqueue (Fin 2), ALoop, ALoop, ALoop, APanic 2]"

definition leaked_y :: ssys where
  "leaked_y = the (exec_acts log2lib leak_acts (sched_init demo_cfg (NewFixedController 1)))"

lemma leaked_exec: "exec_acts log2lib leak_acts (sched_init demo_cfg (NewFixedController 1)) = Some leaked_y"
proof -
  have "exec_acts log2lib leak_acts (sched_init demo_cfg (NewFixedController 1)) \<noteq> None" by code_simp
  then show ?thesis by (auto simp: leaked_y_def)
qed

definition starved_y :: ssys where
  "starved_y = the (exec_acts log2lib [AEnqueue (Fin 7)] leaked_y)"

lemma starved_exec: "exec_acts log2lib [AEnqueue (Fin 7)] leaked_y = Some starved_y"
proof -
  have "exec_acts log2lib [AEnqueue (Fin 7)] leaked_y \<noteq> None" by code_simp
  then show ?thesis by (auto simp: starved_y_def)
qed

lemma leaked_facts:
  "y_leaked leaked_y = 1" "map t_seq (y_granted leaked_y) = [2]" "length (s_pq (y_s starved_y)) = 2"
  by code_simp+

theorem panics_exhaust_capacity_witness:
  "y_running starved_y = [] \<and> map t_seq (y_granted starved_y) = [2] \<and> length (s_pq (y_s starved_y)) = 2"
proof -
  have "sched_reachable log2lib (\<lambda>x. x \<noteq> NaN) demo_cfg (NewFixedController 1) leaked_y"
    by (rule exec_reachable [OF leaked_exec]) (simp add: leak_acts_def act_ok_def)
  moreover have "(sched_step log2lib (\<lambda>x. x \<noteq> NaN))\<^sup>*\<^sup>* leaked_y starved_y"
    by (rule exec_acts_steps [OF starved_exec]) (simp add: act_ok_def)
  ultimately show ?thesis
    using panics_exhaust_capacity [of 1 log2lib "\<lambda>x. x \<noteq> NaN" demo_cfg leaked_y starved_y] leaked_facts by simp
qed

end
