(* ===== verification/Dispatch.thy ===== *)
theory Dispatch imports Controller begin

text \<open>
  One dispatched request (\<^verbatim>\<open>adaptiveadmission/dispatch.go\<close>): the response recorder, the
  classification of the outcome, and the release of the unit of capacity.

  The wrapped handler is not part of the repository. What the code sees of one run of it is a
  \<open>next_run\<close>: the calls it makes on the response writer, how long it took, and whether it
  returned an error or panicked. An error is the chain that \<^verbatim>\<open>errors.As\<close> walks.
\<close>

section \<open>The response recorder\<close>

datatype wcall = WHeader go_int | WBody string

record statusRecorder =
  sr_writer :: "wcall list"
  sr_statusCode :: go_int
  sr_wroteHeader :: bool

definition newRecorder :: statusRecorder where
  "newRecorder = \<lparr>sr_writer = [], sr_statusCode = 200, sr_wroteHeader = False\<rparr>"

definition WriteHeader :: "go_int \<Rightarrow> statusRecorder \<Rightarrow> statusRecorder" where
  "WriteHeader code r =
    (let r = (if \<not> sr_wroteHeader r then r\<lparr>sr_statusCode := code, sr_wroteHeader := True\<rparr> else r) in
     r\<lparr>sr_writer := sr_writer r @ [WHeader code]\<rparr>)"

definition Write :: "string \<Rightarrow> statusRecorder \<Rightarrow> statusRecorder" where
  "Write b r = r\<lparr>sr_wroteHeader := True, sr_writer := sr_writer r @ [WBody b]\<rparr>"

fun record_call :: "wcall \<Rightarrow> statusRecorder \<Rightarrow> statusRecorder" where
  "record_call (WHeader code) r = WriteHeader code r"
| "record_call (WBody b) r = Write b r"

text \<open>
  What \<^verbatim>\<open>net/http\<close> puts on the wire for the same calls: informational headers (1xx other
  than 101) are sent and do not count, then the first header wins, and writing a body without
  one means 200.
\<close>

definition informational :: "go_int \<Rightarrow> bool" where
  "informational code \<longleftrightarrow> 100 \<le> code \<and> code \<le> 199 \<and> code \<noteq> 101"

fun wire_status :: "wcall list \<Rightarrow> go_int" where
  "wire_status [] = 200"
| "wire_status (WBody b # cs) = 200"
| "wire_status (WHeader code # cs) = (if informational code then wire_status cs else code)"

section \<open>The outcome of a request\<close>

datatype err_link = HandlerError go_int | OtherError

type_synonym go_error = "err_link list"

text \<open>\<^verbatim>\<open>errors.As\<close> with a \<^verbatim>\<open>caddyhttp.HandlerError\<close> target: the first such link of the chain.\<close>

fun as_HandlerError :: "go_error \<Rightarrow> go_int option" where
  "as_HandlerError [] = None"
| "as_HandlerError (HandlerError code # es) = Some code"
| "as_HandlerError (OtherError # es) = as_HandlerError es"

definition classifyOutcome :: "go_int \<Rightarrow> go_error option \<Rightarrow> go_int \<times> bool" where
  "classifyOutcome recordedStatus err =
    (case err of
       None \<Rightarrow> (recordedStatus, False)
     | Some e \<Rightarrow> (case as_HandlerError e of
         Some code \<Rightarrow> if code \<noteq> 0 then (code, code = 504) else (500, False)
       | None \<Rightarrow> (500, False)))"

datatype next_result = Returned "go_error option" | Panicked

record next_run =
  nr_calls :: "wcall list"
  nr_result :: next_result
  nr_latency :: duration

record dispatchOutcome =
  do_statusCode :: go_int
  do_latency :: duration
  do_timedOut :: bool

text \<open>The metrics a request touches, in the order the code updates them.\<close>

datatype metric =
    MRequestsTotal string
  | MQueueSize string go_int
  | MRequestsRejected string string
  | MQueueWait string duration
  | MRequestsAdmitted string
  | MRequestsInFlight string go_int
  | MRequestDuration string duration
  | MBackendTimeouts string
  | MBackendErrors string
  | MLimitChanges string string
  | MConcurrencyLimit string go_int

record dispatched =
  dp_outcome :: dispatchOutcome
  dp_error :: "go_error option"
  dp_controller :: Controller
  dp_signals :: nat
  dp_metrics :: "metric list"

text \<open>\<open>None\<close>: the wrapped handler panicked, and with it \<open>dispatch\<close>; nothing was released.\<close>

definition dispatch :: "mathlib \<Rightarrow> string \<Rightarrow> next_run \<Rightarrow> Controller \<Rightarrow> dispatched option" where
  "dispatch M backend run c =
    (let rec = fold record_call (nr_calls run) newRecorder; latency = nr_latency run in
     case nr_result run of
       Panicked \<Rightarrow> None
     | Returned err \<Rightarrow>
         let (statusCode, timedOut) = classifyOutcome (sr_statusCode rec) err;
             (c', n) = Release M 1 latency statusCode timedOut c
         in Some \<lparr>dp_outcome = \<lparr>do_statusCode = statusCode, do_latency = latency, do_timedOut = timedOut\<rparr>,
              dp_error = err, dp_controller = c', dp_signals = n,
              dp_metrics = [MRequestDuration backend latency]
                @ (if timedOut then [MBackendTimeouts backend] else [])
                @ (if 500 \<le> statusCode then [MBackendErrors backend] else [])\<rparr>)"

section \<open>Lemmas\<close>

lemma record_call_wrote:
  "sr_wroteHeader r \<Longrightarrow> sr_statusCode (fold record_call cs r) = sr_statusCode r \<and> sr_wroteHeader (fold record_call cs r)"
proof (induction cs arbitrary: r)
  case (Cons a cs)
  then show ?case by (cases a) (auto simp: WriteHeader_def Write_def Let_def)
qed simp

lemma record_calls_status:
  "\<not> sr_wroteHeader r \<Longrightarrow> sr_statusCode (fold record_call cs r) =
    (case cs of [] \<Rightarrow> sr_statusCode r | WHeader code # _ \<Rightarrow> code | WBody b # _ \<Rightarrow> sr_statusCode r)"
  by (cases cs) (auto split: wcall.splits simp: record_call_wrote WriteHeader_def Write_def Let_def)

lemma record_calls_forward: "sr_writer (fold record_call cs r) = sr_writer r @ cs"
proof (induction cs arbitrary: r)
  case (Cons a cs)
  then show ?case by (cases a) (auto simp: WriteHeader_def Write_def Let_def)
qed simp

lemma recorded_status:
  "sr_statusCode (fold record_call cs newRecorder) =
    (case cs of WHeader code # _ \<Rightarrow> code | _ \<Rightarrow> 200)"
  by (auto simp: record_calls_status newRecorder_def split: list.splits wcall.splits)

section \<open>Properties\<close>

text \<open>
  the recorder is transparent (every call reaches the real writer, in order) and, as long
  as the first call is not an informational header, it records exactly the status the server
  sends; after an informational header it records that header's code instead, whatever
  status follows.
\<close>

theorem recorder_sees_wire_status:
  "let r = fold record_call cs newRecorder in
    sr_writer r = cs
    \<and> (case cs of
        WHeader code # rest \<Rightarrow>
          if informational code then sr_statusCode r = code else sr_statusCode r = wire_status cs
      | _ \<Rightarrow> sr_statusCode r = wire_status cs)"
  by (auto simp: recorded_status record_calls_forward Let_def split: list.splits wcall.splits)
    (simp add: newRecorder_def)+

text \<open>
  a dispatched request whose handler returns releases its unit exactly once, whatever the
  handler wrote or returned: the in-flight count drops by one, one waiter is signalled, one
  sample is recorded, an error counts as a failure (its own status, or 500), and only a
  gateway timeout counts as timed out.
\<close>

theorem dispatch_releases_once:
  assumes "nr_result run = Returned err" "ow_inv (c_window c)" "1 \<le> c_inFlight c" "in_int64 (c_inFlight c)"
  shows "\<exists>d. dispatch M backend run c = Some d
    \<and> c_inFlight (dp_controller d) = c_inFlight c - 1 \<and> dp_signals d = 1
    \<and> c_limit (dp_controller d) = c_limit c
    \<and> ow_contents (c_window (dp_controller d)) = recent (ow_size (c_window c))
        (ow_contents (c_window c)
          @ [mk_sample M (nr_latency run) (do_timedOut (dp_outcome d)) (500 \<le> do_statusCode (dp_outcome d))])
    \<and> (do_timedOut (dp_outcome d) \<longleftrightarrow> (\<exists>e. err = Some e \<and> as_HandlerError e = Some 504))
    \<and> do_statusCode (dp_outcome d) = (case err of
        None \<Rightarrow> (case nr_calls run of WHeader code # _ \<Rightarrow> code | _ \<Rightarrow> 200)
      | Some e \<Rightarrow> (case as_HandlerError e of Some code \<Rightarrow> if code = 0 then 500 else code | None \<Rightarrow> 500))"
proof -
  obtain st t where cl: "classifyOutcome (sr_statusCode (fold record_call (nr_calls run) newRecorder)) err = (st, t)"
    by (metis prod.exhaust)
  have t: "t \<longleftrightarrow> (\<exists>e. err = Some e \<and> as_HandlerError e = Some 504)"
    "st = (case err of None \<Rightarrow> (case nr_calls run of WHeader code # _ \<Rightarrow> code | _ \<Rightarrow> 200)
      | Some e \<Rightarrow> (case as_HandlerError e of Some code \<Rightarrow> if code = 0 then 500 else code | None \<Rightarrow> 500))"
    using cl by (auto simp: classifyOutcome_def recorded_status split: option.splits if_splits)
  have "wrap64 (c_inFlight c - 1) = c_inFlight c - 1"
    using assms(3,4) by (intro wrap64_id) (simp add: in_int64_def)
  then show ?thesis
    using assms(1) t by (simp add: dispatch_def Let_def cl Release_def wake_def ow_contents_record [OF assms(2)])
qed


theorem dispatch_releases_once_witness:
  "\<exists>d. dispatch log2lib ''default''
      \<lparr>nr_calls = [], nr_result = Returned (Some [OtherError, HandlerError 504]), nr_latency = 7\<rparr>
      ((NewFixedController 3)\<lparr>c_inFlight := 2\<rparr>) = Some d
    \<and> c_inFlight (dp_controller d) = 1 \<and> do_statusCode (dp_outcome d) = 504 \<and> do_timedOut (dp_outcome d)"
  using dispatch_releases_once [of "\<lparr>nr_calls = [], nr_result = Returned (Some [OtherError, HandlerError 504]), nr_latency = 7\<rparr>"
      "Some [OtherError, HandlerError 504]" "(NewFixedController 3)\<lparr>c_inFlight := 2\<rparr>" log2lib "''default''"]
  by (auto simp: NewFixedController_def in_int64_def)

end
