(* ===== verification/Registry.thy ===== *)
theory Registry imports Go_Base begin

text \<open>
  The interface the two app modules offer to their handlers and to the admin endpoint: a
  registry that names the live handler of every backend. A handler is a pointer; pointers are
  numbers.
\<close>

type_synonym handler_ptr = nat

text \<open>
  What looking an app module up in the Caddy context gives: an error, a module of another type,
  or the app.
\<close>

datatype 'a app_lookup = AppError | UnexpectedApp | AppFound 'a

datatype reg_event = RegH string handler_ptr | UnregH string handler_ptr

text \<open>
  \<open>live_registration evs b h\<close>: in the sequence \<open>evs\<close>, \<open>h\<close> was registered for \<open>b\<close>, nobody was
  registered for \<open>b\<close> after it, and \<open>h\<close> was not cleaned up after it.
\<close>

definition live_registration :: "reg_event list \<Rightarrow> string \<Rightarrow> handler_ptr \<Rightarrow> bool" where
  "live_registration evs b h \<longleftrightarrow>
     (\<exists>pre post. evs = pre @ RegH b h # post \<and> (\<forall>h'. RegH b h' \<notin> set post) \<and> UnregH b h \<notin> set post)"

lemma live_registration_Nil [simp]: "\<not> live_registration [] b h"
  by (simp add: live_registration_def)

lemma live_registration_snoc:
  "live_registration (evs @ [e]) b h \<longleftrightarrow>
    e = RegH b h \<or> (live_registration evs b h \<and> (\<forall>h'. e \<noteq> RegH b h') \<and> e \<noteq> UnregH b h)"
proof
  assume "live_registration (evs @ [e]) b h"
  then obtain pre post where p: "evs @ [e] = pre @ RegH b h # post" "\<And>h'. RegH b h' \<notin> set post" "UnregH b h \<notin> set post"
    unfolding live_registration_def by blast
  show "e = RegH b h \<or> (live_registration evs b h \<and> (\<forall>h'. e \<noteq> RegH b h') \<and> e \<noteq> UnregH b h)"
  proof (cases post rule: rev_cases)
    case Nil
    then show ?thesis using p by simp
  next
    case (snoc ys z)
    then have "evs @ [e] = (pre @ RegH b h # ys) @ [z]" using p(1) by simp
    then have "evs = pre @ RegH b h # ys" "e = z" by blast+
    then show ?thesis using p snoc by (auto simp: live_registration_def)
  qed
next
  assume "e = RegH b h \<or> (live_registration evs b h \<and> (\<forall>h'. e \<noteq> RegH b h') \<and> e \<noteq> UnregH b h)"
  then show "live_registration (evs @ [e]) b h"
  proof
    assume "e = RegH b h"
    then show ?thesis unfolding live_registration_def by (intro exI [of _ evs] exI [of _ "[]"]) simp
  next
    assume *: "live_registration evs b h \<and> (\<forall>h'. e \<noteq> RegH b h') \<and> e \<noteq> UnregH b h"
    then obtain pre post where "evs = pre @ RegH b h # post" "\<forall>h'. RegH b h' \<notin> set post" "UnregH b h \<notin> set post"
      unfolding live_registration_def by blast
    then show ?thesis using * unfolding live_registration_def
      by (intro exI [of _ pre] exI [of _ "post @ [e]"]) auto
  qed
qed

text \<open>What a registry promises: registering overwrites, unregistering is conditional.\<close>

locale handler_registry =
  fixes look :: "'s \<Rightarrow> string \<Rightarrow> handler_ptr option"
    and reg unreg :: "string \<Rightarrow> handler_ptr \<Rightarrow> 's \<Rightarrow> 's"
  assumes look_reg: "look (reg b h s) b' = (if b' = b then Some h else look s b')"
    and look_unreg: "look (unreg b h s) b' = (if b' = b \<and> look s b = Some h then None else look s b')"
begin

fun run :: "reg_event \<Rightarrow> 's \<Rightarrow> 's" where
  "run (RegH b h) s = reg b h s"
| "run (UnregH b h) s = unreg b h s"

lemma names_live_handler:
  "look s b = None \<Longrightarrow> look (fold run evs s) b = Some h \<longleftrightarrow> live_registration evs b h"
proof (induction evs arbitrary: h rule: rev_induct)
  case (snoc e evs)
  then show ?case unfolding live_registration_snoc by (cases e) (auto simp: look_reg look_unreg)
qed simp

end

end
