(* ===== verification/Request_Vars.thy ===== *)
theory Request_Vars imports Float64 "HOL-Library.Word" begin

text \<open>
  The variables of a request (\<^verbatim>\<open>caddyhttp.SetVar\<close> and \<^verbatim>\<open>GetVar\<close>), the only channel between
  the fairness handler and the admission handler. A value carries its dynamic Go type, which
  the reader tests: a number, a map of log fields, or something else.
\<close>

datatype field_value =
    FStr string
  | FUint "64 word"
  | FBool bool
  | FInt go_int
  | FFloats "(string, f64) gomap"

datatype var_value = VFloat f64 | VFields "(string, field_value) gomap" | VOther

type_synonym vars = "(string, var_value) gomap"

end
