(* ===== verification/Admission.thy ===== *)
theory Admission imports Scheduler Dispatch Registry Request_Vars "HOL-Library.List_Lexorder" "HOL-Library.Char_ord" begin

text \<open>
  The \<^verbatim>\<open>adaptive_admission\<close> handler around the scheduler: its configuration
  (\<^verbatim>\<open>config.go\<close>), the registry of handlers of the app module (\<^verbatim>\<open>app.go\<close>), provisioning,
  the request path \<open>ServeHTTP\<close> with its metrics and log line (\<^verbatim>\<open>module.go\<close>), and the
  status endpoint (\<^verbatim>\<open>admin.go\<close>).

  A registered handler is a pointer; pointers are numbers. A handler's controller is the one
  its scheduler drives.
\<close>

section \<open>Configuration\<close>

definition controllerKindFixed :: string where "controllerKindFixed = ''fixed''"
definition controllerKindAdaptive :: string where "controllerKindAdaptive = ''adaptive''"

record ControllerConfig =
  cc_Kind :: string
  cc_Limit :: go_int
  cc_MinConcurrency :: go_int
  cc_InitialConcurrency :: go_int
  cc_MaxConcurrency :: go_int
  cc_TargetP95 :: duration
  cc_TimeoutRateThreshold :: f64
  cc_ErrorRateThreshold :: f64
  cc_AdjustInterval :: duration

record AdmissionConfig =
  ad_Backend :: string
  ad_Controller :: ControllerConfig
  ad_QueueMaxSize :: go_int
  ad_QueueTimeout :: duration

datatype build_error = ErrFixedLimit | ErrAdaptiveBounds | ErrUnknownKind string

definition buildController :: "ControllerConfig \<Rightarrow> build_error + Controller" where
  "buildController cc =
    (if cc_Kind cc = [] \<or> cc_Kind cc = controllerKindFixed then
       if cc_Limit cc \<le> 0 then Inl ErrFixedLimit else Inr (NewFixedController (cc_Limit cc))
     else if cc_Kind cc = controllerKindAdaptive then
       if cc_MinConcurrency cc \<le> 0 \<or> cc_InitialConcurrency cc \<le> 0 \<or> cc_MaxConcurrency cc \<le> 0
       then Inl ErrAdaptiveBounds
       else Inr (NewAdaptiveController
         \<lparr>ac_MinConcurrency = cc_MinConcurrency cc, ac_InitialConcurrency = cc_InitialConcurrency cc,
          ac_MaxConcurrency = cc_MaxConcurrency cc, ac_TargetP95 = cc_TargetP95 cc,
          ac_TimeoutRateThreshold = cc_TimeoutRateThreshold cc,
          ac_ErrorRateThreshold = cc_ErrorRateThreshold cc,
          ac_AdjustInterval = cc_AdjustInterval cc, ac_WindowSize = 0\<rparr>)
     else Inl (ErrUnknownKind (cc_Kind cc)))"

definition queueConfig :: "AdmissionConfig \<Rightarrow> QueueConfig" where
  "queueConfig c = \<lparr>qc_MaxSize = ad_QueueMaxSize c, qc_WaitTimeout = ad_QueueTimeout c\<rparr>"

definition backendLabel :: "AdmissionConfig \<Rightarrow> string" where
  "backendLabel c = (if ad_Backend c = [] then ''default'' else ad_Backend c)"

section \<open>The registry of handlers\<close>

record AdmissionApp =
  app_handlers :: "(string, handler_ptr) gomap option"

definition app_Provision :: "AdmissionApp \<Rightarrow> AdmissionApp" where
  "app_Provision a = a\<lparr>app_handlers := Some []\<rparr>"

definition registerHandler :: "string \<Rightarrow> handler_ptr \<Rightarrow> AdmissionApp \<Rightarrow> AdmissionApp" where
  "registerHandler backend h a =
    (let m = (case app_handlers a of None \<Rightarrow> [] | Some m \<Rightarrow> m) in
     a\<lparr>app_handlers := Some (map_put backend h m)\<rparr>)"

definition unregisterHandler :: "string \<Rightarrow> handler_ptr \<Rightarrow> AdmissionApp \<Rightarrow> AdmissionApp" where
  "unregisterHandler backend h a =
    (case app_handlers a of
       None \<Rightarrow> a
     | Some m \<Rightarrow> if map_get m backend = Some h then a\<lparr>app_handlers := Some (map_del backend m)\<rparr> else a)"

text \<open>\<open>label\<close> reads the backend label of the handler behind a pointer.\<close>

definition snapshotHandlers :: "(handler_ptr \<Rightarrow> string) \<Rightarrow> AdmissionApp \<Rightarrow> handler_ptr list" where
  "snapshotHandlers label a =
    (case app_handlers a of None \<Rightarrow> [] | Some m \<Rightarrow> sort_key label (map snd m))"

section \<open>Provisioning\<close>

record AdmissionHandler =
  ah_Config :: AdmissionConfig
  ah_scheduler :: Scheduler
  ah_backend :: string

definition limit_change_direction :: "go_int \<Rightarrow> go_int \<Rightarrow> string" where
  "limit_change_direction oldLimit newLimit = (if newLimit < oldLimit then ''shrink'' else ''grow'')"

text \<open>
  What \<open>SetOnLimitChange\<close> is given: the metrics updated when \<open>adjust\<close> reports a changed limit.
\<close>

definition on_limit_change :: "string \<Rightarrow> go_int \<times> go_int \<Rightarrow> metric list" where
  "on_limit_change backend ch =
    (case ch of (oldLimit, newLimit) \<Rightarrow>
      [MLimitChanges backend (limit_change_direction oldLimit newLimit), MConcurrencyLimit backend newLimit])"

text \<open>
  A zero context has no app module (\<open>app\<close> is \<open>None\<close>). The lookup happens after the controller
  and the scheduler have been started (\<open>Start\<close>, \<open>sched_step\<close>).
\<close>

datatype provision_error = BuildError build_error | AppLookupFailed | AppHasWrongType

definition Provision :: "handler_ptr \<Rightarrow> AdmissionConfig \<Rightarrow> AdmissionApp app_lookup option
    \<Rightarrow> provision_error + AdmissionHandler \<times> AdmissionApp option \<times> metric list" where
  "Provision h cfg app =
    (case buildController (ad_Controller cfg) of
       Inl e \<Rightarrow> Inl (BuildError e)
     | Inr controller \<Rightarrow>
         let backend = backendLabel cfg;
             ms = [MConcurrencyLimit backend (c_limit controller)];
             scheduler = NewScheduler (queueConfig cfg) controller;
             handler = \<lparr>ah_Config = cfg, ah_scheduler = scheduler, ah_backend = backend\<rparr>
         in case app of
              None \<Rightarrow> Inr (handler, None, ms)
            | Some AppError \<Rightarrow> Inl AppLookupFailed
            | Some UnexpectedApp \<Rightarrow> Inl AppHasWrongType
            | Some (AppFound a) \<Rightarrow> Inr (handler, Some (registerHandler backend h a), ms))"

text \<open>\<open>Cleanup\<close> stops the scheduler (the flag; the loop drains in \<open>sched_step\<close>) and unregisters.\<close>

definition Cleanup :: "handler_ptr \<Rightarrow> AdmissionHandler \<Rightarrow> AdmissionApp option \<Rightarrow> AdmissionHandler \<times> AdmissionApp option" where
  "Cleanup h handler app =
    (handler\<lparr>ah_scheduler := StopFlag (ah_scheduler handler)\<rparr>,
     map_option (unregisterHandler (backendLabel (ah_Config handler)) h) app)"

section \<open>The request path\<close>

definition fairnessScoreVarKey :: string where "fairnessScoreVarKey = ''fairness_score''"
definition fairnessLogFieldsVarKey :: string where "fairnessLogFieldsVarKey = ''fairness_log_fields''"
definition neutralScore :: f64 where "neutralScore = Fin 0"

definition score_of_vars :: "vars \<Rightarrow> f64" where
  "score_of_vars vs = (case map_get vs fairnessScoreVarKey of Some (VFloat f) \<Rightarrow> f | _ \<Rightarrow> neutralScore)"

record logDecisionParams =
  lp_backend :: string
  lp_admitted :: bool
  lp_rejectReason :: RejectReason
  lp_queueWait :: duration
  lp_latency :: duration
  lp_statusCode :: go_int

definition Milliseconds :: "duration \<Rightarrow> go_int" where
  "Milliseconds d = quot64 d millisecond"

text \<open>A field of the fairness handler is copied when it is present with the expected type.\<close>

fun has_type_of :: "string \<Rightarrow> field_value \<Rightarrow> bool" where
  "has_type_of k (FStr s) \<longleftrightarrow> k = ''ip'' \<or> k = ''country'' \<or> k = ''user_class''"
| "has_type_of k (FUint n) \<longleftrightarrow> k = ''asn''"
| "has_type_of k (FBool b) \<longleftrightarrow> k = ''exempt''"
| "has_type_of k (FFloats m) \<longleftrightarrow> k = ''score_breakdown''"
| "has_type_of k (FInt n) \<longleftrightarrow> False"

definition copy_field :: "(string, field_value) gomap \<Rightarrow> string \<Rightarrow> (string \<times> field_value) list" where
  "copy_field lf k = (case map_get lf k of Some v \<Rightarrow> if has_type_of k v then [(k, v)] else [] | None \<Rightarrow> [])"

text \<open>The lines written: none without a logger.\<close>

definition logDecision :: "bool \<Rightarrow> vars \<Rightarrow> logDecisionParams \<Rightarrow> (string \<times> field_value) list list" where
  "logDecision logger vs p =
    (if \<not> logger then []
     else [[(''backend'', FStr (lp_backend p)), (''admitted'', FBool (lp_admitted p))]
    @ (if lp_admitted p then
         [(''queue_wait_ms'', FInt (Milliseconds (lp_queueWait p))),
          (''backend_latency_ms'', FInt (Milliseconds (lp_latency p))),
          (''status_code'', FInt (lp_statusCode p))]
       else [(''reject_reason'', FStr (RejectReason_String (lp_rejectReason p)))])
    @ (case map_get vs fairnessLogFieldsVarKey of
         Some (VFields lf) \<Rightarrow>
           copy_field lf ''ip'' @ copy_field lf ''asn'' @ copy_field lf ''country''
           @ copy_field lf ''user_class'' @ copy_field lf ''exempt'' @ copy_field lf ''score_breakdown''
       | _ \<Rightarrow> [])])"

datatype serve_result = TooManyRequests RejectReason | NextReturned "go_error option" | NextPanicked

record served =
  sv_result :: serve_result
  sv_scheduler :: Scheduler
  sv_metrics :: "metric list"
  sv_log :: "(string \<times> field_value) list list"

text \<open>
  \<open>wait\<close> is what the rest of the system does to the scheduler until this request's ticket is
  granted, \<open>queueWait\<close> how long that takes, \<open>run\<close> the wrapped handler, \<open>logger\<close> whether there is one.
\<close>

definition ServeHTTP :: "mathlib \<Rightarrow> bool \<Rightarrow> AdmissionConfig \<Rightarrow> vars \<Rightarrow> (Ticket \<Rightarrow> Scheduler \<Rightarrow> Scheduler) \<Rightarrow> duration
    \<Rightarrow> next_run \<Rightarrow> Scheduler \<Rightarrow> served" where
  "ServeHTTP M logger cfg vs wait queueWait run s =
    (let backend = backendLabel cfg;
         score = score_of_vars vs;
         ((ticket, reason), s1) = Enqueue score s;
         ms = [MRequestsTotal backend, MQueueSize backend (Depth s1)]
     in case ticket of
       None \<Rightarrow> \<lparr>sv_result = TooManyRequests reason, sv_scheduler = s1,
           sv_metrics = ms @ [MRequestsRejected backend (RejectReason_String reason)],
           sv_log = logDecision logger vs \<lparr>lp_backend = backend, lp_admitted = False, lp_rejectReason = reason,
             lp_queueWait = 0, lp_latency = 0, lp_statusCode = 0\<rparr>\<rparr>
     | Some t \<Rightarrow>
         let s2 = wait t s1;
             ms = ms @ [MQueueWait backend queueWait, MRequestsAdmitted backend,
               MRequestsInFlight backend (c_inFlight (s_controller s2))]
         in case dispatch M backend run (s_controller s2) of
           None \<Rightarrow> \<lparr>sv_result = NextPanicked, sv_scheduler = s2, sv_metrics = ms, sv_log = []\<rparr>
         | Some d \<Rightarrow>
             \<lparr>sv_result = NextReturned (dp_error d),
              sv_scheduler = s2\<lparr>s_controller := dp_controller d\<rparr>,
              sv_metrics = ms @ dp_metrics d @ [MRequestsInFlight backend (c_inFlight (dp_controller d))],
              sv_log = logDecision logger vs \<lparr>lp_backend = backend, lp_admitted = True, lp_rejectReason = RejectNone,
                lp_queueWait = queueWait, lp_latency = do_latency (dp_outcome d),
                lp_statusCode = do_statusCode (dp_outcome d)\<rparr>\<rparr>)"

section \<open>The status endpoint\<close>

record backendControllerStatus =
  bs_Backend :: string
  bs_ControllerKind :: string
  bs_Limit :: go_int
  bs_InFlight :: go_int
  bs_MeanLatencyMs :: f64
  bs_QueueSize :: go_int

datatype status_error = MethodNotAllowed | NotConfigured

definition backend_status :: "AdmissionHandler \<Rightarrow> backendControllerStatus" where
  "backend_status h =
    (let c = s_controller (ah_scheduler h) in
     \<lparr>bs_Backend = backendLabel (ah_Config h), bs_ControllerKind = ControllerKind_String (c_kind c),
      bs_Limit = c_limit c, bs_InFlight = c_inFlight c,
      bs_MeanLatencyMs = fdiv (f64_of_int (MeanLatency c)) (f64_of_int millisecond),
      bs_QueueSize = Depth (ah_scheduler h)\<rparr>)"

definition handleStatus :: "string \<Rightarrow> (handler_ptr \<Rightarrow> AdmissionHandler) \<Rightarrow> AdmissionApp option
    \<Rightarrow> status_error + backendControllerStatus list" where
  "handleStatus method deref app =
    (if method \<noteq> ''GET'' then Inl MethodNotAllowed
     else case app of
       None \<Rightarrow> Inl NotConfigured
     | Some a \<Rightarrow> Inr (sort_key bs_Backend
         (map (\<lambda>h. backend_status (deref h))
           (snapshotHandlers (\<lambda>h. backendLabel (ah_Config (deref h))) a))))"

section \<open>Lemmas\<close>

lemma buildController_sound:
  assumes "buildController cc = Inr c" "cc_MinConcurrency cc \<le> cc_MaxConcurrency cc \<or> c_kind c = ControllerFixed"
    "c_kind c = ControllerFixed \<Longrightarrow> cc_Limit cc \<le> B"
    "c_kind c = ControllerAdaptive \<Longrightarrow> cc_InitialConcurrency cc \<le> B \<and> cc_MaxConcurrency cc \<le> B"
    "B \<le> 2 ^ 62"
  shows "limits_within B c \<and> c_inFlight c = 0 \<and> 1 \<le> c_limit c"
  using assms
  by (auto simp: buildController_def limits_within_def NewFixedController_def split: if_splits)

lemma snapshot_sorted: "sorted (map label (snapshotHandlers label a))"
  by (simp add: snapshotHandlers_def split: option.split)

definition registered :: "AdmissionApp \<Rightarrow> string \<Rightarrow> handler_ptr option" where
  "registered a b = (case app_handlers a of None \<Rightarrow> None | Some m \<Rightarrow> map_get m b)"

interpretation apps: handler_registry registered registerHandler unregisterHandler
  by unfold_locales (auto simp: registered_def registerHandler_def unregisterHandler_def Let_def split: option.splits)

lemma registered_Provision [simp]: "registered (app_Provision a) b = None"
  by (simp add: registered_def app_Provision_def)

definition count_metric :: "(metric \<Rightarrow> bool) \<Rightarrow> metric list \<Rightarrow> nat" where
  "count_metric P ms = length (filter P ms)"

fun is_total :: "metric \<Rightarrow> bool" where
  "is_total (MRequestsTotal b) = True" | "is_total m = False"

fun is_rejected :: "metric \<Rightarrow> bool" where
  "is_rejected (MRequestsRejected b r) = True" | "is_rejected m = False"

fun is_admitted :: "metric \<Rightarrow> bool" where
  "is_admitted (MRequestsAdmitted b) = True" | "is_admitted m = False"

lemma dispatch_metrics:
  "dispatch M b run c = Some d \<Longrightarrow>
    count_metric is_total (dp_metrics d) = 0 \<and> count_metric is_rejected (dp_metrics d) = 0
    \<and> count_metric is_admitted (dp_metrics d) = 0"
  by (auto simp: dispatch_def Let_def count_metric_def split: next_result.splits prod.splits)

section \<open>The configured bound on concurrency\<close>

definition configured_bound :: "ControllerConfig \<Rightarrow> go_int" where
  "configured_bound cc =
    (if cc_Kind cc = controllerKindAdaptive then max (cc_InitialConcurrency cc) (cc_MaxConcurrency cc)
     else cc_Limit cc)"

lemma buildController_within:
  assumes "buildController cc = Inr c" "cc_Kind cc = controllerKindAdaptive \<Longrightarrow> cc_MinConcurrency cc \<le> cc_MaxConcurrency cc"
    "configured_bound cc \<le> 2 ^ 62"
  shows "limits_within (configured_bound cc) c \<and> c_inFlight c = 0"
proof -
  have "controllerKindFixed \<noteq> controllerKindAdaptive" "[] \<noteq> controllerKindAdaptive"
    by (simp_all add: controllerKindFixed_def controllerKindAdaptive_def)
  then show ?thesis
    using assms by (auto simp: buildController_def configured_bound_def limits_within_def NewFixedController_def
      max_def split: if_splits)
qed

lemma Provision_Inr:
  assumes "Provision h cfg app = Inr (handler, app', ms)"
  shows "buildController (ad_Controller cfg) = Inr (s_controller (ah_scheduler handler))"
    "ah_scheduler handler = NewScheduler (queueConfig cfg) (s_controller (ah_scheduler handler))"
  using assms
  by (auto simp: Provision_def NewScheduler_def Let_def split: sum.splits option.splits app_lookup.splits)

section \<open>Properties\<close>

text \<open>
  a handler is provisioned exactly when its controller block is complete: kind empty or
  \<open>fixed\<close> with a positive limit, or kind \<open>adaptive\<close> with positive minimum, initial and maximum
  concurrency (so the adaptive example of the README, which leaves the initial concurrency
  out, is refused); the controller then starts empty, with the configured limit and kind.
\<close>

theorem build_controller_validates:
  "case buildController cc of
     Inr c \<Rightarrow> c_inFlight c = 0 \<and> ow_contents (c_window c) = []
       \<and> ((cc_Kind cc \<in> {[], ''fixed''} \<and> 0 < cc_Limit cc \<and> c_kind c = ControllerFixed \<and> c_limit c = cc_Limit cc)
          \<or> (cc_Kind cc = ''adaptive'' \<and> 0 < cc_MinConcurrency cc \<and> 0 < cc_InitialConcurrency cc
             \<and> 0 < cc_MaxConcurrency cc \<and> c_kind c = ControllerAdaptive
             \<and> c_limit c = cc_InitialConcurrency cc))
   | Inl ErrFixedLimit \<Rightarrow> cc_Kind cc \<in> {[], ''fixed''} \<and> cc_Limit cc \<le> 0
   | Inl ErrAdaptiveBounds \<Rightarrow> cc_Kind cc = ''adaptive''
       \<and> min (cc_MinConcurrency cc) (min (cc_InitialConcurrency cc) (cc_MaxConcurrency cc)) \<le> 0
   | Inl (ErrUnknownKind k) \<Rightarrow> k = cc_Kind cc \<and> k \<notin> {[], ''fixed'', ''adaptive''}"
  by (auto simp: buildController_def controllerKindFixed_def controllerKindAdaptive_def
      NewFixedController_def min_le_iff_disj NewAdaptiveController_def Let_def)

definition readme_controller :: ControllerConfig where
  "readme_controller = \<lparr>cc_Kind = ''adaptive'', cc_Limit = 0, cc_MinConcurrency = 10,
     cc_InitialConcurrency = 0, cc_MaxConcurrency = 200, cc_TargetP95 = 800 * millisecond,
     cc_TimeoutRateThreshold = Fin 0, cc_ErrorRateThreshold = Fin 0, cc_AdjustInterval = 0\<rparr>"

lemma readme_example_refused: "buildController readme_controller = Inl ErrAdaptiveBounds"
  by (simp add: buildController_def readme_controller_def controllerKindAdaptive_def controllerKindFixed_def)

text \<open>
  C34: in whatever order handlers come and go, the registry names for a backend exactly the
  handler that was registered for it last and has not been cleaned up since: the cleanup of
  an older handler never removes the registration of the one that replaced it.
\<close>

theorem registry_names_live_handler:
  "registered (fold apps.run evs (app_Provision a)) b = Some h \<longleftrightarrow> live_registration evs b h"
  by (rule apps.names_live_handler) simp

text \<open>
  every request is counted once as received and once as rejected or admitted; a rejected
  one answers with its reason, logs it and leaves the scheduler alone; an admitted one whose
  handler returns gives its error back unchanged.
\<close>

theorem serve_counts_each_request_once:
  "let v = ServeHTTP M logger cfg vs wait qw run s in
    count_metric is_total (sv_metrics v) = 1
    \<and> count_metric is_rejected (sv_metrics v) + count_metric is_admitted (sv_metrics v) = 1
    \<and> (case sv_result v of
        TooManyRequests r \<Rightarrow> r \<noteq> RejectNone \<and> sv_scheduler v = s \<and> count_metric is_rejected (sv_metrics v) = 1
          \<and> length (sv_log v) = (if logger then 1 else 0)
      | NextReturned e \<Rightarrow> nr_result run = Returned e \<and> count_metric is_admitted (sv_metrics v) = 1
          \<and> length (sv_log v) = (if logger then 1 else 0)
      | NextPanicked \<Rightarrow> nr_result run = Panicked \<and> count_metric is_admitted (sv_metrics v) = 1 \<and> sv_log v = [])"
proof -
  obtain t r s1 where e: "Enqueue (score_of_vars vs) s = ((t, r), s1)" by (metis prod.exhaust)
  show ?thesis
  proof (cases t)
    case None
    then have "r \<noteq> RejectNone" "s1 = s" using e by (auto simp: Enqueue_def Let_def split: if_splits)
    then show ?thesis using e None by (simp add: ServeHTTP_def Let_def count_metric_def logDecision_def)
  next
    case (Some t')
    show ?thesis
    proof (cases "dispatch M (backendLabel cfg) run (s_controller (wait t' s1))")
      case None
      then have "nr_result run = Panicked" by (auto simp: dispatch_def Let_def split: next_result.splits prod.splits)
      then show ?thesis using e Some None by (simp add: ServeHTTP_def Let_def count_metric_def)
    next
      case d: (Some d)
      then have "nr_result run = Returned (dp_error d)"
        by (auto simp: dispatch_def Let_def split: next_result.splits prod.splits)
      then show ?thesis
        using e Some d dispatch_metrics [OF d] by (simp add: ServeHTTP_def Let_def count_metric_def logDecision_def)
    qed
  qed
qed

end
