(* ===== verification/Admission_Caddyfile.thy ===== *)
theory Admission_Caddyfile imports Caddyfile Admission begin

text \<open>
  The Caddyfile parser of the admission handler (\<^verbatim>\<open>UnmarshalCaddyfile\<close> and
  \<^verbatim>\<open>unmarshalController\<close> of \<^verbatim>\<open>adaptiveadmission/module.go\<close>). A failed parse discards the
  handler, so an error carries no configuration.
\<close>

section \<open>The controller block\<close>

text \<open>\<open>pd\<close> is \<^verbatim>\<open>caddy.ParseDuration\<close>, \<open>pf\<close> the part of \<^verbatim>\<open>ParseFloat\<close> outside the model.\<close>

definition controller_directive :: "(string \<Rightarrow> duration option) \<Rightarrow> (string \<Rightarrow> f64 option) \<Rightarrow> 'd dispenser \<Rightarrow> 'd \<Rightarrow> ControllerConfig
    \<Rightarrow> ('d, ControllerConfig) parsed" where
  "controller_directive pd pf D d c =
    (let v = dp_Val D d in
     if v = ''limit'' then set_parsed D d ParseInt v (\<lambda>n. c\<lparr>cc_Limit := n\<rparr>)
     else if v = ''min_concurrency'' then set_parsed D d ParseInt v (\<lambda>n. c\<lparr>cc_MinConcurrency := n\<rparr>)
     else if v = ''initial_concurrency'' then set_parsed D d ParseInt v (\<lambda>n. c\<lparr>cc_InitialConcurrency := n\<rparr>)
     else if v = ''max_concurrency'' then set_parsed D d ParseInt v (\<lambda>n. c\<lparr>cc_MaxConcurrency := n\<rparr>)
     else if v = ''target_p95'' then set_parsed D d pd v (\<lambda>t. c\<lparr>cc_TargetP95 := t\<rparr>)
     else if v = ''timeout_rate_threshold'' then set_parsed D d (ParseFloat pf) v (\<lambda>f. c\<lparr>cc_TimeoutRateThreshold := f\<rparr>)
     else if v = ''error_rate_threshold'' then set_parsed D d (ParseFloat pf) v (\<lambda>f. c\<lparr>cc_ErrorRateThreshold := f\<rparr>)
     else if v = ''adjust_interval'' then set_parsed D d pd v (\<lambda>t. c\<lparr>cc_AdjustInterval := t\<rparr>)
     else fail (Errf ''unrecognized controller subdirective'' [v]))"

definition unmarshalController :: "(string \<Rightarrow> duration option) \<Rightarrow> (string \<Rightarrow> f64 option) \<Rightarrow> nat \<Rightarrow> 'd dispenser \<Rightarrow> 'd
    \<Rightarrow> ControllerConfig \<Rightarrow> ('d, ControllerConfig) parsed" where
  "unmarshalController pd pf fuel D d c = with_args D d (\<lambda>d args.
     if length args \<noteq> 1 then fail ArgErr
     else let kind = hd args in
       if kind \<noteq> controllerKindFixed \<and> kind \<noteq> controllerKindAdaptive
       then fail (Errf ''unrecognized controller kind'' [kind, controllerKindFixed, controllerKindAdaptive])
       else block_loop fuel (dp_NextBlock D 1) (controller_directive pd pf D) d (c\<lparr>cc_Kind := kind\<rparr>))"

section \<open>The handler\<close>

definition admission_directive :: "(string \<Rightarrow> duration option) \<Rightarrow> (string \<Rightarrow> f64 option) \<Rightarrow> nat \<Rightarrow> 'd dispenser \<Rightarrow> 'd
    \<Rightarrow> AdmissionConfig \<Rightarrow> ('d, AdmissionConfig) parsed" where
  "admission_directive pd pf fuel D d h =
    (let v = dp_Val D d in
     if v = ''backend'' then set_string D d (\<lambda>s. h\<lparr>ad_Backend := s\<rparr>)
     else if v = ''controller'' then
       (case unmarshalController pd pf fuel D d (ad_Controller h) of
          None \<Rightarrow> None | Some (Inl e) \<Rightarrow> fail e | Some (Inr (d, c)) \<Rightarrow> accept d (h\<lparr>ad_Controller := c\<rparr>))
     else if v = ''queue_max_size'' then set_parsed D d ParseInt v (\<lambda>n. h\<lparr>ad_QueueMaxSize := n\<rparr>)
     else if v = ''queue_timeout'' then set_parsed D d pd v (\<lambda>t. h\<lparr>ad_QueueTimeout := t\<rparr>)
     else fail (Errf ''unrecognized adaptive_admission subdirective'' [v]))"

definition admission_UnmarshalCaddyfile :: "(string \<Rightarrow> duration option) \<Rightarrow> (string \<Rightarrow> f64 option) \<Rightarrow> nat \<Rightarrow> 'd dispenser \<Rightarrow> 'd
    \<Rightarrow> AdmissionConfig \<Rightarrow> ('d, AdmissionConfig) parsed" where
  "admission_UnmarshalCaddyfile pd pf fuel D =
    block_loop fuel (dp_Next D) (\<lambda>d h. block_loop fuel (dp_NextBlock D 0) (admission_directive pd pf fuel D) d h)"

definition zero_admission :: AdmissionConfig where
  "zero_admission = \<lparr>ad_Backend = [],
     ad_Controller = \<lparr>cc_Kind = [], cc_Limit = 0, cc_MinConcurrency = 0, cc_InitialConcurrency = 0,
       cc_MaxConcurrency = 0, cc_TargetP95 = 0, cc_TimeoutRateThreshold = Fin 0, cc_ErrorRateThreshold = Fin 0,
       cc_AdjustInterval = 0\<rparr>,
     ad_QueueMaxSize = 0, ad_QueueTimeout = 0\<rparr>"

definition admission_parseCaddyfile :: "(string \<Rightarrow> duration option) \<Rightarrow> (string \<Rightarrow> f64 option) \<Rightarrow> nat \<Rightarrow> 'd dispenser \<Rightarrow> 'd
    \<Rightarrow> ('d, AdmissionConfig) parsed" where
  "admission_parseCaddyfile pd pf fuel D d = admission_UnmarshalCaddyfile pd pf fuel D d zero_admission"

section \<open>What it accepts\<close>

text \<open>A kind is absent or one of the two; an integer option fits in 64 bits.\<close>

definition controller_parsed :: "ControllerConfig \<Rightarrow> bool" where
  "controller_parsed c \<longleftrightarrow> (cc_Kind c = [] \<or> cc_Kind c = controllerKindFixed \<or> cc_Kind c = controllerKindAdaptive)
    \<and> in_int64 (cc_Limit c) \<and> in_int64 (cc_MinConcurrency c) \<and> in_int64 (cc_InitialConcurrency c) \<and> in_int64 (cc_MaxConcurrency c)"

definition admission_parsed :: "AdmissionConfig \<Rightarrow> bool" where
  "admission_parsed h \<longleftrightarrow> controller_parsed (ad_Controller h) \<and> in_int64 (ad_QueueMaxSize h)"

lemma ParseInt_in_int64: "ParseInt s = Some n \<Longrightarrow> in_int64 n"
  by (auto simp: ParseInt_def Let_def split: if_splits prod.splits)

lemma controller_directive_parsed:
  "controller_parsed c \<Longrightarrow> all_parsed controller_parsed (controller_directive pd pf D d c)"
  unfolding controller_directive_def Let_def
  by (intro parsed_ok) (auto simp: controller_parsed_def dest: ParseInt_in_int64)

lemma unmarshalController_parsed:
  "controller_parsed c \<Longrightarrow> all_parsed controller_parsed (unmarshalController pd pf fuel D d c)"
  unfolding unmarshalController_def Let_def
  by (intro parsed_ok controller_directive_parsed) (auto simp: controller_parsed_def)

lemma admission_directive_parsed:
  assumes "admission_parsed h"
  shows "all_parsed admission_parsed (admission_directive pd pf fuel D d h)"
proof -
  have "all_parsed controller_parsed (unmarshalController pd pf fuel D d (ad_Controller h))"
    using assms by (intro unmarshalController_parsed) (simp add: admission_parsed_def)
  then have c: "all_parsed admission_parsed (case unmarshalController pd pf fuel D d (ad_Controller h) of
      None \<Rightarrow> None | Some (Inl e) \<Rightarrow> fail e | Some (Inr (d, c)) \<Rightarrow> accept d (h\<lparr>ad_Controller := c\<rparr>))"
    using assms by (auto simp: all_parsed_def accept_def fail_def admission_parsed_def split: option.splits sum.splits)
  show ?thesis
    unfolding admission_directive_def Let_def using assms
    by (intro parsed_ok c) (auto simp: admission_parsed_def dest: ParseInt_in_int64)
qed

lemma admission_settles:
  assumes "consumes left D" "left d < fuel"
  shows "settles left (left d) (admission_UnmarshalCaddyfile pd pf fuel D d h)"
proof -
  have c: "settles left k (unmarshalController pd pf fuel D d c)" if "left d \<le> k" "k < fuel" for d c k
    unfolding unmarshalController_def controller_directive_def Let_def
    by (intro settled that assms(1))
  have "settles left k (case unmarshalController pd pf fuel D d (ad_Controller h) of
      None \<Rightarrow> None | Some (Inl e) \<Rightarrow> fail e | Some (Inr (d, c)) \<Rightarrow> accept d (h\<lparr>ad_Controller := c\<rparr>))"
    if "left d \<le> k" "k < fuel" for d h k
    using c [OF that, of "ad_Controller h"] by (auto simp: settles_def accept_def fail_def split: option.splits sum.splits)
  then show ?thesis
    unfolding admission_UnmarshalCaddyfile_def admission_directive_def Let_def
    by (intro settled assms le_refl)
qed

text \<open>
  C33: parsing an \<^verbatim>\<open>adaptive_admission\<close> block always ends, and an accepted block fails to build its
  controller only for a bound that is missing or not positive: the kind of its controller is always known, and
  every bound fits in 64 bits.
\<close>

theorem accepted_admission_block_fails_only_on_bounds:
  assumes "consumes left D" "left d < fuel"
  shows "case admission_UnmarshalCaddyfile pd pf fuel D d zero_admission of
      None \<Rightarrow> False
    | Some (Inl e) \<Rightarrow> True
    | Some (Inr (d', cfg)) \<Rightarrow> controller_parsed (ad_Controller cfg)
        \<and> (case buildController (ad_Controller cfg) of
             Inr c \<Rightarrow> c_kind c = (if cc_Kind (ad_Controller cfg) = controllerKindAdaptive then ControllerAdaptive else ControllerFixed)
           | Inl ErrFixedLimit \<Rightarrow> cc_Kind (ad_Controller cfg) \<noteq> controllerKindAdaptive \<and> cc_Limit (ad_Controller cfg) \<le> 0
           | Inl ErrAdaptiveBounds \<Rightarrow> cc_Kind (ad_Controller cfg) = controllerKindAdaptive
               \<and> (cc_MinConcurrency (ad_Controller cfg) \<le> 0 \<or> cc_InitialConcurrency (ad_Controller cfg) \<le> 0
                 \<or> cc_MaxConcurrency (ad_Controller cfg) \<le> 0)
           | Inl (ErrUnknownKind k) \<Rightarrow> False)"
proof (cases "admission_UnmarshalCaddyfile pd pf fuel D d zero_admission")
  case None
  then show ?thesis using settles_not_None [OF admission_settles [OF assms]] by metis
next
  case (Some r)
  show ?thesis
  proof (cases r)
    case (Inr p)
    obtain d' cfg where p: "p = (d', cfg)" by (cases p)
    have "admission_parsed zero_admission"
      by (simp add: admission_parsed_def controller_parsed_def zero_admission_def in_int64_def)
    then have "all_parsed admission_parsed (admission_UnmarshalCaddyfile pd pf fuel D d zero_admission)"
      unfolding admission_UnmarshalCaddyfile_def by (intro parsed_ok admission_directive_parsed)
    then have c: "controller_parsed (ad_Controller cfg)"
      using Some Inr p by (auto simp: all_parsed_def admission_parsed_def)
    have k: "controllerKindFixed \<noteq> controllerKindAdaptive" "[] \<noteq> controllerKindAdaptive"
      by (simp_all add: controllerKindFixed_def controllerKindAdaptive_def)
    consider "cc_Kind (ad_Controller cfg) = controllerKindAdaptive"
      | "cc_Kind (ad_Controller cfg) \<noteq> controllerKindAdaptive" "cc_Kind (ad_Controller cfg) = [] \<or> cc_Kind (ad_Controller cfg) = controllerKindFixed"
      using c by (auto simp: controller_parsed_def)
    then show ?thesis
      by cases (use Some Inr p c k in \<open>auto simp: buildController_def NewFixedController_def NewAdaptiveController_def Let_def\<close>)
  qed (simp add: Some)
qed

definition demo_admission_tokens :: "token list" where
  "demo_admission_tokens = [TName ''adaptive_admission'',
     TEntry 0 ''controller'', TArg ''fixed'', TEntry 1 ''limit'', TArg ''3'', TEntry 0 ''queue_max_size'', TArg ''4'']"

theorem accepted_admission_block_fails_only_on_bounds_witness:
  "\<exists>d cfg. admission_UnmarshalCaddyfile (\<lambda>_. None) (\<lambda>_. None) 8 token_dispenser ([], demo_admission_tokens) zero_admission = Some (Inr (d, cfg))
    \<and> controller_parsed (ad_Controller cfg) \<and> ad_QueueMaxSize cfg = 4"
proof -
  let ?r = "admission_UnmarshalCaddyfile (\<lambda>_. None) (\<lambda>_. None) 8 token_dispenser ([], demo_admission_tokens) zero_admission"
  have "case ?r of Some (Inr (d, cfg)) \<Rightarrow> ad_QueueMaxSize cfg = 4 | _ \<Rightarrow> False" by code_simp
  then obtain d cfg where r: "?r = Some (Inr (d, cfg))" "ad_QueueMaxSize cfg = 4" by (auto split: option.splits sum.splits)
  have "(case ([], demo_admission_tokens) of (v, ts) \<Rightarrow> length ts) < (8 :: nat)" by (simp add: demo_admission_tokens_def)
  from accepted_admission_block_fails_only_on_bounds [OF token_dispenser_consumes this, of "\<lambda>_. None" "\<lambda>_. None"]
  have "controller_parsed (ad_Controller cfg)" unfolding r(1) by (simp only: option.case sum.case prod.case)
  then show ?thesis using r by blast
qed

end
