(* ===== verification/Net_IP.thy ===== *)
theory Net_IP imports Go_Strings begin

text \<open>
  What the classifier uses of Go's \<^verbatim>\<open>net\<close> and \<^verbatim>\<open>net/netip\<close> packages: parsing an address,
  the two textual forms, masking to a prefix, and splitting a host from a port.

  A \<^verbatim>\<open>net.IP\<close> as \<^verbatim>\<open>net.ParseIP\<close> returns it has 16 bytes, the \<open>128 word\<close> here; an
  IPv4 address is the one with the prefix \<^verbatim>\<open>::ffff:0:0/96\<close>.
\<close>

type_synonym ip_addr = "128 word"

definition To4 :: "ip_addr \<Rightarrow> 32 word option" where
  "To4 ip = (if drop_bit 32 ip = mask 16 then Some (ucast ip) else None)"

definition of_v4 :: "32 word \<Rightarrow> ip_addr" where
  "of_v4 a = or (push_bit 32 (mask 16)) (ucast a)"

section \<open>Printing\<close>

definition octet :: "nat \<Rightarrow> 32 word \<Rightarrow> nat" where
  "octet k a = unat (take_bit 8 (drop_bit (8 * k) a))"

definition v4_string :: "32 word \<Rightarrow> string" where
  "v4_string a = join CHR ''.'' (map (\<lambda>k. dec_nat (octet k a)) [3, 2, 1, 0])"

definition hex_digit :: "nat \<Rightarrow> char" where
  "hex_digit d = ''0123456789abcdef'' ! (d mod 16)"

fun hex_nat :: "nat \<Rightarrow> string" where
  "hex_nat n = (if n < 16 then [hex_digit n] else hex_nat (n div 16) @ [hex_digit n])"

declare hex_nat.simps [simp del]

definition group :: "nat \<Rightarrow> ip_addr \<Rightarrow> nat" where
  "group k ip = unat (take_bit 16 (drop_bit (16 * k) ip))"

definition groups :: "ip_addr \<Rightarrow> nat list" where
  "groups ip = map (\<lambda>k. group k ip) [7, 6, 5, 4, 3, 2, 1, 0]"

text \<open>The first longest run of at least two zero groups, as its start and end.\<close>

definition zero_run :: "nat list \<Rightarrow> (nat \<times> nat) option" where
  "zero_run gs = fold (\<lambda>i best.
     let l = length (takeWhile (\<lambda>g. g = 0) (drop i gs)) in
     if 2 \<le> l \<and> (case best of None \<Rightarrow> True | Some (s, e) \<Rightarrow> e - s < l) then Some (i, i + l) else best)
     [0..<length gs] None"

definition v6_string :: "ip_addr \<Rightarrow> string" where
  "v6_string ip =
    (let gs = map hex_nat (groups ip) in
     case zero_run (groups ip) of
       None \<Rightarrow> join CHR '':'' gs
     | Some (s, e) \<Rightarrow> join CHR '':'' (take s gs) @ ''::'' @ join CHR '':'' (drop e gs))"

definition IP_String :: "ip_addr \<Rightarrow> string" where
  "IP_String ip = (case To4 ip of Some a \<Rightarrow> v4_string a | None \<Rightarrow> v6_string ip)"

text \<open>\<^verbatim>\<open>netip.PrefixFrom(addr, n).Masked().String()\<close> for the two families.\<close>

definition mask_v4 :: "nat \<Rightarrow> 32 word \<Rightarrow> 32 word" where
  "mask_v4 n a = push_bit (32 - n) (drop_bit (32 - n) a)"

definition mask_v6 :: "nat \<Rightarrow> ip_addr \<Rightarrow> ip_addr" where
  "mask_v6 n a = push_bit (128 - n) (drop_bit (128 - n) a)"

section \<open>Parsing\<close>

definition parse_octet :: "string \<Rightarrow> nat option" where
  "parse_octet s =
    (if s \<noteq> [] \<and> list_all is_digit s \<and> (length s = 1 \<or> hd s \<noteq> CHR ''0'') \<and> digits_val s \<le> 255
     then Some (digits_val s) else None)"

definition parse_v4_fields :: "string \<Rightarrow> nat list option" where
  "parse_v4_fields s =
    (let ps = map parse_octet (strings_Split CHR ''.'' s) in
     if length ps = 4 \<and> None \<notin> set ps then Some (map the ps) else None)"

definition hex_val :: "char \<Rightarrow> nat option" where
  "hex_val c = (let n = (of_char c :: nat) in
     if 48 \<le> n \<and> n \<le> 57 then Some (n - 48)
     else if 97 \<le> n \<and> n \<le> 102 then Some (n - 87)
     else if 65 \<le> n \<and> n \<le> 70 then Some (n - 55) else None)"

abbreviation is_hex :: "char \<Rightarrow> bool" where
  "is_hex c \<equiv> hex_val c \<noteq> None"

lemma dropWhile_shorter: "dropWhile P s = c # cs \<Longrightarrow> length cs < length s"
  using length_dropWhile_le [of P s] by simp

text \<open>
  The group loop of \<^verbatim>\<open>netip.parseIPv6\<close>: the rest of the text, the bytes so far and the place
  of the ellipsis.
\<close>

function parse_v6_loop :: "string \<Rightarrow> nat list \<Rightarrow> nat option \<Rightarrow> (nat list \<times> nat option) option" where
  "parse_v6_loop s bs ell =
    (let h = takeWhile is_hex s; r = dropWhile is_hex s in
     if 16 \<le> length bs \<or> h = [] \<or> 4 < length h then None
     else case r of
       [] \<Rightarrow> let v = foldl (\<lambda>v c. 16 * v + the (hex_val c)) 0 h in Some (bs @ [v div 256, v mod 256], ell)
     | c # cs \<Rightarrow>
         if c = CHR ''.'' then
           if ell = None \<and> length bs \<noteq> 12 \<or> 12 < length bs then None
           else map_option (\<lambda>fs. (bs @ fs, ell)) (parse_v4_fields s)
         else if c \<noteq> CHR '':'' \<or> cs = [] then None
         else
           let v = foldl (\<lambda>v c. 16 * v + the (hex_val c)) 0 h; bs = bs @ [v div 256, v mod 256] in
           if hd cs = CHR '':'' then
             if ell \<noteq> None then None
             else if tl cs = [] then Some (bs, Some (length bs))
             else parse_v6_loop (tl cs) bs (Some (length bs))
           else parse_v6_loop cs bs ell)"
  by pat_completeness auto
termination
  by (relation "measure (\<lambda>(s, _, _). length s)") (auto dest: dropWhile_shorter [OF sym])

declare parse_v6_loop.simps [simp del]

definition parse_v6 :: "string \<Rightarrow> nat list option" where
  "parse_v6 s =
    (if take 2 s = ''::'' \<and> length s = 2 then Some (replicate 16 0)
     else case (if take 2 s = ''::'' then parse_v6_loop (drop 2 s) [] (Some 0) else parse_v6_loop s [] None) of
       None \<Rightarrow> None
     | Some (bs, ell) \<Rightarrow>
         if length bs < 16 then
           (case ell of None \<Rightarrow> None
            | Some e \<Rightarrow> Some (take e bs @ replicate (16 - length bs) 0 @ drop e bs))
         else if ell = None then Some bs else None)"

definition word_of_bytes :: "nat list \<Rightarrow> 'a::len word" where
  "word_of_bytes bs = foldl (\<lambda>v b. 256 * v + of_nat b) 0 bs"

text \<open>
  \<^verbatim>\<open>net.ParseIP\<close>: the first of the characters dot, colon and percent decides. An address
  with a zone (a percent sign) is refused.
\<close>

definition ParseIP :: "string \<Rightarrow> ip_addr option" where
  "ParseIP s =
    (case find (\<lambda>c. c \<in> set ''.:%'') s of
       None \<Rightarrow> None
     | Some c \<Rightarrow>
         if c = CHR ''.'' then map_option (\<lambda>fs. of_v4 (word_of_bytes fs)) (parse_v4_fields s)
         else if c = CHR '':'' then
           if CHR ''%'' \<in> set s then None else map_option word_of_bytes (parse_v6 s)
         else None)"

text \<open>\<^verbatim>\<open>net.SplitHostPort\<close>: the host, or \<open>None\<close> for an error.\<close>

definition SplitHostPort :: "string \<Rightarrow> string option" where
  "SplitHostPort hp =
    (if CHR '':'' \<notin> set hp then None
     else
       let port = rev (takeWhile (\<lambda>c. c \<noteq> CHR '':'') (rev hp));
           i = length hp - length port - 1
       in if hd hp = CHR ''['' then
            (let e = length (takeWhile (\<lambda>c. c \<noteq> CHR '']'') hp) in
             if e = length hp \<or> e + 1 \<noteq> i then None
             else if CHR ''['' \<in> set (drop 1 hp) \<or> CHR '']'' \<in> set (drop (e + 1) hp) then None
             else Some (take (e - 1) (drop 1 hp)))
          else
            (let host = take i hp in
             if CHR '':'' \<in> set host \<or> CHR ''['' \<in> set hp \<or> CHR '']'' \<in> set hp then None else Some host))"

section \<open>Addresses and their text\<close>

lemma octet_bit: "n < 32 \<Longrightarrow> bit (a :: 32 word) n = bit (take_bit 8 (drop_bit (8 * (n div 8)) a)) (n mod 8)"
  by (auto simp: bit_simps)

lemma octets_eq: "(\<forall>k < 4. octet k a = octet k b) \<Longrightarrow> a = b"
proof (rule bit_word_eqI)
  fix n assume *: "\<forall>k < 4. octet k a = octet k b" "n < LENGTH(32)"
  then have "n div 8 < 4" by simp
  then have "take_bit 8 (drop_bit (8 * (n div 8)) a) = take_bit 8 (drop_bit (8 * (n div 8)) b)"
    using *(1) by (auto simp: octet_def word_unat_eq_iff)
  then show "bit a n = bit b n" using *(2) octet_bit [of n a] octet_bit [of n b] by simp
qed

lemma octet_le: "octet k a \<le> 255"
proof -
  have "octet k a = take_bit 8 (unat (drop_bit (8 * k) a))" by (simp add: octet_def unsigned_take_bit_eq)
  also have "\<dots> < 2 ^ 8" by (rule take_bit_nat_less_exp)
  finally show ?thesis by simp
qed

lemma To4_of_v4 [simp]: "To4 (of_v4 a) = Some a"
proof -
  have "drop_bit 32 (of_v4 a) = mask 16"
    by (rule bit_word_eqI) (auto simp: of_v4_def bit_simps dest: bit_imp_le_length)
  moreover have "ucast (of_v4 a) = a"
    by (rule bit_word_eqI) (auto simp: of_v4_def bit_simps)
  ultimately show ?thesis by (simp add: To4_def)
qed

lemma To4_SomeD: "To4 ip = Some a \<Longrightarrow> ip = of_v4 a"
proof (rule bit_word_eqI)
  fix n assume To4: "To4 ip = Some a" and n: "n < LENGTH(128)"
  have a: "a = ucast ip" "drop_bit 32 ip = mask 16" using To4 by (auto simp: To4_def split: if_splits)
  have "bit (drop_bit 32 ip) (n - 32) = bit (mask 16 :: 128 word) (n - 32)" by (simp add: a(2))
  then show "bit ip n = bit (of_v4 a) n"
    using n by (cases "n < 32") (auto simp: of_v4_def a(1) bit_simps)
qed

lemma mask_v4_eq: "mask_v4 24 a = mask_v4 24 b \<longleftrightarrow> drop_bit 8 a = drop_bit 8 b"
proof
  assume "mask_v4 24 a = mask_v4 24 b"
  then have "drop_bit 8 (mask_v4 24 a) = drop_bit 8 (mask_v4 24 b)" by simp
  moreover have "drop_bit 8 (mask_v4 24 x) = drop_bit 8 x" for x
    by (rule bit_word_eqI) (auto simp: mask_v4_def bit_simps dest: bit_imp_le_length)
  ultimately show "drop_bit 8 a = drop_bit 8 b" by simp
qed (simp add: mask_v4_def)

lemma join_inject:
  assumes "length ps = length qs" "ps \<noteq> []" "\<forall>p \<in> set ps. sep \<notin> set p" "\<forall>q \<in> set qs. sep \<notin> set q"
  shows "join sep ps = join sep qs \<longleftrightarrow> ps = qs"
proof
  assume "join sep ps = join sep qs"
  moreover have "qs \<noteq> []" using assms(1,2) by auto
  ultimately show "ps = qs" using strings_Split_join [of ps sep] strings_Split_join [of qs sep] assms(2-4) by metis
qed simp

lemma dec_nat_no_dot: "CHR ''.'' \<notin> set (dec_nat n)"
  using dec_nat_digits [of n] by (auto simp: list_all_iff is_digit_def)

lemma v4_string_inject: "v4_string a = v4_string b \<longleftrightarrow> a = b"
proof
  assume "v4_string a = v4_string b"
  then have "map (\<lambda>k. dec_nat (octet k a)) [3, 2, 1, 0] = map (\<lambda>k. dec_nat (octet k b)) [3, 2, 1, 0]"
    unfolding v4_string_def by (subst (asm) join_inject) (auto simp: dec_nat_no_dot)
  then have "octet 3 a = octet 3 b \<and> octet 2 a = octet 2 b \<and> octet 1 a = octet 1 b \<and> octet 0 a = octet 0 b"
    by (simp add: dec_nat_inject)
  then have "\<forall>k < 4. octet k a = octet k b" by (auto simp: less_Suc_eq numeral_eq_Suc)
  then show "a = b" by (rule octets_eq)
qed simp

lemma dec_nat_hd_pos: "0 < n \<Longrightarrow> hd (dec_nat n) \<noteq> CHR ''0''"
proof (induction n rule: dec_nat.induct)
  case (1 n)
  show ?case
  proof (cases "n < 10")
    case True
    have "digit_char n \<noteq> CHR ''0''"
    proof
      assume "digit_char n = CHR ''0''"
      then have "digit_val (digit_char n) = digit_val CHR ''0''" by simp
      then show False using True 1(2) by (simp add: digit_val_def [of "CHR ''0''"])
    qed
    then show ?thesis using True by (subst dec_nat.simps) simp
  next
    case False
    then show ?thesis using 1 by (subst dec_nat.simps) simp
  qed
qed

lemma parse_octet_dec_nat: "n \<le> 255 \<Longrightarrow> parse_octet (dec_nat n) = Some n"
proof -
  have "length (dec_nat 0) = 1" by (simp add: dec_nat.simps [of 0])
  then show "n \<le> 255 \<Longrightarrow> ?thesis"
    using dec_nat_hd_pos [of n] dec_nat_digits [of n] by (cases "n = 0") (auto simp: parse_octet_def)
qed

lemma word_of_octets: "word_of_bytes [octet 3 a, octet 2 a, octet 1 a, octet 0 a] = a"
proof -
  let ?n = "octet 3 a * 2 ^ 24 + octet 2 a * 2 ^ 16 + octet 1 a * 2 ^ 8 + octet 0 a"
  have e: "unat a = ?n"
  proof -
    have o: "octet k a = unat a div 2 ^ (8 * k) mod 256" for k
    proof -
      have "take_bit 32 (unat a) = unat a" using unsigned_less [of a] by (intro take_bit_nat_eq_self) simp
      then have "octet k a = take_bit 8 (drop_bit (8 * k) (unat a))"
        by (simp add: octet_def unsigned_take_bit_eq unsigned_drop_bit_eq)
      then show ?thesis by (simp add: take_bit_eq_mod drop_bit_eq_div)
    qed
    define x1 x2 x3 where "x1 = unat a div 256" and "x2 = x1 div 256" and "x3 = x2 div 256"
    have "octet 0 a = unat a mod 256" "octet 1 a = x1 mod 256" "octet 2 a = x2 mod 256" "octet 3 a = x3 mod 256"
      unfolding o x1_def x2_def x3_def by (simp_all flip: div_mult2_eq)
    moreover have "unat a = 256 * x1 + unat a mod 256" "x1 = 256 * x2 + x1 mod 256" "x2 = 256 * x3 + x2 mod 256"
      by (simp_all add: x1_def x2_def x3_def)
    moreover have "x3 < 256"
    proof -
      have "unat a < 256 * (256 * (256 * 256))" using unsigned_less [of a] by simp
      then show ?thesis unfolding x1_def x2_def x3_def by (simp add: less_mult_imp_div_less)
    qed
    ultimately show ?thesis by simp
  qed
  have "word_of_bytes [octet 3 a, octet 2 a, octet 1 a, octet 0 a] = (of_nat ?n :: 32 word)"
    by (simp add: word_of_bytes_def algebra_simps)
  also have "\<dots> = of_nat (unat a)" by (simp only: e)
  also have "\<dots> = a" by simp
  finally show ?thesis .
qed

lemma ParseIP_v4_string: "ParseIP (v4_string a) = Some (of_v4 a)"
proof -
  let ?ps = "map (\<lambda>k. dec_nat (octet k a)) [3, 2, 1, 0]"
  have "strings_Split CHR ''.'' (v4_string a) = ?ps"
    unfolding v4_string_def by (rule strings_Split_join) (auto simp: dec_nat_no_dot)
  then have fields: "parse_v4_fields (v4_string a) = Some [octet 3 a, octet 2 a, octet 1 a, octet 0 a]"
    by (simp add: parse_v4_fields_def parse_octet_dec_nat octet_le)
  have str: "v4_string a = dec_nat (octet 3 a) @ CHR ''.'' # join CHR ''.'' (map (\<lambda>k. dec_nat (octet k a)) [2, 1, 0])"
    by (simp add: v4_string_def)
  have none: "find (\<lambda>c. c \<in> set ''.:%'') (dec_nat n) = None" for n
    using dec_nat_digits [of n] by (auto simp: find_None_iff list_all_iff is_digit_def)
  have "find P (xs @ ys) = (case find P xs of None \<Rightarrow> find P ys | Some x \<Rightarrow> Some x)" for P :: "char \<Rightarrow> bool" and xs ys
    by (induction xs) auto
  then have "find (\<lambda>c. c \<in> set ''.:%'') (v4_string a) = Some CHR ''.''"
    unfolding str using none [of "octet 3 a"] by simp
  then show ?thesis by (simp add: ParseIP_def fields word_of_octets [simplified])
qed

lemma groups_length [simp]: "length (groups ip) = 8"
  by (simp add: groups_def)

end
