(* ===== verification/Fairness_Config.thy ===== *)
theory Fairness_Config imports Go_Strings begin

text \<open>
  The data every part of the fairness handler shares: its configuration
  (\<^verbatim>\<open>fairness/config.go\<close>, the session cookie's part from \<^verbatim>\<open>session.go\<close>), the user classes
  and the \<open>Classification\<close> of a request (\<^verbatim>\<open>fairness/classify.go\<close>).
\<close>

section \<open>User classes and classifications\<close>

type_synonym UserClass = string

definition UserClassAnonymous :: UserClass where "UserClassAnonymous = ''anonymous''"
definition UserClassResearcher :: UserClass where "UserClassResearcher = ''researcher''"
definition UserClassServiceAccount :: UserClass where "UserClassServiceAccount = ''service_account''"
definition UserClassInternal :: UserClass where "UserClassInternal = ''internal''"
definition UserClassUnknown :: UserClass where "UserClassUnknown = ''unknown''"
definition UserClassHumanVerified :: UserClass where "UserClassHumanVerified = ''human_verified''"

lemmas user_class_defs = UserClassAnonymous_def UserClassResearcher_def UserClassServiceAccount_def
  UserClassInternal_def UserClassUnknown_def UserClassHumanVerified_def

definition validClaimedUserClasses :: "UserClass \<Rightarrow> bool" where
  "validClaimedUserClasses uc \<longleftrightarrow> uc = UserClassResearcher \<or> uc = UserClassServiceAccount \<or> uc = UserClassInternal"

lemma user_classes_distinct [simp]:
  "UserClassAnonymous \<noteq> UserClassUnknown" "UserClassUnknown \<noteq> UserClassAnonymous"
  "UserClassHumanVerified \<noteq> UserClassUnknown" "UserClassUnknown \<noteq> UserClassHumanVerified"
  "UserClassHumanVerified \<noteq> UserClassAnonymous" "UserClassAnonymous \<noteq> UserClassHumanVerified"
  "\<not> validClaimedUserClasses UserClassUnknown" "\<not> validClaimedUserClasses UserClassAnonymous"
  "\<not> validClaimedUserClasses UserClassHumanVerified"
  by (simp_all add: validClaimedUserClasses_def user_class_defs)

record Classification =
  cl_IP :: string
  cl_Net24 :: string
  cl_NetV6 :: string
  cl_ASN :: "64 word"
  cl_Country :: string
  cl_UserClass :: UserClass
  cl_UserID :: string

section \<open>Configuration\<close>

record SessionKey =
  sk_KID :: string
  sk_File :: string

record SessionCookieConfig =
  scc_Mode :: string
  scc_Name :: string
  scc_TTL :: duration
  scc_Keys :: "SessionKey list"

record FairnessConfig =
  fc_Backend :: string
  fc_GeoIPCityDB :: string
  fc_GeoIPASNDB :: string
  fc_AuthIssuer :: string
  fc_AuthJWKSURL :: string
  fc_AuthAudience :: string
  fc_IPv6PrefixLength :: go_int
  fc_EWMATickInterval :: duration
  fc_IdleEntryTTL :: duration
  fc_SessionCookie :: "SessionCookieConfig option"

definition defaultIPv6PrefixLength :: go_int where "defaultIPv6PrefixLength = 56"
definition defaultEWMATickInterval :: duration where "defaultEWMATickInterval = 1 * second"
definition defaultIdleEntryTTL :: duration where "defaultIdleEntryTTL = 10 * minute"

text \<open>A nil configuration is \<open>None\<close>; every accessor is safe on it.\<close>

definition fairness_backendLabel :: "FairnessConfig option \<Rightarrow> string" where
  "fairness_backendLabel c =
    (case c of None \<Rightarrow> ''default'' | Some c \<Rightarrow> if fc_Backend c = [] then ''default'' else fc_Backend c)"

definition ipv6PrefixLength :: "FairnessConfig option \<Rightarrow> go_int" where
  "ipv6PrefixLength c =
    (case c of None \<Rightarrow> defaultIPv6PrefixLength
     | Some c \<Rightarrow> if fc_IPv6PrefixLength c = 0 then defaultIPv6PrefixLength else fc_IPv6PrefixLength c)"

definition ewmaTickInterval :: "FairnessConfig option \<Rightarrow> duration" where
  "ewmaTickInterval c =
    (case c of None \<Rightarrow> defaultEWMATickInterval
     | Some c \<Rightarrow> if fc_EWMATickInterval c \<le> 0 then defaultEWMATickInterval else fc_EWMATickInterval c)"

definition idleEntryTTL :: "FairnessConfig option \<Rightarrow> duration" where
  "idleEntryTTL c =
    (case c of None \<Rightarrow> defaultIdleEntryTTL
     | Some c \<Rightarrow> if fc_IdleEntryTTL c \<le> 0 then defaultIdleEntryTTL else fc_IdleEntryTTL c)"

end
