(* ===== verification/Classify.thy ===== *)
theory Classify imports Net_IP Fairness_Config begin

text \<open>
  Who a request comes from: the client address and its subnet bucket (\<^verbatim>\<open>classify.go\<close>), the
  GeoIP lookup (\<^verbatim>\<open>geoip.go\<close>) and the bearer token (\<^verbatim>\<open>auth.go\<close>).

  The GeoIP databases and the JWT library are parameters: \<open>country_db\<close> and \<open>asn_db\<close> give what an
  open reader (a number) answers for an address, \<open>None\<close> for an error or no data; \<open>jwt_parse\<close>
  gives the claims of a token that parses and is valid under the options, \<open>None\<close> otherwise.
\<close>

section \<open>Subnet buckets and the client address\<close>

definition bucketIPv4 :: "ip_addr option \<Rightarrow> string" where
  "bucketIPv4 ip =
    (case Option.bind ip To4 of None \<Rightarrow> [] | Some a \<Rightarrow> v4_string (mask_v4 24 a) @ ''/24'')"

definition bucketIPv6 :: "ip_addr option \<Rightarrow> go_int \<Rightarrow> string" where
  "bucketIPv6 ip prefixLen =
    (case ip of None \<Rightarrow> []
     | Some a \<Rightarrow>
         if To4 a \<noteq> None then []
         else if prefixLen < 0 \<or> 128 < prefixLen then []
         else v6_string (mask_v6 (nat prefixLen) a) @ ''/'' @ FormatInt prefixLen)"

record http_request =
  rq_client_ip :: "string option"
  rq_RemoteAddr :: string
  rq_Authorization :: string
  rq_cookies :: "(string \<times> string) list"
  rq_query :: "(string, string list) gomap"

definition resolveClientIP :: "http_request \<Rightarrow> ip_addr option" where
  "resolveClientIP r =
    (let resolved = (case rq_client_ip r of None \<Rightarrow> None | Some s \<Rightarrow> if s \<noteq> [] then ParseIP s else None) in
     case resolved of
       Some ip \<Rightarrow> Some ip
     | None \<Rightarrow>
         let host = (case SplitHostPort (rq_RemoteAddr r) of None \<Rightarrow> rq_RemoteAddr r | Some h \<Rightarrow> h)
         in ParseIP (fst (strings_Cut CHR ''%'' host)))"

section \<open>GeoIP\<close>

text \<open>A \<^verbatim>\<open>*geoReader\<close>: absent, or with the open database if opening it succeeded.\<close>

record geoReader =
  gr_reader :: "nat option"

record geoLookup =
  gl_city :: "geoReader option"
  gl_asn :: "geoReader option"

definition openGeoReader :: "(string \<Rightarrow> nat option) \<Rightarrow> string \<Rightarrow> geoReader" where
  "openGeoReader open_db path = \<lparr>gr_reader = open_db path\<rparr>"

definition reader_of :: "geoReader option \<Rightarrow> nat option" where
  "reader_of g = Option.bind g gr_reader"

datatype netip_addr = Addr4 "32 word" | Addr6 ip_addr

record geo_dbs =
  gd_country :: "nat \<Rightarrow> netip_addr \<Rightarrow> string option"
  gd_asn :: "nat \<Rightarrow> netip_addr \<Rightarrow> 64 word option"

definition lookup :: "geo_dbs \<Rightarrow> geoLookup option \<Rightarrow> ip_addr option \<Rightarrow> 64 word \<times> string" where
  "lookup D g ip =
    (case (g, ip) of
       (Some g, Some ip) \<Rightarrow>
         let addr = (case To4 ip of Some a \<Rightarrow> Addr4 a | None \<Rightarrow> Addr6 ip);
             country = (case reader_of (gl_city g) of None \<Rightarrow> []
               | Some db \<Rightarrow> (case gd_country D db addr of None \<Rightarrow> [] | Some cc \<Rightarrow> cc));
             asn = (case reader_of (gl_asn g) of None \<Rightarrow> 0
               | Some db \<Rightarrow> (case gd_asn D db addr of None \<Rightarrow> 0 | Some n \<Rightarrow> n))
         in (asn, country)
     | _ \<Rightarrow> (0, []))"

section \<open>Bearer tokens\<close>

record verifier =
  vf_kf :: "nat option"
  vf_issuer :: string
  vf_audience :: string

datatype jwt_option = WithValidMethods "string list" | WithIssuer string | WithAudience string

record authClaims =
  ac_UserClass :: string
  ac_Subject :: string

type_synonym jwt_lib = "nat \<Rightarrow> jwt_option list \<Rightarrow> string \<Rightarrow> authClaims option"

definition bearerToken :: "string \<Rightarrow> string" where
  "bearerToken h =
    (let prefix = ''Bearer '' in
     if length h \<le> length prefix \<or> map lower (take (length prefix) h) \<noteq> map lower prefix then []
     else TrimSpace (drop (length prefix) h))"

definition parser_options :: "verifier \<Rightarrow> jwt_option list" where
  "parser_options v = [WithValidMethods [''RS256'']]
     @ (if vf_issuer v \<noteq> [] then [WithIssuer (vf_issuer v)] else [])
     @ (if vf_audience v \<noteq> [] then [WithAudience (vf_audience v)] else [])"

definition authenticate :: "jwt_lib \<Rightarrow> verifier option \<Rightarrow> http_request \<Rightarrow> UserClass \<times> string" where
  "authenticate jwt_parse v r =
    (let token = bearerToken (rq_Authorization r) in
     if token = [] then (UserClassAnonymous, [])
     else case v of
       None \<Rightarrow> (UserClassAnonymous, [])
     | Some v \<Rightarrow> (case vf_kf v of
         None \<Rightarrow> (UserClassAnonymous, [])
       | Some kf \<Rightarrow> (case jwt_parse kf (parser_options v) token of
           None \<Rightarrow> (UserClassUnknown, [])
         | Some claims \<Rightarrow>
             (if validClaimedUserClasses (ac_UserClass claims) then ac_UserClass claims else UserClassUnknown,
              ac_Subject claims))))"

section \<open>Classification\<close>

definition classify :: "geo_dbs \<Rightarrow> jwt_lib \<Rightarrow> FairnessConfig option \<Rightarrow> geoLookup option \<Rightarrow> verifier option
    \<Rightarrow> ip_addr option \<Rightarrow> http_request \<Rightarrow> Classification" where
  "classify D J cfg geo auth ip r =
    (let (asn, country) = lookup D geo ip; (uc, uid) = authenticate J auth r in
     \<lparr>cl_IP = (case ip of None \<Rightarrow> [] | Some a \<Rightarrow> IP_String a),
      cl_Net24 = (case ip of None \<Rightarrow> [] | Some a \<Rightarrow> if To4 a \<noteq> None then bucketIPv4 ip else []),
      cl_NetV6 = (case ip of None \<Rightarrow> [] | Some a \<Rightarrow> if To4 a \<noteq> None then [] else bucketIPv6 ip (ipv6PrefixLength cfg)),
      cl_ASN = asn, cl_Country = country, cl_UserClass = uc, cl_UserID = uid\<rparr>)"

section \<open>Lemmas\<close>

lemma v4_string_chars: "c \<in> set (v4_string a) \<Longrightarrow> is_digit c \<or> c = CHR ''.''"
proof -
  have "c \<in> set (join sep ps) \<Longrightarrow> c = sep \<or> (\<exists>p \<in> set ps. c \<in> set p)" for sep and ps :: "string list"
    by (induction sep ps rule: join.induct) auto
  then show "c \<in> set (v4_string a) \<Longrightarrow> ?thesis"
    using dec_nat_digits unfolding v4_string_def list_all_iff by fastforce
qed

lemma v4_string_ne [simp]: "v4_string a \<noteq> []"
  by (simp add: v4_string_def)

lemma SplitHostPort_v4: "CHR '':'' \<notin> set p \<Longrightarrow> CHR ''['' \<notin> set p \<Longrightarrow> CHR '']'' \<notin> set p \<Longrightarrow>
    SplitHostPort (v4_string a @ CHR '':'' # p) = Some (v4_string a)"
proof -
  assume p: "CHR '':'' \<notin> set p" "CHR ''['' \<notin> set p" "CHR '']'' \<notin> set p"
  have v: "CHR '':'' \<notin> set (v4_string a)" "CHR ''['' \<notin> set (v4_string a)" "CHR '']'' \<notin> set (v4_string a)"
    "hd (v4_string a) \<noteq> CHR ''[''"
    using v4_string_chars hd_in_set [of "v4_string a"] by (fastforce simp: is_digit_def)+
  have "takeWhile (\<lambda>c. c \<noteq> CHR '':'') (rev p @ CHR '':'' # rev (v4_string a)) = rev p"
    using p(1) by (subst takeWhile_append2) auto
  then show ?thesis using p v by (simp add: SplitHostPort_def Let_def)
qed

lemma classify_class:
  "cl_UserClass (classify D J cfg geo auth ip r) = fst (authenticate J auth r)"
  "cl_UserID (classify D J cfg geo auth ip r) = snd (authenticate J auth r)"
  by (simp_all add: classify_def split: prod.split)

section \<open>Properties\<close>

text \<open>
  an IPv4 client is recognized however its address arrives (resolved by Caddy, or as host and
  port of the connection), its key is the dotted form of the address, it has an IPv4 bucket and
  no IPv6 bucket, and two clients share the bucket exactly when the first 24 bits agree.
\<close>

theorem ipv4_clients_are_bucketed:
  "resolveClientIP (r\<lparr>rq_client_ip := Some (v4_string a)\<rparr>) = Some (of_v4 a)
    \<and> resolveClientIP (r\<lparr>rq_client_ip := None, rq_RemoteAddr := v4_string a @ '':'' @ FormatInt port\<rparr>) = Some (of_v4 a)
    \<and> cl_IP (classify D J cfg geo auth (Some (of_v4 a)) r) = v4_string a
    \<and> cl_NetV6 (classify D J cfg geo auth (Some (of_v4 a)) r) = []
    \<and> cl_Net24 (classify D J cfg geo auth (Some (of_v4 a)) r) \<noteq> []
    \<and> (cl_Net24 (classify D J cfg geo auth (Some (of_v4 a)) r) = cl_Net24 (classify D J cfg geo auth (Some (of_v4 b)) r)
        \<longleftrightarrow> drop_bit 8 a = drop_bit 8 b)"
proof (intro conjI)
  show "resolveClientIP (r\<lparr>rq_client_ip := Some (v4_string a)\<rparr>) = Some (of_v4 a)"
    by (simp add: resolveClientIP_def ParseIP_v4_string)
  have "CHR '':'' \<notin> set (FormatInt port)" "CHR ''['' \<notin> set (FormatInt port)" "CHR '']'' \<notin> set (FormatInt port)"
    using dec_nat_digits [of "nat port"] dec_nat_digits [of "nat (- port)"]
    by (auto simp: FormatInt_def list_all_iff is_digit_def)
  moreover have "CHR ''%'' \<notin> set (v4_string a)" using v4_string_chars by (fastforce simp: is_digit_def)
  ultimately show "resolveClientIP (r\<lparr>rq_client_ip := None, rq_RemoteAddr := v4_string a @ '':'' @ FormatInt port\<rparr>) = Some (of_v4 a)"
    by (simp add: resolveClientIP_def SplitHostPort_v4 strings_Cut_absent ParseIP_v4_string)
  show "cl_IP (classify D J cfg geo auth (Some (of_v4 a)) r) = v4_string a"
    by (simp add: classify_def IP_String_def split: prod.split)
  show "cl_NetV6 (classify D J cfg geo auth (Some (of_v4 a)) r) = []"
    by (simp add: classify_def split: prod.split)
  have net: "cl_Net24 (classify D J cfg geo auth (Some (of_v4 x)) r) = v4_string (mask_v4 24 x) @ ''/24''" for x
    by (simp add: classify_def bucketIPv4_def split: prod.split)
  show "cl_Net24 (classify D J cfg geo auth (Some (of_v4 a)) r) \<noteq> []" by (simp add: net)
  show "cl_Net24 (classify D J cfg geo auth (Some (of_v4 a)) r) = cl_Net24 (classify D J cfg geo auth (Some (of_v4 b)) r)
      \<longleftrightarrow> drop_bit 8 a = drop_bit 8 b"
    by (simp add: net v4_string_inject mask_v4_eq)
qed

text \<open>
  C27: authentication never fails a request and never hands out trust: the class is one of the
  trusted three only for a token that parses and is valid under the block's options (always
  RS256, and the issuer and audience when configured) and claims that class, and then
  the subject is the one of the token; no token makes a request human-verified; and exactly without
  a token or a verifier the request is anonymous, with no subject.
\<close>

theorem trusted_class_needs_valid_token:
  "let token = bearerToken (rq_Authorization r); (uc, uid) = authenticate J auth r in
    (validClaimedUserClasses uc \<longleftrightarrow>
      (\<exists>v kf claims. token \<noteq> [] \<and> auth = Some v \<and> vf_kf v = Some kf \<and> J kf (parser_options v) token = Some claims
        \<and> validClaimedUserClasses (ac_UserClass claims) \<and> uc = ac_UserClass claims \<and> uid = ac_Subject claims))
    \<and> (uc = UserClassAnonymous \<longleftrightarrow> token = [] \<or> Option.bind auth vf_kf = None)
    \<and> uc \<noteq> UserClassHumanVerified
    \<and> (if uc = UserClassAnonymous then uid = [] else True)
    \<and> WithValidMethods [''RS256''] \<in> set (parser_options v)"
proof -
  let ?token = "bearerToken (rq_Authorization r)"
  have claimed: "uc \<noteq> UserClassAnonymous \<and> uc \<noteq> UserClassHumanVerified" if "validClaimedUserClasses uc" for uc
    using that by auto
  have opts: "WithValidMethods [''RS256''] \<in> set (parser_options v)" by (simp add: parser_options_def)
  show ?thesis
  proof (cases "?token = [] \<or> Option.bind auth vf_kf = None")
    case True
    then have "authenticate J auth r = (UserClassAnonymous, [])"
      by (auto simp: authenticate_def Let_def split: option.split)
    then show ?thesis using True opts by auto
  next
    case False
    then obtain v kf where v: "auth = Some v" "vf_kf v = Some kf" by (cases auth) auto
    then show ?thesis
      using False opts claimed by (cases "J kf (parser_options v) ?token") (auto simp: authenticate_def Let_def)
  qed
qed

end
