(* ===== verification/Fairness_App.thy ===== *)
theory Fairness_App imports Classify Registry "HOL-Library.List_Lexorder" "HOL-Library.Char_ord" begin

text \<open>
  The fairness app module (\<^verbatim>\<open>fairness/app.go\<close>): resources shared by the handler blocks of a
  configuration, counted by reference in two pools, and the registry of live handlers.

  \<^verbatim>\<open>caddy.UsagePool\<close> is not part of the repository: its operations are the parameter
  \<open>pool_ops\<close>, over a pool state of any type. \<open>pool_laws\<close> is what its documentation promises for
  constructors that do not fail, as all the constructors of this code: loading a key adds one
  reference to it, deleting takes one away, and other keys are left alone.
\<close>

record ('p, 'v) pool_ops =
  po_LoadOrNew :: "string \<Rightarrow> 'v \<Rightarrow> 'p \<Rightarrow> ('v \<times> 'p) option"
  po_Delete :: "string \<Rightarrow> 'p \<Rightarrow> 'p"
  po_References :: "string \<Rightarrow> 'p \<Rightarrow> nat"
  po_Range :: "'p \<Rightarrow> (string \<times> 'v) list"

definition pool_laws :: "('p, 'v) pool_ops \<Rightarrow> bool" where
  "pool_laws P \<longleftrightarrow>
    (\<forall>k v p. \<exists>v' p'. po_LoadOrNew P k v p = Some (v', p')
      \<and> (\<forall>k'. po_References P k' p' = po_References P k' p + (if k' = k then 1 else 0)))
    \<and> (\<forall>k p k'. po_References P k' (po_Delete P k p) = po_References P k' p - (if k' = k then 1 else 0))"

section \<open>The app module\<close>

text \<open>A running refresh loop is a handle: the key set read from it and what cancels it.\<close>

record jwksVerifier =
  jv_kf :: "nat option"
  jv_cancel :: "nat option"

text \<open>
  What the app uses from outside: the two pools, \<^verbatim>\<open>caddy.FastAbs\<close>, opening a database, and
  starting a key-set refresh loop (both give \<open>None\<close> when they fail).
\<close>

record ('p, 'q) app_env =
  ae_geo :: "('p, geoReader) pool_ops"
  ae_auth :: "('q, jwksVerifier) pool_ops"
  ae_FastAbs :: "string \<Rightarrow> string option"
  ae_open_db :: "string \<Rightarrow> nat option"
  ae_open_jwks :: "string \<Rightarrow> duration \<Rightarrow> nat option"

record ('p, 'q) FairnessApp =
  fa_geoPool :: 'p
  fa_authPool :: 'q
  fa_handlers :: "(string, handler_ptr) gomap option"

definition fapp_Provision :: "'p \<Rightarrow> 'q \<Rightarrow> ('p, 'q) FairnessApp" where
  "fapp_Provision newGeoPool newAuthPool = \<lparr>fa_geoPool = newGeoPool, fa_authPool = newAuthPool, fa_handlers = Some []\<rparr>"

definition geoPoolKey :: "('p, 'q) app_env \<Rightarrow> string \<Rightarrow> string" where
  "geoPoolKey E path = (case ae_FastAbs E path of Some a \<Rightarrow> a | None \<Rightarrow> path)"

definition acquireGeoReader :: "('p, 'q) app_env \<Rightarrow> string \<Rightarrow> ('p, 'q) FairnessApp
    \<Rightarrow> (geoReader option \<times> ('p, 'q) FairnessApp) option" where
  "acquireGeoReader E path a =
    (if path = [] then Some (None, a)
     else map_option (\<lambda>(reader, p). (Some reader, a\<lparr>fa_geoPool := p\<rparr>))
       (po_LoadOrNew (ae_geo E) (geoPoolKey E path) (openGeoReader (ae_open_db E) path) (fa_geoPool a)))"

definition releaseGeoReader :: "('p, 'q) app_env \<Rightarrow> string \<Rightarrow> ('p, 'q) FairnessApp \<Rightarrow> ('p, 'q) FairnessApp" where
  "releaseGeoReader E path a =
    (if path = [] then a else a\<lparr>fa_geoPool := po_Delete (ae_geo E) (geoPoolKey E path) (fa_geoPool a)\<rparr>)"

definition defaultJWKSRefreshInterval :: duration where "defaultJWKSRefreshInterval = 5 * minute"

definition openJWKSVerifier :: "('p, 'q) app_env \<Rightarrow> string \<Rightarrow> duration \<Rightarrow> jwksVerifier" where
  "openJWKSVerifier E jwksURL refreshInterval =
    (let loop = ae_open_jwks E jwksURL refreshInterval in \<lparr>jv_kf = loop, jv_cancel = loop\<rparr>)"

text \<open>What the pools do with the last reference: the error and the handles closed or cancelled.\<close>

definition geoReader_Destruct :: "(nat \<Rightarrow> string option) \<Rightarrow> geoReader option \<Rightarrow> string option \<times> nat list" where
  "geoReader_Destruct close_db g = (case reader_of g of None \<Rightarrow> (None, []) | Some db \<Rightarrow> (close_db db, [db]))"

definition jwksVerifier_Destruct :: "jwksVerifier option \<Rightarrow> string option \<times> nat list" where
  "jwksVerifier_Destruct v =
    (case v of None \<Rightarrow> (None, []) | Some jv \<Rightarrow> (None, (case jv_cancel jv of None \<Rightarrow> [] | Some loop \<Rightarrow> [loop])))"

definition acquireVerifier :: "('p, 'q) app_env \<Rightarrow> string \<Rightarrow> string \<Rightarrow> string \<Rightarrow> duration \<Rightarrow> ('p, 'q) FairnessApp
    \<Rightarrow> (verifier option \<times> ('p, 'q) FairnessApp) option" where
  "acquireVerifier E jwksURL issuer audience refreshInterval a =
    (if jwksURL = [] then Some (None, a)
     else let interval = (if refreshInterval \<le> 0 then defaultJWKSRefreshInterval else refreshInterval) in
       map_option (\<lambda>(jv, p). (Some \<lparr>vf_kf = jv_kf jv, vf_issuer = issuer, vf_audience = audience\<rparr>, a\<lparr>fa_authPool := p\<rparr>))
         (po_LoadOrNew (ae_auth E) jwksURL (openJWKSVerifier E jwksURL interval) (fa_authPool a)))"

definition releaseVerifier :: "('p, 'q) app_env \<Rightarrow> string \<Rightarrow> ('p, 'q) FairnessApp \<Rightarrow> ('p, 'q) FairnessApp" where
  "releaseVerifier E jwksURL a =
    (if jwksURL = [] then a else a\<lparr>fa_authPool := po_Delete (ae_auth E) jwksURL (fa_authPool a)\<rparr>)"

definition fregisterHandler :: "string \<Rightarrow> handler_ptr \<Rightarrow> ('p, 'q) FairnessApp \<Rightarrow> ('p, 'q) FairnessApp" where
  "fregisterHandler backend h a =
    (let m = (case fa_handlers a of None \<Rightarrow> [] | Some m \<Rightarrow> m) in a\<lparr>fa_handlers := Some (map_put backend h m)\<rparr>)"

definition funregisterHandler :: "string \<Rightarrow> handler_ptr \<Rightarrow> ('p, 'q) FairnessApp \<Rightarrow> ('p, 'q) FairnessApp" where
  "funregisterHandler backend h a =
    (case fa_handlers a of
       None \<Rightarrow> a
     | Some m \<Rightarrow> if map_get m backend = Some h then a\<lparr>fa_handlers := Some (map_del backend m)\<rparr> else a)"

definition fsnapshotHandlers :: "(handler_ptr \<Rightarrow> string) \<Rightarrow> ('p, 'q) FairnessApp \<Rightarrow> handler_ptr list" where
  "fsnapshotHandlers label a = (case fa_handlers a of None \<Rightarrow> [] | Some m \<Rightarrow> sort_key label (map snd m))"

section \<open>Health of the pools\<close>

record resourceHealth =
  rh_Key :: string
  rh_Healthy :: bool
  rh_References :: nat

definition poolHealth :: "('p, 'v) pool_ops \<Rightarrow> ('v \<Rightarrow> bool) \<Rightarrow> 'p option \<Rightarrow> resourceHealth list" where
  "poolHealth P healthy pool =
    (case pool of
       None \<Rightarrow> []
     | Some p \<Rightarrow> sort_key rh_Key (map (\<lambda>(k, v). \<lparr>rh_Key = k, rh_Healthy = healthy v, rh_References = po_References P k p\<rparr>)
         (po_Range P p)))"

definition geoHealth :: "('p, 'q) app_env \<Rightarrow> ('p, 'q) FairnessApp \<Rightarrow> resourceHealth list" where
  "geoHealth E a = poolHealth (ae_geo E) (\<lambda>r. gr_reader r \<noteq> None) (Some (fa_geoPool a))"

definition jwksHealth :: "('p, 'q) app_env \<Rightarrow> ('p, 'q) FairnessApp \<Rightarrow> resourceHealth list" where
  "jwksHealth E a = poolHealth (ae_auth E) (\<lambda>jv. jv_kf jv \<noteq> None) (Some (fa_authPool a))"

section \<open>Lemmas\<close>

definition fregistered :: "('p, 'q) FairnessApp \<Rightarrow> string \<Rightarrow> handler_ptr option" where
  "fregistered a b = (case fa_handlers a of None \<Rightarrow> None | Some m \<Rightarrow> map_get m b)"

interpretation fapps: handler_registry fregistered fregisterHandler funregisterHandler
  by unfold_locales (auto simp: fregistered_def fregisterHandler_def funregisterHandler_def Let_def split: option.splits)

text \<open>The references held on the two pools.\<close>

definition geo_refs :: "('p, 'q) app_env \<Rightarrow> ('p, 'q) FairnessApp \<Rightarrow> string \<Rightarrow> nat" where
  "geo_refs E a k = po_References (ae_geo E) k (fa_geoPool a)"

definition auth_refs :: "('p, 'q) app_env \<Rightarrow> ('p, 'q) FairnessApp \<Rightarrow> string \<Rightarrow> nat" where
  "auth_refs E a k = po_References (ae_auth E) k (fa_authPool a)"

definition env_laws :: "('p, 'q) app_env \<Rightarrow> bool" where
  "env_laws E \<longleftrightarrow> pool_laws (ae_geo E) \<and> pool_laws (ae_auth E)"

definition geo_uses :: "('p, 'q) app_env \<Rightarrow> string \<Rightarrow> string \<Rightarrow> nat" where
  "geo_uses E path k = (if path \<noteq> [] \<and> k = geoPoolKey E path then 1 else 0)"

definition auth_uses :: "string \<Rightarrow> string \<Rightarrow> nat" where
  "auth_uses url k = (if url \<noteq> [] \<and> k = url then 1 else 0)"

lemma acquireGeoReader_refs:
  assumes "env_laws E"
  obtains r a' where "acquireGeoReader E path a = Some (r, a')" "geo_refs E a' k = geo_refs E a k + geo_uses E path k"
    "auth_refs E a' = auth_refs E a" "fa_handlers a' = fa_handlers a"
proof (cases "path = []")
  case False
  obtain v p where p: "po_LoadOrNew (ae_geo E) (geoPoolKey E path) (openGeoReader (ae_open_db E) path) (fa_geoPool a) = Some (v, p)"
    "\<forall>k'. po_References (ae_geo E) k' p = po_References (ae_geo E) k' (fa_geoPool a) + (if k' = geoPoolKey E path then 1 else 0)"
    using assms unfolding env_laws_def pool_laws_def by meson
  show thesis
    by (rule that [of "Some v" "a\<lparr>fa_geoPool := p\<rparr>"])
      (use False p in \<open>simp_all add: acquireGeoReader_def geo_refs_def auth_refs_def geo_uses_def fun_eq_iff\<close>)
qed (use that in \<open>simp add: acquireGeoReader_def geo_uses_def\<close>)

lemma acquireVerifier_refs:
  assumes "env_laws E"
  obtains v a' where "acquireVerifier E url issuer audience interval a = Some (v, a')"
    "auth_refs E a' k = auth_refs E a k + auth_uses url k" "geo_refs E a' = geo_refs E a" "fa_handlers a' = fa_handlers a"
proof (cases "url = []")
  case False
  let ?i = "if interval \<le> 0 then defaultJWKSRefreshInterval else interval"
  obtain v p where p: "po_LoadOrNew (ae_auth E) url (openJWKSVerifier E url ?i) (fa_authPool a) = Some (v, p)"
    "\<forall>k'. po_References (ae_auth E) k' p = po_References (ae_auth E) k' (fa_authPool a) + (if k' = url then 1 else 0)"
    using assms unfolding env_laws_def pool_laws_def by meson
  show thesis
    by (rule that [of "Some \<lparr>vf_kf = jv_kf v, vf_issuer = issuer, vf_audience = audience\<rparr>" "a\<lparr>fa_authPool := p\<rparr>"])
      (use False p in \<open>simp_all add: acquireVerifier_def Let_def geo_refs_def auth_refs_def auth_uses_def fun_eq_iff\<close>)
qed (use that in \<open>simp add: acquireVerifier_def auth_uses_def\<close>)

lemma release_refs:
  assumes "env_laws E"
  shows "geo_refs E (releaseGeoReader E path a) k = geo_refs E a k - geo_uses E path k"
    "auth_refs E (releaseGeoReader E path a) k = auth_refs E a k"
    "auth_refs E (releaseVerifier E url a) k = auth_refs E a k - auth_uses url k"
    "geo_refs E (releaseVerifier E url a) k = geo_refs E a k"
  using assms
  by (simp_all add: env_laws_def pool_laws_def releaseGeoReader_def releaseVerifier_def geo_refs_def auth_refs_def
      geo_uses_def auth_uses_def)

end
