(* ===== verification/Scoring.thy ===== *)
theory Scoring imports Fairness_Config begin

text \<open>
  EWMA-based scoring (\<^verbatim>\<open>fairness/scoring.go\<close>): the resolved configuration, the per-dimension
  statistics and their three writers (\<open>track\<close>, \<open>tick\<close>, \<open>gc\<close>), the score of a request with its
  breakdown, the priority divisor, and the parsers of a penalty line.

  A \<^verbatim>\<open>range\<close> loop over a map visits the association list from left to right; what must not
  depend on that order is proved not to. A nil \<^verbatim>\<open>*scoringState\<close> is \<open>None\<close>.
\<close>

section \<open>Configuration\<close>

definition scoringDimensions :: "string list" where
  "scoringDimensions = [''ip'', ''ipv4_subnet'', ''ipv6_subnet'', ''asn'', ''country'', ''user'']"

definition validScoringDimensions :: "string \<Rightarrow> bool" where
  "validScoringDimensions d \<longleftrightarrow> d \<in> set scoringDimensions"

definition validUserClasses :: "UserClass \<Rightarrow> bool" where
  "validUserClasses uc \<longleftrightarrow> uc \<in> {UserClassAnonymous, UserClassResearcher, UserClassServiceAccount,
     UserClassInternal, UserClassUnknown, UserClassHumanVerified}"

record PenaltyConfig =
  pc_Alpha :: f64
  pc_SoftThreshold :: f64
  pc_SoftPenalty :: f64
  pc_HardThreshold :: f64
  pc_HardPenalty :: f64
  pc_ExemptCountries :: "(string, bool) gomap"

record ScoringConfig =
  sc_BaseScores :: "(UserClass, f64) gomap"
  sc_MinScore :: f64
  sc_MaxScore :: f64
  sc_Dimensions :: "(string, PenaltyConfig) gomap"
  sc_Divisors :: "(string, f64) gomap"

definition zeroPenaltyConfig :: PenaltyConfig where
  "zeroPenaltyConfig = \<lparr>pc_Alpha = Fin 0, pc_SoftThreshold = Fin 0, pc_SoftPenalty = Fin 0,
     pc_HardThreshold = Fin 0, pc_HardPenalty = Fin 0, pc_ExemptCountries = []\<rparr>"

definition default_tuning :: "rat \<Rightarrow> rat \<Rightarrow> PenaltyConfig" where
  "default_tuning soft hard = \<lparr>pc_Alpha = rnd (2 / 10), pc_SoftThreshold = Fin soft, pc_SoftPenalty = Fin 10,
     pc_HardThreshold = Fin hard, pc_HardPenalty = Fin 40, pc_ExemptCountries = []\<rparr>"

definition newDefaultScoringConfig :: ScoringConfig where
  "newDefaultScoringConfig =
    \<lparr>sc_BaseScores = [(UserClassResearcher, Fin 100), (UserClassServiceAccount, Fin 100),
       (UserClassInternal, Fin 100), (UserClassAnonymous, Fin 60), (UserClassUnknown, Fin 60),
       (UserClassHumanVerified, Fin 80)],
     sc_MinScore = Fin 0, sc_MaxScore = Fin 100,
     sc_Dimensions = [(''ip'', default_tuning 20 100), (''user'', default_tuning 20 100),
       (''ipv4_subnet'', default_tuning 100 500), (''ipv6_subnet'', default_tuning 100 500),
       (''asn'', default_tuning 500 2000), (''country'', default_tuning 2000 10000)],
     sc_Divisors = []\<rparr>"

definition defaultPenaltyFor :: "string \<Rightarrow> PenaltyConfig" where
  "defaultPenaltyFor dm =
    (case map_get (sc_Dimensions newDefaultScoringConfig) dm of None \<Rightarrow> zeroPenaltyConfig | Some pc \<Rightarrow> pc)"

record scoringOverrides =
  so_BaseScores :: "(UserClass, f64) gomap"
  so_EnabledDimensions :: "(string, bool) gomap"
  so_Penalties :: "(string, PenaltyConfig) gomap"
  so_MinScore :: "f64 option"
  so_MaxScore :: "f64 option"
  so_Divisors :: "(string, f64) gomap"

definition resolve_dimension :: "scoringOverrides \<Rightarrow> string \<Rightarrow> PenaltyConfig" where
  "resolve_dimension ov dm =
    (case map_get (so_Penalties ov) dm of Some pc \<Rightarrow> pc | None \<Rightarrow> defaultPenaltyFor dm)"

definition resolveScoringConfig :: "scoringOverrides option \<Rightarrow> ScoringConfig" where
  "resolveScoringConfig ov =
    (let defaults = newDefaultScoringConfig; cfg = defaults\<lparr>sc_Dimensions := [], sc_Divisors := []\<rparr> in
     case ov of
       None \<Rightarrow> cfg
     | Some ov \<Rightarrow> cfg
         \<lparr>sc_BaseScores := fold (\<lambda>(uc, v) m. map_put uc v m) (so_BaseScores ov) (sc_BaseScores cfg),
          sc_Dimensions := fold (\<lambda>(dm, _) m. map_put dm (resolve_dimension ov dm) m) (so_EnabledDimensions ov) [],
          sc_MinScore := (case so_MinScore ov of None \<Rightarrow> sc_MinScore cfg | Some v \<Rightarrow> v),
          sc_MaxScore := (case so_MaxScore ov of None \<Rightarrow> sc_MaxScore cfg | Some v \<Rightarrow> v),
          sc_Divisors := fold (\<lambda>(name, v) m. map_put name v m) (so_Divisors ov) []\<rparr>)"

definition baseScoreFor :: "(UserClass, f64) gomap \<Rightarrow> UserClass \<Rightarrow> f64" where
  "baseScoreFor baseScores uc =
    (case map_get baseScores uc of Some v \<Rightarrow> v
     | None \<Rightarrow> (case map_get baseScores UserClassAnonymous of Some v \<Rightarrow> v | None \<Rightarrow> Fin 0))"

definition clamp :: "f64 \<Rightarrow> f64 \<Rightarrow> f64 \<Rightarrow> f64" where
  "clamp v lo hi = (if flt v lo then lo else if flt hi v then hi else v)"

definition dimensionKey :: "string \<Rightarrow> Classification \<Rightarrow> string option" where
  "dimensionKey dm c =
    (let nonempty = (\<lambda>s. if s = [] then None else Some s) in
     if dm = ''ip'' then nonempty (cl_IP c)
     else if dm = ''ipv4_subnet'' then nonempty (cl_Net24 c)
     else if dm = ''ipv6_subnet'' then nonempty (cl_NetV6 c)
     else if dm = ''asn'' then if cl_ASN c = 0 then None else Some (FormatUint (cl_ASN c))
     else if dm = ''country'' then nonempty (cl_Country c)
     else if dm = ''user'' then nonempty (cl_UserID c)
     else None)"

definition penaltyContribution :: "PenaltyConfig \<Rightarrow> f64 \<Rightarrow> f64" where
  "penaltyContribution pc rps =
    (if flt (pc_HardThreshold pc) rps then pc_HardPenalty pc
     else if flt (pc_SoftThreshold pc) rps then pc_SoftPenalty pc
     else Fin 0)"

section \<open>The statistics\<close>

record ClientStats =
  cs_LastSeen :: time
  cs_EWMARPS :: f64
  cs_Inflight :: go_int
  cs_pending :: go_int

definition zeroClientStats :: ClientStats where
  "zeroClientStats = \<lparr>cs_LastSeen = time_zero, cs_EWMARPS = Fin 0, cs_Inflight = 0, cs_pending = 0\<rparr>"

type_synonym dimensionMap = "(string, ClientStats) gomap"

record scoringState =
  ss_cfg :: ScoringConfig
  ss_dims :: "(string, dimensionMap) gomap"
  ss_tickInterval :: duration
  ss_idleTTL :: duration

definition newScoringState :: "ScoringConfig \<Rightarrow> duration \<Rightarrow> duration \<Rightarrow> scoringState" where
  "newScoringState cfg tickInterval idleTTL =
    \<lparr>ss_cfg = cfg,
     ss_dims = map (\<lambda>(dm, _). (dm, [])) (sc_Dimensions cfg),
     ss_tickInterval = (if tickInterval \<le> 0 then defaultEWMATickInterval else tickInterval),
     ss_idleTTL = (if idleTTL \<le> 0 then defaultIdleEntryTTL else idleTTL)\<rparr>"

text \<open>The entries of a dimension. \<open>newScoringState\<close> makes a map for every configured one.\<close>

definition dim_entries :: "scoringState \<Rightarrow> string \<Rightarrow> dimensionMap" where
  "dim_entries s dm = (case map_get (ss_dims s) dm of None \<Rightarrow> [] | Some m \<Rightarrow> m)"

definition track_entry :: "time \<Rightarrow> string \<Rightarrow> dimensionMap \<Rightarrow> dimensionMap" where
  "track_entry now key m =
    (let e = (case map_get m key of None \<Rightarrow> zeroClientStats | Some e \<Rightarrow> e) in
     map_put key (e\<lparr>cs_LastSeen := now, cs_pending := wrap64 (cs_pending e + 1)\<rparr>) m)"

definition track_dim :: "Classification \<Rightarrow> time \<Rightarrow> string \<Rightarrow> scoringState \<Rightarrow> scoringState" where
  "track_dim c now dm s =
    (case dimensionKey dm c of None \<Rightarrow> s
     | Some key \<Rightarrow> s\<lparr>ss_dims := map_put dm (track_entry now key (dim_entries s dm)) (ss_dims s)\<rparr>)"

definition track :: "Classification \<Rightarrow> time \<Rightarrow> scoringState option \<Rightarrow> scoringState option" where
  "track c now s = map_option (\<lambda>s. fold (\<lambda>(dm, _). track_dim c now dm) (sc_Dimensions (ss_cfg s)) s) s"

definition tick_entry :: "f64 \<Rightarrow> f64 \<Rightarrow> ClientStats \<Rightarrow> ClientStats" where
  "tick_entry seconds alpha e =
    (let rate = fdiv (f64_of_int (cs_pending e)) seconds in
     e\<lparr>cs_pending := 0,
       cs_EWMARPS := fadd (fmul alpha rate) (fmul (fsub (Fin 1) alpha) (cs_EWMARPS e))\<rparr>)"

definition tick_dim :: "string \<Rightarrow> PenaltyConfig \<Rightarrow> scoringState \<Rightarrow> scoringState" where
  "tick_dim dm pc s =
    s\<lparr>ss_dims := map_put dm
        (map (\<lambda>(key, e). (key, tick_entry (Seconds (ss_tickInterval s)) (pc_Alpha pc) e)) (dim_entries s dm))
        (ss_dims s)\<rparr>"

definition tick :: "time \<Rightarrow> scoringState option \<Rightarrow> scoringState option" where
  "tick now s = map_option (\<lambda>s. fold (\<lambda>(dm, pc). tick_dim dm pc) (sc_Dimensions (ss_cfg s)) s) s"

definition gc :: "time \<Rightarrow> scoringState option \<Rightarrow> scoringState option" where
  "gc now s = map_option (\<lambda>s. s\<lparr>ss_dims := map (\<lambda>(dm, m).
      (dm, filter (\<lambda>(key, e). \<not> ss_idleTTL s < time_Sub now (cs_LastSeen e)) m)) (ss_dims s)\<rparr>) s"

definition entryEWMARPS :: "string \<Rightarrow> string \<Rightarrow> scoringState option \<Rightarrow> f64" where
  "entryEWMARPS dm key s =
    (case s of None \<Rightarrow> Fin 0
     | Some s \<Rightarrow> (case map_get (ss_dims s) dm of None \<Rightarrow> Fin 0
       | Some m \<Rightarrow> (case map_get m key of None \<Rightarrow> Fin 0 | Some e \<Rightarrow> cs_EWMARPS e)))"

definition resolvedConfig :: "scoringState option \<Rightarrow> ScoringConfig" where
  "resolvedConfig s = (case s of None \<Rightarrow> resolveScoringConfig None | Some s \<Rightarrow> ss_cfg s)"

definition entryCounts :: "scoringState option \<Rightarrow> (string, go_int) gomap" where
  "entryCounts s = (case s of None \<Rightarrow> [] | Some s \<Rightarrow> map (\<lambda>(dm, m). (dm, int (length m))) (ss_dims s))"

section \<open>The score\<close>

text \<open>The penalty of one dimension: zero when it does not apply or the country is exempt.\<close>

definition dim_penalty :: "scoringState \<Rightarrow> Classification \<Rightarrow> string \<Rightarrow> PenaltyConfig \<Rightarrow> f64" where
  "dim_penalty s c dm pc =
    (case dimensionKey dm c of
       None \<Rightarrow> Fin 0
     | Some key \<Rightarrow>
         if map_get (pc_ExemptCountries pc) (cl_Country c) = Some True then Fin 0
         else penaltyContribution pc (entryEWMARPS dm key (Some s)))"

definition penalty_key :: "string \<Rightarrow> string" where
  "penalty_key dm = ''penalty_'' @ dm"

lemma penalty_key_simps [simp]:
  "penalty_key dm = penalty_key dm' \<longleftrightarrow> dm = dm'" "penalty_key dm \<noteq> ''base''" "penalty_key dm \<noteq> ''total_penalty''"
  "penalty_key dm \<noteq> ''final''" "''base'' \<noteq> penalty_key dm" "''total_penalty'' \<noteq> penalty_key dm" "''final'' \<noteq> penalty_key dm"
  by (auto simp: penalty_key_def)

definition score_dim :: "scoringState \<Rightarrow> Classification \<Rightarrow> string \<times> PenaltyConfig
    \<Rightarrow> f64 \<times> (string, f64) gomap \<Rightarrow> f64 \<times> (string, f64) gomap" where
  "score_dim s c d acc =
    (let (dm, pc) = d; (totalPenalty, breakdown) = acc; penalty = dim_penalty s c dm pc in
     if feq penalty (Fin 0) then acc
     else (fadd totalPenalty penalty, map_put (penalty_key dm) penalty breakdown))"

definition computeScoreBreakdown :: "scoringState option \<Rightarrow> Classification \<Rightarrow> f64 \<times> (string, f64) gomap" where
  "computeScoreBreakdown s c =
    (case s of
       None \<Rightarrow>
         let base = baseScoreFor (sc_BaseScores newDefaultScoringConfig) (cl_UserClass c)
         in (base, [(''base'', base), (''total_penalty'', Fin 0), (''final'', base)])
     | Some s \<Rightarrow>
         let base = baseScoreFor (sc_BaseScores (ss_cfg s)) (cl_UserClass c);
             (totalPenalty, breakdown) =
               fold (score_dim s c) (sc_Dimensions (ss_cfg s)) (Fin 0, [(''base'', base)]);
             final = clamp (fsub base totalPenalty) (sc_MinScore (ss_cfg s)) (sc_MaxScore (ss_cfg s))
         in (final, map_put ''final'' final (map_put ''total_penalty'' totalPenalty breakdown)))"

definition computeScore :: "scoringState option \<Rightarrow> Classification \<Rightarrow> f64" where
  "computeScore s c = fst (computeScoreBreakdown s c)"

definition countryExempt :: "scoringState option \<Rightarrow> string \<Rightarrow> bool" where
  "countryExempt s country =
    (case s of None \<Rightarrow> False
     | Some s \<Rightarrow> country \<noteq> [] \<and> list_ex (\<lambda>(dm, pc). map_get (pc_ExemptCountries pc) country = Some True)
         (sc_Dimensions (ss_cfg s)))"

definition priorityDivisor :: "scoringState option \<Rightarrow> (string, string list) gomap \<Rightarrow> f64" where
  "priorityDivisor s query =
    (case s of None \<Rightarrow> Fin 1
     | Some s \<Rightarrow>
         let d = fold (\<lambda>(name, v) d. if map_get query name \<noteq> None then fmul d v else d)
           (sc_Divisors (ss_cfg s)) (Fin 1)
         in if fle d (Fin 0) then Fin 1 else d)"

section \<open>Parsing a penalty line\<close>

datatype penalty_error =
    NotKeyValue string
  | InvalidAlpha string
  | InvalidSoft string
  | InvalidHard string
  | EmptyCountry string
  | UnknownPenaltyKey string
  | MissingPenaltyKeys

definition parseThresholdPenalty :: "(string \<Rightarrow> f64 option) \<Rightarrow> string \<Rightarrow> (f64 \<times> f64) option" where
  "parseThresholdPenalty ext v =
    (case strings_SplitN2 CHR '':'' v of
       [t, p] \<Rightarrow> (case ParseFloat ext t of None \<Rightarrow> None
         | Some threshold \<Rightarrow> (case ParseFloat ext p of None \<Rightarrow> None
           | Some rawPenalty \<Rightarrow> Some (threshold, fabs rawPenalty)))
     | _ \<Rightarrow> None)"

definition parseExemptCountry :: "string \<Rightarrow> (string, bool) gomap option" where
  "parseExemptCountry v =
    (let parts = strings_Split CHR '','' v in
     if [] \<in> set parts then None else Some (fold (\<lambda>cc m. map_put cc True m) parts []))"

text \<open>The loop of \<open>parsePenaltyArgs\<close>, with the three flags of the keys seen so far.\<close>

fun parse_penalty_loop :: "(string \<Rightarrow> f64 option) \<Rightarrow> string list \<Rightarrow> PenaltyConfig \<times> bool \<times> bool \<times> bool
    \<Rightarrow> penalty_error + PenaltyConfig \<times> bool \<times> bool \<times> bool" where
  "parse_penalty_loop ext [] st = Inr st"
| "parse_penalty_loop ext (arg # args) (pc, haveAlpha, haveSoft, haveHard) =
    (let (key, val, ok) = strings_Cut CHR ''='' arg in
     if \<not> ok then Inl (NotKeyValue arg)
     else if key = ''alpha'' then
       (case ParseFloat ext val of None \<Rightarrow> Inl (InvalidAlpha val)
        | Some f \<Rightarrow> parse_penalty_loop ext args (pc\<lparr>pc_Alpha := f\<rparr>, True, haveSoft, haveHard))
     else if key = ''soft'' then
       (case parseThresholdPenalty ext val of None \<Rightarrow> Inl (InvalidSoft val)
        | Some (thr, pen) \<Rightarrow> parse_penalty_loop ext args
            (pc\<lparr>pc_SoftThreshold := thr, pc_SoftPenalty := pen\<rparr>, haveAlpha, True, haveHard))
     else if key = ''hard'' then
       (case parseThresholdPenalty ext val of None \<Rightarrow> Inl (InvalidHard val)
        | Some (thr, pen) \<Rightarrow> parse_penalty_loop ext args
            (pc\<lparr>pc_HardThreshold := thr, pc_HardPenalty := pen\<rparr>, haveAlpha, haveSoft, True))
     else if key = ''exempt_country'' then
       (case parseExemptCountry val of None \<Rightarrow> Inl (EmptyCountry val)
        | Some codes \<Rightarrow> parse_penalty_loop ext args (pc\<lparr>pc_ExemptCountries := codes\<rparr>, haveAlpha, haveSoft, haveHard))
     else Inl (UnknownPenaltyKey key))"

definition parsePenaltyArgs :: "(string \<Rightarrow> f64 option) \<Rightarrow> string list \<Rightarrow> penalty_error + PenaltyConfig" where
  "parsePenaltyArgs ext args =
    (case parse_penalty_loop ext args (zeroPenaltyConfig, False, False, False) of
       Inl e \<Rightarrow> Inl e
     | Inr (pc, haveAlpha, haveSoft, haveHard) \<Rightarrow>
         if haveAlpha \<and> haveSoft \<and> haveHard then Inr pc else Inl MissingPenaltyKeys)"

section \<open>A store of entries\<close>

text \<open>
  What the score relies on: statistics are kept per dimension and key, and an update of one
  entry leaves every other entry alone.
\<close>

locale entry_store =
  fixes look :: "'s \<Rightarrow> 'd \<Rightarrow> 'k \<Rightarrow> 'e option"
    and touch :: "'d \<Rightarrow> 'k \<Rightarrow> 'a \<Rightarrow> 's \<Rightarrow> 's"
    and step :: "'a \<Rightarrow> 'e option \<Rightarrow> 'e"
  assumes look_touch: "look (touch d k a s) d' k' = (if d' = d \<and> k' = k then Some (step a (look s d k)) else look s d' k')"
begin

definition matching :: "'d \<Rightarrow> 'k \<Rightarrow> ('d \<times> 'k \<times> 'a) list \<Rightarrow> 'a list" where
  "matching d k ps = map (snd \<circ> snd) (filter (\<lambda>(d', k', _). d' = d \<and> k' = k) ps)"

lemma matching_simps [simp]:
  "matching d k [] = []"
  "matching d k ((d', k', a) # ps) = (if d' = d \<and> k' = k then a # matching d k ps else matching d k ps)"
  "matching d k (ps @ qs) = matching d k ps @ matching d k qs"
  by (simp_all add: matching_def)

lemma look_touches:
  "look (fold (\<lambda>(d, k, a). touch d k a) ps s) d k = fold (\<lambda>a e. Some (step a e)) (matching d k ps) (look s d k)"
proof (induction ps arbitrary: s)
  case (Cons p ps)
  obtain d' k' a where p: "p = (d', k', a)" by (metis prod_cases3)
  show ?case using Cons.IH [of "touch d' k' a s"] by (simp add: p look_touch)
qed simp

end

definition entry :: "scoringState \<Rightarrow> string \<Rightarrow> string \<Rightarrow> ClientStats option" where
  "entry s dm key = map_get (dim_entries s dm) key"

definition touch_entry :: "string \<Rightarrow> string \<Rightarrow> time \<Rightarrow> scoringState \<Rightarrow> scoringState" where
  "touch_entry dm key now s = s\<lparr>ss_dims := map_put dm (track_entry now key (dim_entries s dm)) (ss_dims s)\<rparr>"

definition seen :: "time \<Rightarrow> ClientStats option \<Rightarrow> ClientStats" where
  "seen now e = (let e = (case e of None \<Rightarrow> zeroClientStats | Some e \<Rightarrow> e) in
     e\<lparr>cs_LastSeen := now, cs_pending := wrap64 (cs_pending e + 1)\<rparr>)"

interpretation stats: entry_store entry touch_entry seen
  by unfold_locales
    (auto simp: entry_def touch_entry_def seen_def dim_entries_def track_entry_def Let_def split: option.splits)

text \<open>The entries a request touches, in the order of the loop.\<close>

definition touched :: "ScoringConfig \<Rightarrow> Classification \<Rightarrow> time \<Rightarrow> (string \<times> string \<times> time) list" where
  "touched cfg c now = concat (map (\<lambda>(dm, _). case dimensionKey dm c of None \<Rightarrow> [] | Some key \<Rightarrow> [(dm, key, now)])
     (sc_Dimensions cfg))"

lemma track_dim_touch:
  "track_dim c now dm s = fold (\<lambda>(d, k, a). touch_entry d k a)
     (case dimensionKey dm c of None \<Rightarrow> [] | Some key \<Rightarrow> [(dm, key, now)]) s"
  by (simp add: track_dim_def touch_entry_def split: option.split)

lemma track_touched: "track c now (Some s) = Some (fold (\<lambda>(d, k, a). touch_entry d k a) (touched (ss_cfg s) c now) s)"
proof -
  have "fold (\<lambda>(dm, _). track_dim c now dm) ds s =
      fold (\<lambda>(d, k, a). touch_entry d k a) (concat (map (\<lambda>(dm, _).
        case dimensionKey dm c of None \<Rightarrow> [] | Some key \<Rightarrow> [(dm, key, now)]) ds)) s"
    for ds :: "(string \<times> PenaltyConfig) list"
    by (induction ds arbitrary: s) (auto simp: track_dim_touch)
  then show ?thesis by (simp add: track_def touched_def)
qed

lemma touch_entry_cfg [simp]:
  "ss_cfg (touch_entry d k a s) = ss_cfg s" "ss_idleTTL (touch_entry d k a s) = ss_idleTTL s"
  "ss_tickInterval (touch_entry d k a s) = ss_tickInterval s"
  by (simp_all add: touch_entry_def)

lemma touches_cfg [simp]:
  "ss_cfg (fold (\<lambda>(d, k, a). touch_entry d k a) ps s) = ss_cfg s"
  by (induction ps arbitrary: s) auto

text \<open>All requests of a sequence, one after the other.\<close>

definition track_all :: "(Classification \<times> time) list \<Rightarrow> scoringState \<Rightarrow> scoringState" where
  "track_all rs s = the (fold (\<lambda>(c, now). track c now) rs (Some s))"

lemma track_all_touches:
  "track_all rs s = fold (\<lambda>(d, k, a). touch_entry d k a) (concat (map (\<lambda>(c, now). touched (ss_cfg s) c now) rs)) s"
proof -
  have "fold (\<lambda>(c, now). track c now) rs (Some s) =
    Some (fold (\<lambda>(d, k, a). touch_entry d k a) (concat (map (\<lambda>(c, now). touched (ss_cfg s) c now) rs)) s)"
    by (induction rs arbitrary: s) (auto simp: track_touched)
  then show ?thesis by (simp add: track_all_def)
qed

lemma matching_touched:
  assumes "wf_map (sc_Dimensions cfg)"
  shows "stats.matching dm key (touched cfg c now) =
    (if dm \<in> fst ` set (sc_Dimensions cfg) \<and> dimensionKey dm c = Some key then [now] else [])"
proof -
  have "stats.matching dm key (concat (map (\<lambda>(d, _).
        case dimensionKey d c of None \<Rightarrow> [] | Some k \<Rightarrow> [(d, k, now)]) ds)) =
      (if dm \<in> fst ` set ds \<and> dimensionKey dm c = Some key then [now] else [])"
    if "distinct (map fst ds)" for ds :: "(string \<times> PenaltyConfig) list"
    using that by (induction ds) (auto split: option.splits, force+)
  then show ?thesis using assms by (simp add: touched_def wf_map_def)
qed

lemma matching_track_all:
  assumes "wf_map (sc_Dimensions cfg)" "dm \<in> fst ` set (sc_Dimensions cfg)"
  shows "stats.matching dm key (concat (map (\<lambda>(c, now). touched cfg c now) rs)) =
    map snd (filter (\<lambda>(c, _). dimensionKey dm c = Some key) rs)"
  by (induction rs) (auto simp: matching_touched [OF assms(1)] assms(2))

lemma seen_fold:
  assumes "ts \<noteq> []"
  shows "fold (\<lambda>a e. Some (seen a e)) ts e0 =
    Some ((case e0 of None \<Rightarrow> zeroClientStats | Some e \<Rightarrow> e)\<lparr>cs_LastSeen := last ts,
      cs_pending := wrap64 ((case e0 of None \<Rightarrow> 0 | Some e \<Rightarrow> cs_pending e) + int (length ts))\<rparr>)"
  using assms
proof (induction ts rule: rev_induct)
  case (snoc t ts)
  show ?case
  proof (cases "ts = []")
    case True
    then show ?thesis by (simp add: seen_def zeroClientStats_def split: option.split)
  next
    case False
    then show ?thesis
      using snoc by (cases e0) (simp_all add: seen_def Let_def wrap64_add_left wrap64_add_right add_ac)
  qed
qed simp

section \<open>Sweeping and ticking\<close>

text \<open>Every map of the state has distinct keys, and the configured dimensions have one.\<close>

definition ss_wf :: "scoringState \<Rightarrow> bool" where
  "ss_wf s \<longleftrightarrow> wf_map (sc_Dimensions (ss_cfg s)) \<and> (\<forall>dm. wf_map (dim_entries s dm))"

lemma dim_entries_put [simp]:
  "dim_entries (s\<lparr>ss_dims := map_put d m (ss_dims s)\<rparr>) dm = (if dm = d then m else dim_entries s dm)"
  by (simp add: dim_entries_def)

lemma ss_wf_touch: "ss_wf s \<Longrightarrow> ss_wf (touch_entry d k a s)"
  by (simp add: ss_wf_def touch_entry_def track_entry_def Let_def)

lemma ss_wf_touches: "ss_wf s \<Longrightarrow> ss_wf (fold (\<lambda>(d, k, a). touch_entry d k a) ps s)"
  by (induction ps arbitrary: s) (auto simp: ss_wf_touch)

lemma ss_wf_track_all: "ss_wf s \<Longrightarrow> ss_wf (track_all rs s)"
  by (simp add: track_all_touches ss_wf_touches)

lemma map_get_const_Nil: "map_get (map (\<lambda>(dm, _). (dm, [])) xs) k = Some m \<Longrightarrow> m = []"
  by (induction xs) (auto split: if_splits)

lemma ss_wf_new: "wf_map (sc_Dimensions cfg) \<Longrightarrow> ss_wf (newScoringState cfg ti ttl)"
  by (auto simp: ss_wf_def newScoringState_def dim_entries_def split: option.split dest: map_get_const_Nil)

lemma gc_entries:
  "dim_entries (the (gc now (Some s))) dm = filter (\<lambda>(_, e). \<not> ss_idleTTL s < time_Sub now (cs_LastSeen e)) (dim_entries s dm)"
  by (simp add: gc_def dim_entries_def map_get_map split: option.split)

lemma gc_entry:
  assumes "ss_wf s"
  shows "entry (the (gc now (Some s))) dm key =
    (case entry s dm key of Some e \<Rightarrow> if ss_idleTTL s < time_Sub now (cs_LastSeen e) then None else Some e | None \<Rightarrow> None)"
proof -
  have "wf_map (dim_entries s dm)" using assms by (simp add: ss_wf_def)
  then show ?thesis
    using map_get_filter [of "dim_entries s dm" "\<lambda>e. \<not> ss_idleTTL s < time_Sub now (cs_LastSeen e)" key]
    by (auto simp: entry_def gc_entries split: option.splits)
qed

lemma ss_wf_gc: "ss_wf s \<Longrightarrow> ss_wf (the (gc now (Some s)))"
  unfolding ss_wf_def gc_entries by (simp add: gc_def)

lemma tick_dim_entries:
  "dim_entries (tick_dim d pc s) dm =
    (if dm = d then map (\<lambda>(key, e). (key, tick_entry (Seconds (ss_tickInterval s)) (pc_Alpha pc) e)) (dim_entries s d)
     else dim_entries s dm)"
  by (simp add: tick_dim_def)

lemma tick_dim_frame [simp]:
  "ss_cfg (tick_dim d pc s) = ss_cfg s" "ss_tickInterval (tick_dim d pc s) = ss_tickInterval s"
  "ss_idleTTL (tick_dim d pc s) = ss_idleTTL s"
  by (simp_all add: tick_dim_def)

lemma tick_dims_entry:
  "distinct (map fst ds) \<Longrightarrow> entry (fold (\<lambda>(dm, pc). tick_dim dm pc) ds s) dm key =
    (case map_get ds dm of None \<Rightarrow> entry s dm key
     | Some pc \<Rightarrow> map_option (tick_entry (Seconds (ss_tickInterval s)) (pc_Alpha pc)) (entry s dm key))"
proof (induction ds arbitrary: s)
  case (Cons d ds)
  obtain a pc where d: "d = (a, pc)" by (metis prod.exhaust)
  have "map_get ds a = None" using Cons.prems by (simp add: d map_of_eq_None_iff)
  then show ?case
    using Cons by (auto simp: d entry_def tick_dim_entries map_get_map split: option.splits)
qed simp

lemma tick_entry_lookup:
  assumes "ss_wf s"
  shows "entry (the (tick now (Some s))) dm key =
    (case map_get (sc_Dimensions (ss_cfg s)) dm of None \<Rightarrow> entry s dm key
     | Some pc \<Rightarrow> map_option (tick_entry (Seconds (ss_tickInterval s)) (pc_Alpha pc)) (entry s dm key))"
  using assms tick_dims_entry [of "sc_Dimensions (ss_cfg s)" s dm key] by (simp add: tick_def ss_wf_def wf_map_def)

lemma entryEWMARPS_entry: "entryEWMARPS dm key (Some s) = (case entry s dm key of None \<Rightarrow> Fin 0 | Some e \<Rightarrow> cs_EWMARPS e)"
  by (auto simp: entryEWMARPS_def entry_def dim_entries_def split: option.splits)

section \<open>Sums of penalties\<close>

definition add_penalty :: "f64 \<Rightarrow> f64 \<Rightarrow> f64" where
  "add_penalty p t = (if feq p (Fin 0) then t else fadd t p)"

definition total_penalty :: "scoringState \<Rightarrow> Classification \<Rightarrow> (string \<times> PenaltyConfig) list \<Rightarrow> f64 \<Rightarrow> f64" where
  "total_penalty s c ds = fold (\<lambda>(dm, pc). add_penalty (dim_penalty s c dm pc)) ds"

lemma score_dims_total: "fst (fold (score_dim s c) ds acc) = total_penalty s c ds (fst acc)"
proof (induction ds arbitrary: acc)
  case (Cons d ds)
  obtain a pc t b where "d = (a, pc)" "acc = (t, b)" by (metis prod.exhaust)
  then show ?case using Cons by (auto simp: total_penalty_def score_dim_def add_penalty_def Let_def)
qed (simp add: total_penalty_def)

lemma computeScore_Some:
  "computeScore (Some s) c = clamp (fsub (baseScoreFor (sc_BaseScores (ss_cfg s)) (cl_UserClass c))
      (total_penalty s c (sc_Dimensions (ss_cfg s)) (Fin 0))) (sc_MinScore (ss_cfg s)) (sc_MaxScore (ss_cfg s))"
  using score_dims_total [of s c "sc_Dimensions (ss_cfg s)"]
  by (simp add: computeScore_def computeScoreBreakdown_def Let_def split: prod.split) (metis fst_conv)

text \<open>Penalties that are numbers, not negative, and not lower for the hard threshold.\<close>

definition penalties_ok :: "ScoringConfig \<Rightarrow> bool" where
  "penalties_ok cfg \<longleftrightarrow> list_all (\<lambda>(dm, pc). fle (Fin 0) (pc_SoftPenalty pc) \<and> fle (pc_SoftPenalty pc) (pc_HardPenalty pc))
     (sc_Dimensions cfg)"

lemma penaltyContribution_mono:
  assumes "fle (Fin 0) (pc_SoftPenalty pc)" "fle (pc_SoftPenalty pc) (pc_HardPenalty pc)" "fle r r'"
  shows "fle (penaltyContribution pc r) (penaltyContribution pc r')" "fle (Fin 0) (penaltyContribution pc r)"
  using assms by (auto simp: penaltyContribution_def flt_def fle_def)

lemma dim_penalty_nonneg:
  "fle (Fin 0) (pc_SoftPenalty pc) \<Longrightarrow> fle (pc_SoftPenalty pc) (pc_HardPenalty pc) \<Longrightarrow>
    fle (Fin 0) (dim_penalty s c dm pc)"
  by (auto simp: dim_penalty_def penaltyContribution_def fle_def split: option.split)

lemma dim_penalty_mono:
  assumes "fle (Fin 0) (pc_SoftPenalty pc)" "fle (pc_SoftPenalty pc) (pc_HardPenalty pc)"
    "\<And>key. fle (entryEWMARPS dm key (Some s)) (entryEWMARPS dm key (Some s'))"
  shows "fle (dim_penalty s c dm pc) (dim_penalty s' c dm pc)"
  using penaltyContribution_mono [OF assms(1,2) assms(3)]
  by (auto simp: dim_penalty_def split: option.split)

lemma add_penalty_mono:
  assumes "fle (Fin 0) t" "fle t t'" "f64_ok t'" "fle (Fin 0) p" "fle p p'"
  shows "fle (add_penalty p t) (add_penalty p' t')" "fle (Fin 0) (add_penalty p t)"
proof -
  have p': "fle (Fin 0) p'" using assms(4,5) by (rule fle_trans)
  have t': "fle (Fin 0) t'" using assms(1,2) by (rule fle_trans)
  have "p = Fin 0" if "p' = Fin 0" using that assms(4,5) by (auto simp: fle_def)
  moreover have "fle t (fadd t' p')" using fle_trans [OF assms(2) fadd_ge_left [OF assms(3) t' p']] .
  ultimately show "fle (add_penalty p t) (add_penalty p' t')"
    using assms fadd_mono_nonneg [OF assms(1,2,4,5)] p' by (auto simp: add_penalty_def feq_def)
  show "fle (Fin 0) (add_penalty p t)" using assms fadd_nonneg by (auto simp: add_penalty_def)
qed

text \<open>Configured penalties are values of the format.\<close>

definition config_ok :: "ScoringConfig \<Rightarrow> bool" where
  "config_ok cfg \<longleftrightarrow> penalties_ok cfg
     \<and> list_all (\<lambda>(dm, pc). f64_ok (pc_SoftPenalty pc) \<and> f64_ok (pc_HardPenalty pc)) (sc_Dimensions cfg)"

lemma dim_penalty_ok: "f64_ok (pc_SoftPenalty pc) \<Longrightarrow> f64_ok (pc_HardPenalty pc) \<Longrightarrow> f64_ok (dim_penalty s c dm pc)"
  by (auto simp: dim_penalty_def penaltyContribution_def split: option.split)

lemma total_penalty_nonneg:
  assumes "list_all (\<lambda>(dm, pc). fle (Fin 0) (pc_SoftPenalty pc) \<and> fle (pc_SoftPenalty pc) (pc_HardPenalty pc)) ds"
    "fle (Fin 0) t"
  shows "fle (Fin 0) (total_penalty s c ds t)"
  using assms
proof (induction ds arbitrary: t)
  case (Cons d ds)
  obtain a pc where d: "d = (a, pc)" by (metis prod.exhaust)
  have "fle (Fin 0) (dim_penalty s c a pc)" using Cons.prems d by (simp add: dim_penalty_nonneg)
  then have "fle (Fin 0) (add_penalty (dim_penalty s c a pc) t)"
    using Cons.prems fadd_nonneg by (auto simp: add_penalty_def)
  then show ?case using Cons d by (simp add: total_penalty_def)
qed (simp add: total_penalty_def)

lemma total_penalty_le:
  assumes "list_all (\<lambda>(dm, pc). fle (Fin 0) (pc_SoftPenalty pc) \<and> fle (pc_SoftPenalty pc) (pc_HardPenalty pc)
      \<and> f64_ok (pc_SoftPenalty pc) \<and> f64_ok (pc_HardPenalty pc)) ds"
    "list_all (\<lambda>(dm, pc). fle (dim_penalty s c dm pc) (dim_penalty s' c' dm pc)) ds"
    "fle (Fin 0) t" "fle t t'" "f64_ok t'"
  shows "fle (total_penalty s c ds t) (total_penalty s' c' ds t')"
  using assms
proof (induction ds arbitrary: t t')
  case (Cons d ds)
  obtain a pc where d: "d = (a, pc)" by (metis prod.exhaust)
  have pc: "fle (Fin 0) (pc_SoftPenalty pc)" "fle (pc_SoftPenalty pc) (pc_HardPenalty pc)"
    "f64_ok (pc_SoftPenalty pc)" "f64_ok (pc_HardPenalty pc)" "fle (dim_penalty s c a pc) (dim_penalty s' c' a pc)"
    using Cons.prems d by simp_all
  have "f64_ok (add_penalty (dim_penalty s' c' a pc) t')"
    using dim_penalty_ok [OF pc(3,4), of s' c' a] Cons.prems by (simp add: add_penalty_def)
  then show ?case
    using Cons add_penalty_mono [OF Cons.prems(3-5) dim_penalty_nonneg [OF pc(1,2)] pc(5)] d by (simp add: total_penalty_def)
qed (simp add: total_penalty_def)

lemma total_penalty_mono:
  assumes "list_all (\<lambda>(dm, pc). fle (Fin 0) (pc_SoftPenalty pc) \<and> fle (pc_SoftPenalty pc) (pc_HardPenalty pc)
      \<and> f64_ok (pc_SoftPenalty pc) \<and> f64_ok (pc_HardPenalty pc)) ds"
    "\<And>dm key. fle (entryEWMARPS dm key (Some s)) (entryEWMARPS dm key (Some s'))"
    "fle (Fin 0) t" "fle t t'" "f64_ok t'"
  shows "fle (total_penalty s c ds t) (total_penalty s' c ds t')"
proof (rule total_penalty_le [OF assms(1) _ assms(3-5)])
  show "list_all (\<lambda>(dm, pc). fle (dim_penalty s c dm pc) (dim_penalty s' c dm pc)) ds"
    using assms(1) by (auto simp: list_all_iff intro!: dim_penalty_mono assms(2))
qed

lemma clamp_mono: "fle v w \<Longrightarrow> fle lo hi \<Longrightarrow> fle (clamp v lo hi) (clamp w lo hi)"
  by (auto simp: clamp_def fle_def flt_def)

lemma clamp_NaN [simp]: "clamp NaN lo hi = NaN"
  by (simp add: clamp_def)

text \<open>Whole-number penalties are added exactly.\<close>

definition whole :: "f64 \<Rightarrow> bool" where
  "whole x \<longleftrightarrow> (case x of Fin v \<Rightarrow> v = of_int \<lfloor>v\<rfloor> \<and> 0 \<le> v \<and> v \<le> 2 ^ 40 | _ \<Rightarrow> False)"

definition whole_penalties :: "ScoringConfig \<Rightarrow> bool" where
  "whole_penalties cfg \<longleftrightarrow> length (sc_Dimensions cfg) \<le> 2 ^ 12
     \<and> list_all (\<lambda>(dm, pc). whole (pc_SoftPenalty pc) \<and> whole (pc_HardPenalty pc)) (sc_Dimensions cfg)"

definition whole_val :: "f64 \<Rightarrow> int" where
  "whole_val x = (case x of Fin v \<Rightarrow> \<lfloor>v\<rfloor> | _ \<Rightarrow> 0)"

lemma wholeD: "whole x \<Longrightarrow> x = Fin (of_int (whole_val x)) \<and> 0 \<le> whole_val x \<and> whole_val x \<le> 2 ^ 40"
proof -
  assume "whole x"
  then obtain v where v: "x = Fin v" "v = of_int \<lfloor>v\<rfloor>" "0 \<le> v" "v \<le> 2 ^ 40"
    by (auto simp: whole_def split: f64.splits)
  have "\<lfloor>v\<rfloor> \<le> 2 ^ 40" using v(4) floor_mono [of v "2 ^ 40"] by simp
  then show ?thesis using v by (simp add: whole_val_def)
qed

lemma dim_penalty_whole: "whole (pc_SoftPenalty pc) \<Longrightarrow> whole (pc_HardPenalty pc) \<Longrightarrow> whole (dim_penalty s c dm pc)"
  by (auto simp: dim_penalty_def penaltyContribution_def whole_def split: option.split)

lemma total_penalty_whole:
  assumes "list_all (\<lambda>(dm, pc). whole (pc_SoftPenalty pc) \<and> whole (pc_HardPenalty pc)) ds"
    "0 \<le> n" "n + int (length ds) * 2 ^ 40 \<le> 2 ^ 53"
  shows "total_penalty s c ds (Fin (of_int n)) =
    Fin (of_int (n + sum_list (map (\<lambda>(dm, pc). whole_val (dim_penalty s c dm pc)) ds)))"
  using assms
proof (induction ds arbitrary: n)
  case (Cons d ds)
  obtain a pc where d: "d = (a, pc)" by (metis prod.exhaust)
  obtain k where k: "dim_penalty s c a pc = Fin (of_int k)" "0 \<le> k" "k \<le> 2 ^ 40"
    using wholeD [OF dim_penalty_whole [of pc s c a]] Cons.prems(1) d by auto
  have v: "whole_val (dim_penalty s c a pc) = k" by (simp add: k whole_val_def)
  have "n + k \<le> 2 ^ 53" using k(3) Cons.prems(2,3) by simp
  then have "rnd (of_int (n + k)) = Fin (of_int (n + k))" using k(2) Cons.prems(2) by (intro rnd_of_int) simp
  then have "add_penalty (dim_penalty s c a pc) (Fin (of_int n)) = Fin (of_int (n + k))"
    by (simp add: add_penalty_def k)
  moreover have "total_penalty s c ds (Fin (of_int (n + k))) =
      Fin (of_int (n + k + sum_list (map (\<lambda>(dm, pc). whole_val (dim_penalty s c dm pc)) ds)))"
    using Cons.prems k d by (intro Cons.IH) (simp_all add: algebra_simps)
  ultimately show ?case by (simp add: d v total_penalty_def add.assoc)
qed (simp add: total_penalty_def)

section \<open>The divisor and the averages\<close>

lemma divisor_product:
  assumes "list_all (\<lambda>(name, v). \<exists>x. v = Fin x \<and> 0 < x) ds" "fle (Fin 0) d"
  shows "fle (Fin 0) (fold (\<lambda>(name, v) d. if Q name then fmul d v else d) ds d)"
  using assms
proof (induction ds arbitrary: d)
  case (Cons p ds)
  obtain name x where p: "p = (name, Fin x)" "0 < x" using Cons.prems(1) by (cases p) auto
  have "fle (Fin 0) (fmul d (Fin x))"
    using fmul_mono_pos [OF Cons.prems(2) p(2)] by simp
  then show ?case using Cons p by simp
qed simp

lemma divisor_product_ge_1:
  assumes "list_all (\<lambda>(name, v). \<exists>x. v = Fin x \<and> 1 \<le> x) ds" "fle (Fin 1) d"
  shows "fle (Fin 1) (fold (\<lambda>(name, v) d. if Q name then fmul d v else d) ds d)"
  using assms
proof (induction ds arbitrary: d)
  case (Cons p ds)
  obtain name x where p: "p = (name, Fin x)" "1 \<le> x" using Cons.prems(1) by (cases p) auto
  have "fle (Fin 1) (fmul (Fin 1) (Fin x))" using rnd_mono [of 1 x] p by (simp add: fle_def)
  moreover have "fle (fmul (Fin 1) (Fin x)) (fmul d (Fin x))"
    using fmul_mono_pos [OF Cons.prems(2)] p(2) by simp
  ultimately have "fle (Fin 1) (fmul d (Fin x))" by (rule fle_trans)
  then show ?case using Cons p by simp
qed simp

lemma divisor_product_none: "list_all (\<lambda>(name, v). \<not> Q name) ds \<Longrightarrow> fold (\<lambda>(name, v) d. if Q name then fmul d v else d) ds d = d"
  by (induction ds) auto

end
