(* ===== verification/Session.thy ===== *)
theory Session imports Fairness_Config begin

text \<open>
  The signed session cookie (\<^verbatim>\<open>fairness/session.go\<close>): loading its keys, signing and
  verifying a value, issuing and renewing, and folding a checked cookie into a classification.

  HMAC-SHA256 is the parameter \<open>hmac\<close>, a function from a secret and a message to a digest (the
  bytes as a string); the lemmas that need it assume only that a digest has 32 bytes. Key files
  (\<open>readFile\<close>), the clock (\<open>now\<close>) and the random source (\<open>rnd16\<close>, the 16 bytes read or an
  error) are parameters too. The cookies of a request are a list of names and values as
  \<^verbatim>\<open>net/http\<close> parsed them.
\<close>

section \<open>Constants\<close>

definition sessionCookieVersion :: string where "sessionCookieVersion = ''v1''"
definition defaultSessionCookieName :: string where "defaultSessionCookieName = ''aac_session''"
definition defaultSessionCookieTTL :: duration where "defaultSessionCookieTTL = 30 * minute"
definition minSessionKeyBytes :: nat where "minSessionKeyBytes = 32"
definition sessionIDBytes :: nat where "sessionIDBytes = 16"
definition maxSessionCookieLen :: nat where "maxSessionCookieLen = 256"
definition sessionUserIDPrefix :: string where "sessionUserIDPrefix = ''session:''"
definition sessionModeCheck :: string where "sessionModeCheck = ''check''"
definition sessionModeIssue :: string where "sessionModeIssue = ''issue''"
definition sessionModeBoth :: string where "sessionModeBoth = ''both''"

datatype sessionResult = sessionAbsent | sessionValid | sessionInvalid | sessionExpired | sessionIssued | sessionRenewed

fun sessionResult_String :: "sessionResult \<Rightarrow> string" where
  "sessionResult_String sessionAbsent = ''absent''"
| "sessionResult_String sessionValid = ''valid''"
| "sessionResult_String sessionInvalid = ''invalid''"
| "sessionResult_String sessionExpired = ''expired''"
| "sessionResult_String sessionIssued = ''issued''"
| "sessionResult_String sessionRenewed = ''renewed''"

record sessionRead =
  rd_result :: sessionResult
  rd_id :: string
  rd_kid :: string
  rd_expiry :: time

record sessionCookies =
  ck_name :: string
  ck_ttl :: duration
  ck_issue :: bool
  ck_check :: bool
  ck_signKID :: string
  ck_keys :: "(string, string) gomap"

section \<open>Loading the keys\<close>

datatype session_error =
    BadMode string
  | NoKeys
  | EmptyKID
  | BadKID string
  | DuplicateKID string
  | UnreadableKey string
  | ShortKey string nat

definition kid_char :: "char \<Rightarrow> bool" where
  "kid_char c \<longleftrightarrow> (let n = (of_char c :: nat) in
     97 \<le> n \<and> n \<le> 122 \<or> 65 \<le> n \<and> n \<le> 90 \<or> 48 \<le> n \<and> n \<le> 57 \<or> c = CHR ''-'' \<or> c = CHR ''_'')"

definition validateSessionKID :: "string \<Rightarrow> session_error option" where
  "validateSessionKID kid =
    (if kid = [] then Some EmptyKID else if list_all kid_char kid then None else Some (BadKID kid))"

fun load_keys :: "(string \<Rightarrow> string option) \<Rightarrow> SessionKey list \<Rightarrow> (string, string) gomap
    \<Rightarrow> session_error + (string, string) gomap" where
  "load_keys readFile [] keys = Inr keys"
| "load_keys readFile (k # ks) keys =
    (case validateSessionKID (sk_KID k) of
       Some e \<Rightarrow> Inl e
     | None \<Rightarrow>
         if map_get keys (sk_KID k) \<noteq> None then Inl (DuplicateKID (sk_KID k))
         else case readFile (sk_File k) of
           None \<Rightarrow> Inl (UnreadableKey (sk_KID k))
         | Some raw \<Rightarrow>
             let secret = TrimSpace raw in
             if length secret < minSessionKeyBytes then Inl (ShortKey (sk_KID k) (length secret))
             else load_keys readFile ks (map_put (sk_KID k) secret keys))"

definition newSessionCookies :: "(string \<Rightarrow> string option) \<Rightarrow> SessionCookieConfig \<Rightarrow> session_error + sessionCookies" where
  "newSessionCookies readFile cfg =
    (let name = (if scc_Name cfg = [] then defaultSessionCookieName else scc_Name cfg);
         ttl = (if scc_TTL cfg \<le> 0 then defaultSessionCookieTTL else scc_TTL cfg);
         mode = scc_Mode cfg
     in if mode \<noteq> [] \<and> mode \<noteq> sessionModeCheck \<and> mode \<noteq> sessionModeIssue \<and> mode \<noteq> sessionModeBoth
        then Inl (BadMode mode)
        else if scc_Keys cfg = [] then Inl NoKeys
        else case load_keys readFile (scc_Keys cfg) [] of
          Inl e \<Rightarrow> Inl e
        | Inr keys \<Rightarrow> Inr
            \<lparr>ck_name = name, ck_ttl = ttl,
             ck_issue = (mode = sessionModeIssue \<or> mode = sessionModeBoth),
             ck_check = (mode = [] \<or> mode = sessionModeCheck \<or> mode = sessionModeBoth),
             ck_signKID = sk_KID (hd (scc_Keys cfg)), ck_keys = keys\<rparr>)"

section \<open>Signing and verifying\<close>

text \<open>\<^verbatim>\<open>base64.RawURLEncoding\<close>: three bytes to four characters, no padding.\<close>

definition b64_char :: "nat \<Rightarrow> char" where
  "b64_char n = ''ABCDEFGHIJKLMNOPQRSTUVWXYZabcdefghijklmnopqrstuvwxyz0123456789-_'' ! (n mod 64)"

fun b64_bytes :: "nat list \<Rightarrow> string" where
  "b64_bytes [] = []"
| "b64_bytes [a] = [b64_char (a div 4), b64_char (a * 16)]"
| "b64_bytes [a, b] = [b64_char (a div 4), b64_char (a * 16 + b div 16), b64_char (b * 4)]"
| "b64_bytes (a # b # c # bs) =
    b64_char (a div 4) # b64_char (a * 16 + b div 16) # b64_char (b * 4 + c div 64) # b64_char c # b64_bytes bs"

definition base64url :: "string \<Rightarrow> string" where
  "base64url s = b64_bytes (map of_char s)"

type_synonym hmac_fun = "string \<Rightarrow> string \<Rightarrow> string"

definition sessionMAC :: "hmac_fun \<Rightarrow> string \<Rightarrow> string \<Rightarrow> string" where
  "sessionMAC hmac secret payload = base64url (hmac secret payload)"

text \<open>\<^verbatim>\<open>Time.Unix()\<close> rounds down; \<^verbatim>\<open>time.Unix(sec, 0)\<close> wraps near the end of \<^verbatim>\<open>int64\<close>.\<close>

definition Unix_sec :: "time \<Rightarrow> int" where
  "Unix_sec t = wrap64 (t div second)"

definition time_Unix :: "int \<Rightarrow> time" where
  "time_Unix sec = (wrap64 (sec + 62135596800) - 62135596800) * second"

definition cookie_payload :: "string \<Rightarrow> string \<Rightarrow> string \<Rightarrow> string" where
  "cookie_payload kid sec i = sessionCookieVersion @ ''.'' @ kid @ ''.'' @ sec @ ''.'' @ i"

text \<open>A key that is not in the map is read as the empty secret.\<close>

definition secret_of :: "sessionCookies \<Rightarrow> string \<Rightarrow> string" where
  "secret_of sc kid = (case map_get (ck_keys sc) kid of None \<Rightarrow> [] | Some k \<Rightarrow> k)"

definition sign :: "hmac_fun \<Rightarrow> sessionCookies \<Rightarrow> string \<Rightarrow> time \<Rightarrow> string" where
  "sign hmac sc i expiry =
    (let payload = cookie_payload (ck_signKID sc) (FormatInt (Unix_sec expiry)) i in
     payload @ ''.'' @ sessionMAC hmac (secret_of sc (ck_signKID sc)) payload)"

abbreviation read_result :: "sessionResult \<Rightarrow> sessionRead" where
  "read_result r \<equiv> \<lparr>rd_result = r, rd_id = [], rd_kid = [], rd_expiry = time_zero\<rparr>"

definition verify :: "hmac_fun \<Rightarrow> time \<Rightarrow> sessionCookies \<Rightarrow> string \<Rightarrow> sessionRead" where
  "verify hmac now sc v =
    (if maxSessionCookieLen < length v then read_result sessionInvalid
     else case strings_Split CHR ''.'' v of
       [version, kid, expStr, i, mac] \<Rightarrow>
         if version \<noteq> sessionCookieVersion then read_result sessionInvalid
         else (case map_get (ck_keys sc) kid of
           None \<Rightarrow> read_result sessionInvalid
         | Some secret \<Rightarrow>
             if i = [] then read_result sessionInvalid
             else let payload = take (length v - length mac - 1) v in
               if mac \<noteq> sessionMAC hmac secret payload then read_result sessionInvalid
               else (case ParseInt expStr of
                 None \<Rightarrow> read_result sessionInvalid
               | Some sec \<Rightarrow>
                   let expiry = time_Unix sec in
                   if \<not> now < expiry then read_result sessionExpired
                   else \<lparr>rd_result = sessionValid, rd_id = i, rd_kid = kid, rd_expiry = expiry\<rparr>))
     | _ \<Rightarrow> read_result sessionInvalid)"

section \<open>Reading and issuing\<close>

type_synonym cookies = "(string \<times> string) list"

definition session_read :: "hmac_fun \<Rightarrow> time \<Rightarrow> sessionCookies option \<Rightarrow> cookies \<Rightarrow> sessionRead" where
  "session_read hmac now sc cs =
    (case sc of
       None \<Rightarrow> read_result sessionAbsent
     | Some sc \<Rightarrow> (case map_of cs (ck_name sc) of
         None \<Rightarrow> read_result sessionAbsent
       | Some v \<Rightarrow> if v = [] then read_result sessionAbsent else verify hmac now sc v))"

definition newID :: "string option \<Rightarrow> string option" where
  "newID rnd16 = map_option base64url rnd16"

record http_cookie =
  hc_Name :: string
  hc_Value :: string
  hc_MaxAge :: go_int

text \<open>
  \<^verbatim>\<open>http.SetCookie\<close> adds a header only for a name that is a token. The attributes that are
  the same for every cookie (path, secure, http-only, lax) are left out.
\<close>

definition token_char :: "char \<Rightarrow> bool" where
  "token_char c \<longleftrightarrow> kid_char c \<or> c \<in> set ''!#$%&*+.^`|~'' \<or> (of_char c :: nat) = 39"

definition SetCookie :: "http_cookie \<Rightarrow> http_cookie option" where
  "SetCookie c = (if hc_Name c \<noteq> [] \<and> list_all token_char (hc_Name c) then Some c else None)"

text \<open>The header added to the response, if any, and the action reported.\<close>

definition maybeIssue :: "hmac_fun \<Rightarrow> time \<Rightarrow> string option \<Rightarrow> sessionCookies option \<Rightarrow> sessionRead
    \<Rightarrow> http_cookie option \<times> sessionResult option" where
  "maybeIssue hmac now rnd16 sc s =
    (case sc of
       None \<Rightarrow> (None, None)
     | Some sc \<Rightarrow>
         if \<not> ck_issue sc then (None, None)
         else let send = (\<lambda>i action. (SetCookie \<lparr>hc_Name = ck_name sc, hc_Value = sign hmac sc i (now + ck_ttl sc),
                hc_MaxAge = quot64 (ck_ttl sc) second\<rparr>, Some action))
           in if rd_result s = sessionValid then
                if rd_kid s = ck_signKID sc \<and> quot64 (ck_ttl sc) 2 < time_Sub (rd_expiry s) now then (None, None)
                else send (rd_id s) sessionRenewed
              else (case newID rnd16 of None \<Rightarrow> (None, None) | Some i \<Rightarrow> send i sessionIssued))"

definition applySession :: "sessionRead \<Rightarrow> Classification \<Rightarrow> Classification" where
  "applySession s c =
    (if validClaimedUserClasses (cl_UserClass c) then c
     else if rd_result s = sessionValid
     then c\<lparr>cl_UserClass := UserClassHumanVerified, cl_UserID := sessionUserIDPrefix @ rd_id s\<rparr>
     else if rd_result s = sessionInvalid \<or> rd_result s = sessionExpired then c\<lparr>cl_UserClass := UserClassUnknown\<rparr>
     else c)"

section \<open>Lemmas\<close>

lemma b64_char_no_dot [simp]: "b64_char n \<noteq> CHR ''.''"
proof -
  have "\<forall>m \<in> {..<64::nat}. ''ABCDEFGHIJKLMNOPQRSTUVWXYZabcdefghijklmnopqrstuvwxyz0123456789-_'' ! m \<noteq> CHR ''.''"
    by code_simp
  moreover have "n mod 64 \<in> {..<64}" by simp
  ultimately show ?thesis unfolding b64_char_def by blast
qed

lemma b64_bytes_no_dot: "CHR ''.'' \<notin> set (b64_bytes bs)"
  by (induction bs rule: b64_bytes.induct) (auto simp: eq_commute [of "CHR ''.''"])

lemma b64_bytes_length: "length (b64_bytes bs) = (4 * length bs + 2) div 3"
  by (induction bs rule: b64_bytes.induct) auto

lemma b64_bytes_Nil [simp]: "b64_bytes bs = [] \<longleftrightarrow> bs = []"
  by (cases bs rule: b64_bytes.cases) simp_all

lemma base64url_simps [simp]:
  "CHR ''.'' \<notin> set (base64url s)" "length (base64url s) = (4 * length s + 2) div 3" "base64url s = [] \<longleftrightarrow> s = []"
  by (simp_all add: base64url_def b64_bytes_no_dot b64_bytes_length)

lemma sessionMAC_no_dot [simp]: "CHR ''.'' \<notin> set (sessionMAC hmac k m)"
  by (simp add: sessionMAC_def)

lemma kid_no_dot: "validateSessionKID kid = None \<Longrightarrow> kid \<noteq> [] \<and> CHR ''.'' \<notin> set kid"
  by (auto simp: validateSessionKID_def list_all_iff kid_char_def split: if_splits)

lemma load_keys_sound:
  assumes "load_keys readFile ks keys = Inr keys'"
  shows "(\<forall>kid v. map_get keys kid = Some v \<longrightarrow> map_get keys' kid = Some v)
    \<and> (\<forall>k \<in> set ks. validateSessionKID (sk_KID k) = None \<and> map_get keys (sk_KID k) = None
        \<and> (\<exists>raw. readFile (sk_File k) = Some raw \<and> map_get keys' (sk_KID k) = Some (TrimSpace raw)
              \<and> minSessionKeyBytes \<le> length (TrimSpace raw)))
    \<and> distinct (map sk_KID ks)
    \<and> (\<forall>kid v. map_get keys' kid = Some v \<longrightarrow> map_get keys kid = Some v \<or> kid \<in> sk_KID ` set ks)"
  using assms
proof (induction ks arbitrary: keys)
  case (Cons k ks)
  then obtain raw where r: "validateSessionKID (sk_KID k) = None" "map_get keys (sk_KID k) = None"
    "readFile (sk_File k) = Some raw" "minSessionKeyBytes \<le> length (TrimSpace raw)"
    "load_keys readFile ks (map_put (sk_KID k) (TrimSpace raw) keys) = Inr keys'"
    by (auto simp: Let_def split: option.splits if_splits)
  note ih = Cons.IH [OF r(5)]
  have own: "map_get keys' (sk_KID k) = Some (TrimSpace raw)" using ih by simp
  have new: "sk_KID k' \<noteq> sk_KID k \<and> map_get keys (sk_KID k') = None" if "k' \<in> set ks" for k'
    using ih that by (auto split: if_splits)
  have keep: "map_get keys' kid = Some v" if "map_get keys kid = Some v" for kid v
    using ih that r(2) by (metis map_get_put option.distinct(1))
  have origin: "map_get keys kid = Some v \<or> kid \<in> sk_KID ` set (k # ks)" if "map_get keys' kid = Some v" for kid v
    using ih that by (auto split: if_splits)
  have rest: "validateSessionKID (sk_KID k') = None \<and> map_get keys (sk_KID k') = None
      \<and> (\<exists>raw. readFile (sk_File k') = Some raw \<and> map_get keys' (sk_KID k') = Some (TrimSpace raw)
            \<and> minSessionKeyBytes \<le> length (TrimSpace raw))" if "k' \<in> set (k # ks)" for k'
    using that ih own r(1-4) new by (cases "k' = k") auto
  have "distinct (map sk_KID (k # ks))" using ih new by force
  then show ?case using keep origin rest by blast
qed simp

lemma newSessionCookies_sound:
  assumes "newSessionCookies readFile cfg = Inr sc"
  shows "0 < ck_ttl sc" "ck_name sc \<noteq> []" "validateSessionKID (ck_signKID sc) = None"
    "\<exists>secret. map_get (ck_keys sc) (ck_signKID sc) = Some secret"
    "map_get (ck_keys sc) kid = Some secret \<Longrightarrow> 32 \<le> length secret \<and> validateSessionKID kid = None"
proof -
  obtain keys where k: "load_keys readFile (scc_Keys cfg) [] = Inr keys" "scc_Keys cfg \<noteq> []" "ck_keys sc = keys"
      "ck_signKID sc = sk_KID (hd (scc_Keys cfg))"
    using assms by (auto simp: newSessionCookies_def Let_def split: if_splits sum.splits)
  note l = load_keys_sound [OF k(1)]
  show "0 < ck_ttl sc" "ck_name sc \<noteq> []"
    using assms by (auto simp: newSessionCookies_def Let_def defaultSessionCookieTTL_def defaultSessionCookieName_def minute_def
        split: if_splits sum.splits)
  have "hd (scc_Keys cfg) \<in> set (scc_Keys cfg)" using k(2) by simp
  then show "validateSessionKID (ck_signKID sc) = None" "\<exists>secret. map_get (ck_keys sc) (ck_signKID sc) = Some secret"
    using l k(3,4) by auto
  show "32 \<le> length secret \<and> validateSessionKID kid = None" if "map_get (ck_keys sc) kid = Some secret"
    using l that k(3) by (auto simp: minSessionKeyBytes_def) fastforce
qed

section \<open>What verification accepts\<close>

text \<open>
  \<open>signed_value hmac sc v kid e i\<close>: \<open>v\<close> is a cookie value for the identifier \<open>i\<close> with the expiry
  \<open>e\<close>, signed with the listed key \<open>kid\<close>.
\<close>

definition signed_value :: "hmac_fun \<Rightarrow> sessionCookies \<Rightarrow> string \<Rightarrow> string \<Rightarrow> string \<Rightarrow> string \<Rightarrow> bool" where
  "signed_value hmac sc v kid e i \<longleftrightarrow>
    (\<exists>secret. map_get (ck_keys sc) kid = Some secret
      \<and> v = cookie_payload kid e i @ ''.'' @ sessionMAC hmac secret (cookie_payload kid e i))
    \<and> i \<noteq> [] \<and> CHR ''.'' \<notin> set kid \<union> set e \<union> set i \<and> length v \<le> maxSessionCookieLen"

lemma cookie_join: "cookie_payload kid e i @ ''.'' @ mac = join CHR ''.'' [sessionCookieVersion, kid, e, i, mac]"
  by (simp add: cookie_payload_def)

lemma split_cookie:
  "strings_Split CHR ''.'' v = [sessionCookieVersion, kid, e, i, mac] \<longleftrightarrow>
    v = cookie_payload kid e i @ ''.'' @ mac \<and> CHR ''.'' \<notin> set kid \<union> set e \<union> set i \<union> set mac"
proof
  assume s: "strings_Split CHR ''.'' v = [sessionCookieVersion, kid, e, i, mac]"
  then have "v = join CHR ''.'' [sessionCookieVersion, kid, e, i, mac]" using join_strings_Split [of "CHR ''.''" v] by simp
  moreover have "CHR ''.'' \<notin> set p" if "p \<in> {kid, e, i, mac}" for p
    using strings_Split_no_sep [of p "CHR ''.''" v] s that by auto
  ultimately show "v = cookie_payload kid e i @ ''.'' @ mac \<and> CHR ''.'' \<notin> set kid \<union> set e \<union> set i \<union> set mac"
    unfolding cookie_join by simp
next
  assume v: "v = cookie_payload kid e i @ ''.'' @ mac \<and> CHR ''.'' \<notin> set kid \<union> set e \<union> set i \<union> set mac"
  have "strings_Split CHR ''.'' (join CHR ''.'' [sessionCookieVersion, kid, e, i, mac]) = [sessionCookieVersion, kid, e, i, mac]"
    using v by (intro strings_Split_join) (auto simp: sessionCookieVersion_def)
  then show "strings_Split CHR ''.'' v = [sessionCookieVersion, kid, e, i, mac]"
    using v unfolding cookie_join by metis
qed

lemma verify_signed:
  assumes "signed_value hmac sc v kid e i"
  shows "verify hmac now sc v = (case ParseInt e of None \<Rightarrow> read_result sessionInvalid
    | Some sec \<Rightarrow> if now < time_Unix sec
        then \<lparr>rd_result = sessionValid, rd_id = i, rd_kid = kid, rd_expiry = time_Unix sec\<rparr>
        else read_result sessionExpired)"
proof -
  obtain secret where k: "map_get (ck_keys sc) kid = Some secret"
    "v = cookie_payload kid e i @ ''.'' @ sessionMAC hmac secret (cookie_payload kid e i)"
    and v: "i \<noteq> []" "CHR ''.'' \<notin> set kid \<union> set e \<union> set i" "length v \<le> maxSessionCookieLen"
    using assms unfolding signed_value_def by blast
  have sp: "strings_Split CHR ''.'' v = [sessionCookieVersion, kid, e, i, sessionMAC hmac secret (cookie_payload kid e i)]"
    unfolding split_cookie using k(2) v(2) by simp
  have "take (length v - length (sessionMAC hmac secret (cookie_payload kid e i)) - 1) v = cookie_payload kid e i"
    by (simp add: k(2))
  then show ?thesis
    using v k(1) sp by (simp add: verify_def Let_def split: option.split)
qed

lemma verify_not_invalid:
  assumes "rd_result (verify hmac now sc v) \<noteq> sessionInvalid"
  shows "\<exists>kid e i. signed_value hmac sc v kid e i"
proof -
  have len: "length v \<le> maxSessionCookieLen" using assms by (auto simp: verify_def split: if_splits)
  obtain version kid e i mac where sp: "strings_Split CHR ''.'' v = [version, kid, e, i, mac]"
    using assms by (auto simp: verify_def split: if_splits list.splits)
  have v: "version = sessionCookieVersion" "i \<noteq> []" using assms len sp
    by (auto simp: verify_def Let_def split: if_splits option.splits)
  obtain secret where k: "map_get (ck_keys sc) kid = Some secret"
    "mac = sessionMAC hmac secret (take (length v - length mac - 1) v)"
    using assms len sp v by (auto simp: verify_def Let_def split: if_splits option.splits)
  have c: "v = cookie_payload kid e i @ ''.'' @ mac" "CHR ''.'' \<notin> set kid \<union> set e \<union> set i \<union> set mac"
    using sp unfolding v(1) split_cookie by blast+
  have "take (length v - length mac - 1) v = cookie_payload kid e i" by (simp add: c(1))
  then have "mac = sessionMAC hmac secret (cookie_payload kid e i)" using k(2) by simp
  then have "signed_value hmac sc v kid e i"
    using k(1) c v(2) len unfolding signed_value_def by blast
  then show ?thesis by blast
qed

lemma verify_validD:
  assumes "rd_result (verify hmac now sc v) = sessionValid"
  shows "\<exists>kid e i sec. signed_value hmac sc v kid e i \<and> ParseInt e = Some sec \<and> now < time_Unix sec
    \<and> rd_id (verify hmac now sc v) = i"
proof -
  obtain kid e i where s: "signed_value hmac sc v kid e i"
    using verify_not_invalid [of hmac now sc v] assms by auto
  then show ?thesis
    using assms by (auto simp: verify_signed [OF s] split: option.splits if_splits)
qed

text \<open>
  C6: verification is exact: a value is accepted as valid exactly when it is the signature, with
  a listed key, of a session identifier and an expiry that lies in the future, and \<open>expired\<close> is
  only ever reported for an authentic value; everything else is invalid.
\<close>

theorem verify_accepts_exactly_signatures:
  "(rd_result (verify hmac now sc v) = sessionValid \<longleftrightarrow>
     (\<exists>kid e i sec. signed_value hmac sc v kid e i \<and> ParseInt e = Some sec \<and> now < time_Unix sec
       \<and> rd_id (verify hmac now sc v) = i \<and> rd_kid (verify hmac now sc v) = kid
       \<and> rd_expiry (verify hmac now sc v) = time_Unix sec))
   \<and> (rd_result (verify hmac now sc v) = sessionExpired \<longleftrightarrow>
     (\<exists>kid e i sec. signed_value hmac sc v kid e i \<and> ParseInt e = Some sec \<and> time_Unix sec \<le> now))
   \<and> rd_result (verify hmac now sc v) \<in> {sessionValid, sessionExpired, sessionInvalid}"
proof (cases "\<exists>kid e i. signed_value hmac sc v kid e i")
  case True
  then obtain kid e i where s: "signed_value hmac sc v kid e i" by blast
  have same: "kid' = kid \<and> e' = e \<and> i' = i" if "signed_value hmac sc v kid' e' i'" for kid' e' i'
  proof -
    have "strings_Split CHR ''.'' v = [sessionCookieVersion, kid, e, i, mac]
        \<Longrightarrow> strings_Split CHR ''.'' v = [sessionCookieVersion, kid', e', i', mac'] \<Longrightarrow> kid' = kid \<and> e' = e \<and> i' = i" for mac mac'
      by simp
    then show ?thesis using s that unfolding signed_value_def split_cookie by (metis Un_iff sessionMAC_no_dot)
  qed
  show ?thesis
  proof (cases "ParseInt e")
    case None
    then show ?thesis using same by (auto simp: verify_signed [OF s])
  next
    case (Some sec)
    show ?thesis
    proof (cases "now < time_Unix sec")
      case True
      have v: "verify hmac now sc v = \<lparr>rd_result = sessionValid, rd_id = i, rd_kid = kid, rd_expiry = time_Unix sec\<rparr>"
        using Some True by (simp add: verify_signed [OF s])
      have "\<not> (signed_value hmac sc v kid' e' i' \<and> ParseInt e' = Some sec' \<and> time_Unix sec' \<le> now)" for kid' e' i' sec'
        using same [of kid' e' i'] Some True by auto
      then show ?thesis unfolding v using s Some True by auto
    next
      case False
      have v: "verify hmac now sc v = read_result sessionExpired"
        using Some False by (simp add: verify_signed [OF s])
      have "\<not> (signed_value hmac sc v kid' e' i' \<and> ParseInt e' = Some sec' \<and> now < time_Unix sec')" for kid' e' i' sec'
        using same [of kid' e' i'] Some False by auto
      moreover have "time_Unix sec \<le> now" using False by simp
      ultimately show ?thesis unfolding v using s Some by auto
    qed
  qed
next
  case False
  then have "rd_result (verify hmac now sc v) = sessionInvalid" using verify_not_invalid by blast
  then show ?thesis using False by simp
qed

section \<open>The life of a session\<close>

lemma dec_nat_length: "0 < k \<Longrightarrow> n < 10 ^ k \<Longrightarrow> length (dec_nat n) \<le> k"
proof (induction n arbitrary: k rule: dec_nat.induct)
  case (1 n)
  show ?case
  proof (cases "n < 10")
    case True
    then show ?thesis using 1(2) by (subst dec_nat.simps) simp
  next
    case False
    then have "k \<noteq> 1" using 1(3) by auto
    then obtain j where k: "k = Suc j" "0 < j" using 1(2) by (cases k) auto
    have "n div 10 < 10 ^ j" using 1(3) by (simp add: k less_mult_imp_div_less mult.commute)
    then have "length (dec_nat (n div 10)) \<le> j" using 1(1) False k(2) by simp
    then show ?thesis using False by (subst dec_nat.simps) (simp add: k)
  qed
qed

lemma Unix_sec_id:
  assumes "0 \<le> t" "t < 2 ^ 62"
  shows "Unix_sec t = t div second" "in_int64 (t div second)" "time_Unix (t div second) = t div second * second"
    "length (FormatInt (t div second)) \<le> 10" "0 \<le> t div second"
proof -
  have d: "0 \<le> t div second" "t div second < 10 ^ 10" using assms by (simp_all add: second_def)
  then show "in_int64 (t div second)" "0 \<le> t div second" by (simp_all add: in_int64_def)
  then show "Unix_sec t = t div second" by (simp add: Unix_sec_def wrap64_id)
  have "in_int64 (t div second + 62135596800)" using d by (simp add: in_int64_def)
  then show "time_Unix (t div second) = t div second * second" by (simp add: time_Unix_def wrap64_id)
  have "nat (t div second) < 10 ^ 10" using d by (simp add: nat_less_iff)
  then show "length (FormatInt (t div second)) \<le> 10"
    using d dec_nat_length [of 10 "nat (t div second)"] by (simp add: FormatInt_def)
qed

text \<open>What a block needs for its cookies to be usable: a short key id and 32-byte digests.\<close>

definition session_ok :: "hmac_fun \<Rightarrow> sessionCookies \<Rightarrow> bool" where
  "session_ok hmac sc \<longleftrightarrow> map_get (ck_keys sc) (ck_signKID sc) \<noteq> None \<and> validateSessionKID (ck_signKID sc) = None
     \<and> length (ck_signKID sc) \<le> 150
     \<and> (\<forall>e i. length (hmac (secret_of sc (ck_signKID sc)) (cookie_payload (ck_signKID sc) e i)) = 32)"

lemma sign_signed:
  assumes "session_ok hmac sc" "i \<noteq> []" "CHR ''.'' \<notin> set i" "length i \<le> 40" "0 \<le> expiry" "expiry < 2 ^ 62"
  shows "signed_value hmac sc (sign hmac sc i expiry) (ck_signKID sc) (FormatInt (expiry div second)) i"
proof -
  let ?kid = "ck_signKID sc" and ?e = "FormatInt (expiry div second)"
  obtain secret where k: "map_get (ck_keys sc) ?kid = Some secret" using assms(1) by (auto simp: session_ok_def)
  then have so: "secret_of sc ?kid = secret" by (simp add: secret_of_def)
  have v: "sign hmac sc i expiry = cookie_payload ?kid ?e i @ ''.'' @ sessionMAC hmac secret (cookie_payload ?kid ?e i)"
    using Unix_sec_id(1) [OF assms(5,6)] by (simp add: sign_def so Let_def)
  have "length (sessionMAC hmac secret (cookie_payload ?kid ?e i)) = 43"
    using assms(1) by (simp add: session_ok_def so sessionMAC_def)
  moreover have "length (cookie_payload ?kid ?e i) \<le> 205"
    using assms(1,4) Unix_sec_id(4) [OF assms(5,6)] by (simp add: session_ok_def cookie_payload_def sessionCookieVersion_def)
  ultimately have "length (sign hmac sc i expiry) \<le> maxSessionCookieLen" by (simp add: v maxSessionCookieLen_def)
  then show ?thesis
    using k v assms(2,3) kid_no_dot [of ?kid] assms(1) FormatInt_no_dot by (auto simp: signed_value_def session_ok_def)
qed

text \<open>
  C24: what a block signs it verifies: with a digest of 32 bytes and a signing key whose id is valid
  and at most 150 characters long, until the expiry, cut down to the second, a signed value is
  read back as valid with the same identifier and key; from then on as expired.
\<close>

theorem sign_verify_roundtrip:
  assumes "session_ok hmac sc" "i \<noteq> []" "CHR ''.'' \<notin> set i" "length i \<le> 40" "0 \<le> expiry" "expiry < 2 ^ 62"
  shows "verify hmac now sc (sign hmac sc i expiry) =
    (if now < expiry div second * second
     then \<lparr>rd_result = sessionValid, rd_id = i, rd_kid = ck_signKID sc, rd_expiry = expiry div second * second\<rparr>
     else read_result sessionExpired)"
  using verify_signed [OF sign_signed [OF assms], of now] ParseInt_FormatInt Unix_sec_id [OF assms(5,6)] by simp

text \<open>A stand-in for the digest in the examples: 32 bytes cut out of the two arguments.\<close>

definition toy_hmac :: hmac_fun where
  "toy_hmac k m = take 32 (drop 3 m @ k @ replicate 32 CHR ''0'')"

definition demo_session :: sessionCookies where
  "demo_session = \<lparr>ck_name = ''aac_session'', ck_ttl = 30 * minute, ck_issue = True, ck_check = True,
     ck_signKID = ''k1'', ck_keys = [(''k1'', replicate 32 CHR ''a''), (''k0'', replicate 32 CHR ''b'')]\<rparr>"

lemma toy_hmac_length [simp]: "length (toy_hmac k m) = 32"
  by (simp add: toy_hmac_def min_def)

lemma demo_session_ok: "session_ok toy_hmac demo_session"
  by (simp add: session_ok_def demo_session_def validateSessionKID_def kid_char_def)

theorem sign_verify_roundtrip_witness:
  "verify toy_hmac 5 demo_session (sign toy_hmac demo_session ''abc'' (61 * second + 7)) =
    \<lparr>rd_result = sessionValid, rd_id = ''abc'', rd_kid = ''k1'', rd_expiry = 61 * second\<rparr>"
  using sign_verify_roundtrip [OF demo_session_ok, of "''abc''" "61 * second + 7" 5]
  by (simp add: second_def demo_session_def)

text \<open>
  C23: a session survives renewal and nothing is sent in between: with a digest of 32 bytes and a
  signing key whose id is valid and at most 150 characters long, after an issuing block has sent
  a cookie at time \<open>t\<close>, the cookie is valid until its expiry with the same identifier; while more
  than half of the lifetime is left nothing is sent again, and after that the renewed cookie
  carries the same identifier. Half a lifetime is less than the first expiry.
\<close>

theorem session_is_renewed_in_place:
  assumes "session_ok hmac sc" "ck_issue sc" "0 < ck_ttl sc"
    "maybeIssue hmac t rnd16 (Some sc) (read_result sessionAbsent) = (Some c, Some sessionIssued)"
    "length (the rnd16) = 16" "0 \<le> t" "t + ck_ttl sc < 2 ^ 62" "t \<le> now" "now < (t + ck_ttl sc) div second * second"
  shows "\<exists>i. newID rnd16 = Some i \<and> hc_Value c = sign hmac sc i (t + ck_ttl sc)
    \<and> (let s = session_read hmac now (Some sc) [(hc_Name c, hc_Value c)] in
        rd_result s = sessionValid \<and> rd_id s = i
        \<and> maybeIssue hmac now rnd' (Some sc) s =
            (if ck_ttl sc div 2 < (t + ck_ttl sc) div second * second - now then (None, None)
             else (Some (c\<lparr>hc_Value := sign hmac sc i (now + ck_ttl sc)\<rparr>), Some sessionRenewed)))"
proof -
  let ?exp = "(t + ck_ttl sc) div second * second"
  obtain i where i: "newID rnd16 = Some i" and c: "SetCookie \<lparr>hc_Name = ck_name sc, hc_Value = sign hmac sc i (t + ck_ttl sc),
      hc_MaxAge = quot64 (ck_ttl sc) second\<rparr> = Some c"
    using assms(2,4) by (auto simp: maybeIssue_def Let_def split: option.splits)
  have cv: "c = \<lparr>hc_Name = ck_name sc, hc_Value = sign hmac sc i (t + ck_ttl sc), hc_MaxAge = quot64 (ck_ttl sc) second\<rparr>"
    and tok: "ck_name sc \<noteq> [] \<and> list_all token_char (ck_name sc)"
    using c by (auto simp: SetCookie_def split: if_splits)
  have ii: "i \<noteq> []" "CHR ''.'' \<notin> set i" "length i \<le> 40"
    using i assms(5) by (auto simp: newID_def)
  have v: "verify hmac now sc (hc_Value c) =
      \<lparr>rd_result = sessionValid, rd_id = i, rd_kid = ck_signKID sc, rd_expiry = ?exp\<rparr>"
    using sign_verify_roundtrip [OF assms(1) ii, of "t + ck_ttl sc" now] assms(3,6,7,9) by (simp add: cv)
  have "hc_Value c \<noteq> []" by (simp add: cv sign_def cookie_payload_def sessionCookieVersion_def Let_def)
  then have s: "session_read hmac now (Some sc) [(hc_Name c, hc_Value c)] =
      \<lparr>rd_result = sessionValid, rd_id = i, rd_kid = ck_signKID sc, rd_expiry = ?exp\<rparr>"
    using v by (simp add: session_read_def cv)
  have "?exp \<le> t + ck_ttl sc" by (simp add: second_def)
  then have "in_int64 (?exp - now)" using assms(6-9) by (simp add: in_int64_def)
  moreover have "in_int64 (ck_ttl sc)" using assms(3,6,7) by (simp add: in_int64_def)
  then have "quot64 (ck_ttl sc) 2 = ck_ttl sc div 2" using assms(3) by (intro quot64_nonneg) simp_all
  ultimately have "maybeIssue hmac now rnd' (Some sc) \<lparr>rd_result = sessionValid, rd_id = i, rd_kid = ck_signKID sc, rd_expiry = ?exp\<rparr> =
      (if ck_ttl sc div 2 < ?exp - now then (None, None)
       else (Some (c\<lparr>hc_Value := sign hmac sc i (now + ck_ttl sc)\<rparr>), Some sessionRenewed))"
    using assms(2) tok by (simp add: maybeIssue_def Let_def time_Sub_def sat64_id SetCookie_def cv)
  then show ?thesis using i s cv by (simp add: Let_def)
qed

theorem session_is_renewed_in_place_witness:
  "\<exists>c. maybeIssue toy_hmac 0 (Some (replicate 16 CHR ''x'')) (Some demo_session) (read_result sessionAbsent) = (Some c, Some sessionIssued)
    \<and> rd_result (session_read toy_hmac (20 * minute) (Some demo_session) [(hc_Name c, hc_Value c)]) = sessionValid"
proof -
  obtain c where c: "maybeIssue toy_hmac 0 (Some (replicate 16 CHR ''x'')) (Some demo_session) (read_result sessionAbsent) =
      (Some c, Some sessionIssued)"
    by (simp add: maybeIssue_def newID_def Let_def demo_session_def SetCookie_def token_char_def kid_char_def)
  show ?thesis
    using session_is_renewed_in_place [OF demo_session_ok _ _ c, of "20 * minute"] c
    by (auto simp: Let_def demo_session_def minute_def second_def)
qed

text \<open>
  the length of a key id is not limited when the keys are loaded, but a value of more than
  256 bytes is refused before anything else is looked at: with a key id of 250 letters the block
  starts, and no cookie it issues is ever accepted.
\<close>

theorem long_key_id_never_verifies:
  "validateSessionKID (replicate 250 CHR ''k'') = None
    \<and> newSessionCookies (\<lambda>_. Some (replicate 32 CHR ''s''))
        \<lparr>scc_Mode = ''both'', scc_Name = [], scc_TTL = 0, scc_Keys = [\<lparr>sk_KID = replicate 250 CHR ''k'', sk_File = f\<rparr>]\<rparr> =
        Inr \<lparr>ck_name = ''aac_session'', ck_ttl = 30 * minute, ck_issue = True, ck_check = True,
          ck_signKID = replicate 250 CHR ''k'', ck_keys = [(replicate 250 CHR ''k'', replicate 32 CHR ''s'')]\<rparr>
    \<and> verify hmac now sc (sign hmac (sc\<lparr>ck_signKID := replicate 250 CHR ''k''\<rparr>) i expiry) = read_result sessionInvalid"
proof (intro conjI)
  show kid: "validateSessionKID (replicate 250 CHR ''k'') = None"
    by (simp add: validateSessionKID_def kid_char_def list_all_length)
  have "TrimSpace (replicate 32 CHR ''s'') = replicate 32 CHR ''s''" by code_simp
  then show "newSessionCookies (\<lambda>_. Some (replicate 32 CHR ''s''))
        \<lparr>scc_Mode = ''both'', scc_Name = [], scc_TTL = 0, scc_Keys = [\<lparr>sk_KID = replicate 250 CHR ''k'', sk_File = f\<rparr>]\<rparr> =
        Inr \<lparr>ck_name = ''aac_session'', ck_ttl = 30 * minute, ck_issue = True, ck_check = True,
          ck_signKID = replicate 250 CHR ''k'', ck_keys = [(replicate 250 CHR ''k'', replicate 32 CHR ''s'')]\<rparr>"
    using kid by (simp add: newSessionCookies_def Let_def sessionModeCheck_def sessionModeIssue_def sessionModeBoth_def
        defaultSessionCookieName_def defaultSessionCookieTTL_def minSessionKeyBytes_def map_put_def)
  have "FormatInt (Unix_sec expiry) \<noteq> []" by (simp add: FormatInt_def)
  then have "0 < length (FormatInt (Unix_sec expiry))" by simp
  then have "256 < length (sign hmac (sc\<lparr>ck_signKID := replicate 250 CHR ''k''\<rparr>) i expiry)"
    by (simp add: sign_def Let_def cookie_payload_def sessionCookieVersion_def del: length_greater_0_conv)
  then show "verify hmac now sc (sign hmac (sc\<lparr>ck_signKID := replicate 250 CHR ''k''\<rparr>) i expiry) = read_result sessionInvalid"
    by (simp add: verify_def maxSessionCookieLen_def)
qed

end
