(* ===== verification/Fairness_Handler.thy ===== *)
theory Fairness_Handler imports Fairness_App Scoring Session Request_Vars begin

text \<open>
  The fairness middleware (\<^verbatim>\<open>fairness/module.go\<close>): provisioning with its validation of
  what the enabled dimensions need, releasing, cleaning up, and the request path that
  classifies, scores and hands the score on.
\<close>

section \<open>Provisioning\<close>

record FairnessHandler =
  fh_Config :: FairnessConfig
  fh_app :: bool
  fh_geo :: "geoLookup option"
  fh_auth :: "verifier option"
  fh_ScoringOverrides :: "scoringOverrides option"
  fh_scoring :: "scoringState option"
  fh_session :: "sessionCookies option"

datatype fairness_error =
    FAppLookup
  | FAppType
  | FPool
  | FNotConfigured string
  | FFailedToOpen string string
  | FSessionCookie session_error
  | FExemptNotConfigured string
  | FExemptFailedToOpen string string

text \<open>The validation of one data source: \<open>None\<close> if it is open.\<close>

definition need_reader :: "geoReader option \<Rightarrow> string \<Rightarrow> (string \<Rightarrow> fairness_error) \<Rightarrow> (string \<Rightarrow> string \<Rightarrow> fairness_error)
    \<Rightarrow> string \<Rightarrow> fairness_error option" where
  "need_reader g path unset broken dm =
    (if reader_of g = None then Some (if path = [] then unset dm else broken dm path) else None)"

definition need_user :: "FairnessHandler \<Rightarrow> fairness_error option" where
  "need_user h =
    (if (case fh_session h of None \<Rightarrow> True | Some sc \<Rightarrow> \<not> ck_check sc) \<and> Option.bind (fh_auth h) vf_kf = None
     then Some (if fc_AuthJWKSURL (fh_Config h) = [] then FNotConfigured ''user''
       else FFailedToOpen ''user'' (fc_AuthJWKSURL (fh_Config h)))
     else None)"

fun check_exempt :: "FairnessHandler \<Rightarrow> geoReader option \<Rightarrow> (string \<times> PenaltyConfig) list \<Rightarrow> fairness_error option" where
  "check_exempt h city [] = None"
| "check_exempt h city ((dm, pc) # ds) =
    (if pc_ExemptCountries pc = [] then check_exempt h city ds
     else case need_reader city (fc_GeoIPCityDB (fh_Config h)) FExemptNotConfigured FExemptFailedToOpen dm of
       Some e \<Rightarrow> Some e
     | None \<Rightarrow> check_exempt h city ds)"

text \<open>
  The checks in the order of the code; the session cookie is set up between them. The result is
  the handler as far as it got, with the error if there is one.
\<close>

definition validate_handler :: "(string \<Rightarrow> string option) \<Rightarrow> ScoringConfig \<Rightarrow> geoLookup \<Rightarrow> FairnessHandler
    \<Rightarrow> fairness_error option \<times> FairnessHandler" where
  "validate_handler readFile resolved g h =
    (let dims = sc_Dimensions resolved; cfg = fh_Config h;
         enabled = (\<lambda>dm. map_get dims dm \<noteq> None);
         e_asn = (if enabled ''asn'' then need_reader (gl_asn g) (fc_GeoIPASNDB cfg) FNotConfigured FFailedToOpen ''asn'' else None);
         e_country = (if enabled ''country''
           then need_reader (gl_city g) (fc_GeoIPCityDB cfg) FNotConfigured FFailedToOpen ''country'' else None)
     in if e_asn \<noteq> None then (e_asn, h)
        else if e_country \<noteq> None then (e_country, h)
        else case (case fc_SessionCookie cfg of None \<Rightarrow> Inr (fh_session h)
               | Some sc \<Rightarrow> (case newSessionCookies readFile sc of Inl e \<Rightarrow> Inl e | Inr s \<Rightarrow> Inr (Some s))) of
            Inl e \<Rightarrow> (Some (FSessionCookie e), h)
          | Inr session \<Rightarrow>
              let h = h\<lparr>fh_session := session\<rparr>;
                  e_user = (if enabled ''user'' then need_user h else None)
              in if e_user \<noteq> None then (e_user, h) else (check_exempt h (gl_city g) dims, h))"

definition releaseAcquired :: "('p, 'q) app_env \<Rightarrow> FairnessHandler \<Rightarrow> ('p, 'q) FairnessApp \<Rightarrow> ('p, 'q) FairnessApp" where
  "releaseAcquired E h a =
    (if \<not> fh_app h then a
     else let cfg = fh_Config h in
       releaseVerifier E (fc_AuthJWKSURL cfg) (releaseGeoReader E (fc_GeoIPASNDB cfg)
         (releaseGeoReader E (fc_GeoIPCityDB cfg) a)))"

text \<open>
  The whole of \<open>Provision\<close> for the handler at \<open>ptr\<close>: the error if any, the handler and the app
  module afterwards. The two background goroutines started last call \<open>tick\<close> and \<open>gc\<close>.
\<close>

definition fProvision :: "('p, 'q) app_env \<Rightarrow> (string \<Rightarrow> string option) \<Rightarrow> handler_ptr \<Rightarrow> FairnessHandler
    \<Rightarrow> ('p, 'q) FairnessApp app_lookup
    \<Rightarrow> fairness_error option \<times> FairnessHandler \<times> ('p, 'q) FairnessApp option" where
  "fProvision E readFile ptr h app =
    (case app of
       AppError \<Rightarrow> (Some FAppLookup, h, None)
     | UnexpectedApp \<Rightarrow> (Some FAppType, h, None)
     | AppFound a \<Rightarrow>
         let h = h\<lparr>fh_app := True\<rparr>; cfg = fh_Config h in
         (case acquireGeoReader E (fc_GeoIPCityDB cfg) a of
            None \<Rightarrow> (Some FPool, h, Some a)
          | Some (city, a) \<Rightarrow> (case acquireGeoReader E (fc_GeoIPASNDB cfg) a of
              None \<Rightarrow> (Some FPool, h, Some a)
            | Some (asn, a) \<Rightarrow>
                let g = \<lparr>gl_city = city, gl_asn = asn\<rparr>; h = h\<lparr>fh_geo := Some g\<rparr> in
                (case acquireVerifier E (fc_AuthJWKSURL cfg) (fc_AuthIssuer cfg) (fc_AuthAudience cfg) defaultJWKSRefreshInterval a of
                   None \<Rightarrow> (Some FPool, h, Some a)
                 | Some (v, a) \<Rightarrow>
                     let h = (if fc_AuthJWKSURL cfg \<noteq> [] then h\<lparr>fh_auth := v\<rparr> else h);
                         resolved = resolveScoringConfig (fh_ScoringOverrides h)
                     in (case validate_handler readFile resolved g h of
                           (Some e, h) \<Rightarrow> (Some e, h, Some (releaseAcquired E h a))
                         | (None, h) \<Rightarrow>
                             (None,
                              h\<lparr>fh_scoring := Some (newScoringState resolved (ewmaTickInterval (Some cfg)) (idleEntryTTL (Some cfg)))\<rparr>,
                              Some (fregisterHandler (fairness_backendLabel (Some cfg)) ptr a)))))))"

text \<open>\<open>Cleanup\<close>; stopping the scoring goroutines leaves the statistics as they are.\<close>

definition fCleanup :: "('p, 'q) app_env \<Rightarrow> handler_ptr \<Rightarrow> FairnessHandler \<Rightarrow> ('p, 'q) FairnessApp \<Rightarrow> ('p, 'q) FairnessApp" where
  "fCleanup E ptr h a =
    (if \<not> fh_app h then a
     else releaseAcquired E h (funregisterHandler (fairness_backendLabel (Some (fh_Config h))) ptr a))"

section \<open>The request path\<close>

definition classificationVarKey :: string where "classificationVarKey = ''fairness_classification''"
definition scoreVarKey :: string where "scoreVarKey = ''fairness_score''"
definition logFieldsVarKey :: string where "logFieldsVarKey = ''fairness_log_fields''"

datatype fairness_metric = MSessionCookies string string | MScoreDistribution string UserClass f64

text \<open>What a request sees of the world: the databases, the JWT library, the digest, the random
  bytes, and the clock at the three moments it is read.\<close>

record request_env =
  re_dbs :: geo_dbs
  re_jwt :: jwt_lib
  re_hmac :: hmac_fun
  re_rand :: "string option"
  re_now_read :: time
  re_now_issue :: time
  re_now_track :: time

record handed_on =
  ho_handler :: FairnessHandler
  ho_classification :: Classification
  ho_vars :: vars
  ho_set_cookie :: "http_cookie option"
  ho_metrics :: "fairness_metric list"

text \<open>
  Everything before \<^verbatim>\<open>next.ServeHTTP\<close>, which is then called with the variables as they
  are and whose error is returned: there is no other exit.
\<close>

definition fServeHTTP :: "request_env \<Rightarrow> FairnessHandler \<Rightarrow> http_request \<Rightarrow> vars \<Rightarrow> handed_on" where
  "fServeHTTP R h r vs =
    (let ip = resolveClientIP r;
         classification = classify (re_dbs R) (re_jwt R) (Some (fh_Config h)) (fh_geo h) (fh_auth h) ip r;
         backend = fairness_backendLabel (Some (fh_Config h));
         sess = session_read (re_hmac R) (re_now_read R) (fh_session h) (rq_cookies r);
         checking = (case fh_session h of None \<Rightarrow> False | Some sc \<Rightarrow> ck_check sc);
         classification = (if checking then applySession sess classification else classification);
         m_checked = (if checking \<and> rd_result sess \<noteq> sessionAbsent
           then [MSessionCookies backend (sessionResult_String (rd_result sess))] else []);
         (set_cookie, action) = maybeIssue (re_hmac R) (re_now_issue R) (re_rand R) (fh_session h) sess;
         m_issued = (case action of None \<Rightarrow> [] | Some act \<Rightarrow> [MSessionCookies backend (sessionResult_String act)]);
         vs = map_put classificationVarKey VOther vs;
         scoring = track classification (re_now_track R) (fh_scoring h);
         (score, breakdown) = computeScoreBreakdown scoring classification;
         divisor = priorityDivisor scoring (rq_query r);
         (score, breakdown) = (if \<not> feq divisor (Fin 1)
           then (fdiv score divisor, map_put ''final'' (fdiv score divisor) breakdown) else (score, breakdown));
         vs = map_put scoreVarKey (VFloat score) vs;
         fields = [(''ip'', FStr (cl_IP classification)), (''asn'', FUint (cl_ASN classification)),
           (''country'', FStr (cl_Country classification)), (''user_class'', FStr (cl_UserClass classification)),
           (''exempt'', FBool (countryExempt scoring (cl_Country classification))), (''score_breakdown'', FFloats breakdown)]
     in \<lparr>ho_handler = h\<lparr>fh_scoring := scoring\<rparr>, ho_classification = classification,
         ho_vars = map_put logFieldsVarKey (VFields fields) vs, ho_set_cookie = set_cookie,
         ho_metrics = m_checked @ m_issued @ [MScoreDistribution backend (cl_UserClass classification) score]\<rparr>)"

section \<open>The status endpoint\<close>

record sessionCookieStatus =
  ks_Name :: string
  ks_Issue :: bool
  ks_Check :: bool
  ks_TTLSeconds :: f64
  ks_SigningKID :: string
  ks_KIDs :: "string list"

definition session_status :: "sessionCookies option \<Rightarrow> sessionCookieStatus option" where
  "session_status sc = map_option (\<lambda>sc. \<lparr>ks_Name = ck_name sc, ks_Issue = ck_issue sc, ks_Check = ck_check sc,
     ks_TTLSeconds = Seconds (ck_ttl sc), ks_SigningKID = ck_signKID sc, ks_KIDs = sort (map fst (ck_keys sc))\<rparr>) sc"

record backendScoringStatus =
  bk_Backend :: string
  bk_BaseScores :: "(UserClass, f64) gomap"
  bk_MinScore :: f64
  bk_MaxScore :: f64
  bk_Dimensions :: "(string, PenaltyConfig) gomap"
  bk_Divisors :: "(string, f64) gomap"
  bk_DimensionEntryCounts :: "(string, go_int) gomap"
  bk_SessionCookie :: "sessionCookieStatus option"

record fairness_status =
  fs_Backends :: "backendScoringStatus list"
  fs_GeoIP :: "resourceHealth list"
  fs_JWKS :: "resourceHealth list"

datatype fstatus_error = FMethodNotAllowed | FNotFound

definition backend_scoring_status :: "FairnessHandler \<Rightarrow> backendScoringStatus" where
  "backend_scoring_status h =
    (let cfg = resolvedConfig (fh_scoring h) in
     \<lparr>bk_Backend = fairness_backendLabel (Some (fh_Config h)), bk_BaseScores = sc_BaseScores cfg,
      bk_MinScore = sc_MinScore cfg, bk_MaxScore = sc_MaxScore cfg, bk_Dimensions = sc_Dimensions cfg,
      bk_Divisors = sc_Divisors cfg, bk_DimensionEntryCounts = entryCounts (fh_scoring h),
      bk_SessionCookie = session_status (fh_session h)\<rparr>)"

definition fhandleStatus :: "('p, 'q) app_env \<Rightarrow> string \<Rightarrow> (handler_ptr \<Rightarrow> FairnessHandler) \<Rightarrow> ('p, 'q) FairnessApp option
    \<Rightarrow> fstatus_error + fairness_status" where
  "fhandleStatus E method deref app =
    (if method \<noteq> ''GET'' then Inl FMethodNotAllowed
     else case app of
       None \<Rightarrow> Inl FNotFound
     | Some a \<Rightarrow> Inr
         \<lparr>fs_Backends = sort_key bk_Backend (map (\<lambda>p. backend_scoring_status (deref p))
            (fsnapshotHandlers (\<lambda>p. fairness_backendLabel (Some (fh_Config (deref p)))) a)),
          fs_GeoIP = geoHealth E a, fs_JWKS = jwksHealth E a\<rparr>)"

end
