(* ===== verification/Scoring_Properties.thy ===== *)
theory Scoring_Properties imports Scoring "HOL-Library.Multiset" begin

text \<open>
  What the scoring engine promises: the range, the explanation and the monotonicity of a score,
  its independence of the order in which Go visits a map, and what tracking, ticking and
  sweeping do to the statistics.
\<close>

section \<open>A concrete state\<close>

definition demo_overrides :: scoringOverrides where
  "demo_overrides = \<lparr>so_BaseScores = [], so_EnabledDimensions = [(''ip'', True), (''country'', True)],
     so_Penalties = [(''country'', (default_tuning 5 50)\<lparr>pc_ExemptCountries := [(''PT'', True)]\<rparr>)],
     so_MinScore = None, so_MaxScore = None, so_Divisors = [(''page'', Fin 2), (''q'', Fin 4)]\<rparr>"

definition demo_scoring :: ScoringConfig where
  "demo_scoring = resolveScoringConfig (Some demo_overrides)"

definition demo_client :: Classification where
  "demo_client = \<lparr>cl_IP = ''192.0.2.7'', cl_Net24 = ''192.0.2.0/24'', cl_NetV6 = [], cl_ASN = 0, cl_Country = ''FR'',
     cl_UserClass = UserClassAnonymous, cl_UserID = []\<rparr>"

definition demo_state :: "rat \<Rightarrow> rat \<Rightarrow> scoringState" where
  "demo_state r r' = (newScoringState demo_scoring (2 * second) 0)
     \<lparr>ss_dims := [(''ip'', [(''192.0.2.7'', zeroClientStats\<lparr>cs_EWMARPS := Fin r\<rparr>)]),
        (''country'', [(''FR'', zeroClientStats\<lparr>cs_EWMARPS := Fin r'\<rparr>)])]\<rparr>"

lemma demo_scoring_eq: "demo_scoring = newDefaultScoringConfig
  \<lparr>sc_Dimensions := [(''ip'', default_tuning 20 100),
     (''country'', (default_tuning 5 50)\<lparr>pc_ExemptCountries := [(''PT'', True)]\<rparr>)],
   sc_Divisors := [(''page'', Fin 2), (''q'', Fin 4)]\<rparr>"
  by (simp add: demo_scoring_def demo_overrides_def resolveScoringConfig_def resolve_dimension_def
      defaultPenaltyFor_def newDefaultScoringConfig_def map_put_def Let_def)

lemma demo_scoring_penalties: "penalties_ok demo_scoring" "whole_penalties demo_scoring"
  "wf_map (sc_Dimensions demo_scoring)"
  by (simp_all add: demo_scoring_eq penalties_ok_def whole_penalties_def whole_def default_tuning_def wf_map_def)

lemma demo_state_cfg [simp]: "ss_cfg (demo_state r r') = demo_scoring"
  by (simp add: demo_state_def newScoringState_def)

lemma demo_scoring_facts: "sc_MinScore demo_scoring = Fin 0" "sc_MaxScore demo_scoring = Fin 100"
  "baseScoreFor (sc_BaseScores demo_scoring) (cl_UserClass demo_client) = Fin 60"
  by (simp_all add: demo_scoring_eq newDefaultScoringConfig_def demo_client_def baseScoreFor_def user_class_defs)

section \<open>Lemmas\<close>

lemma total_penalty_config:
  assumes "penalties_ok (ss_cfg s)"
  shows "fle (Fin 0) (total_penalty s c (sc_Dimensions (ss_cfg s)) (Fin 0))"
  using assms by (intro total_penalty_nonneg) (simp_all add: penalties_ok_def fle_def)

section \<open>A base score that is not a number\<close>

lemma nan_literal: "plain_float ''NaN''" "map lower ''NaN'' = ''nan''"
  by code_simp+

text \<open>
  the parser of the numbers of a configuration accepts \<open>NaN\<close>, and with
  \<^verbatim>\<open>base_score anonymous NaN\<close> the score of every anonymous request is NaN: the clamp lets it
  through, whatever \<open>min_score\<close> and \<open>max_score\<close> are.
\<close>

theorem nan_base_score_survives:
  "ParseFloat ext ''NaN'' = Some NaN
    \<and> computeScore (Some (newScoringState
        (resolveScoringConfig (Some (ov\<lparr>so_BaseScores := [(UserClassAnonymous, NaN)]\<rparr>))) ti ttl))
        (c\<lparr>cl_UserClass := UserClassAnonymous\<rparr>) = NaN"
proof
  show "ParseFloat ext ''NaN'' = Some NaN"
    using nan_literal by (simp add: ParseFloat_def)
  show "computeScore (Some (newScoringState
        (resolveScoringConfig (Some (ov\<lparr>so_BaseScores := [(UserClassAnonymous, NaN)]\<rparr>))) ti ttl))
        (c\<lparr>cl_UserClass := UserClassAnonymous\<rparr>) = NaN"
    by (simp add: computeScore_Some newScoringState_def resolveScoringConfig_def Let_def baseScoreFor_def fsub_def)
qed

section \<open>Monotonicity\<close>

text \<open>
  more traffic never raises a score: if no tracked rate is lower in \<open>s'\<close> than in \<open>s\<close>, a
  request scores at most as high in \<open>s'\<close>, in spite of the rounding of the sums.
\<close>

theorem more_traffic_never_raises_score:
  assumes "config_ok (ss_cfg s)" "ss_cfg s' = ss_cfg s"
    "baseScoreFor (sc_BaseScores (ss_cfg s)) (cl_UserClass c) = Fin b"
    "fle (sc_MinScore (ss_cfg s)) (sc_MaxScore (ss_cfg s))"
    "\<And>dm key. fle (entryEWMARPS dm key (Some s)) (entryEWMARPS dm key (Some s'))"
  shows "fle (computeScore (Some s') c) (computeScore (Some s) c)"
proof -
  let ?t = "\<lambda>s. total_penalty s c (sc_Dimensions (ss_cfg s)) (Fin 0)"
  have "fle (?t s) (total_penalty s' c (sc_Dimensions (ss_cfg s)) (Fin 0))"
    using assms(1) by (intro total_penalty_mono [OF _ assms(5)])
      (auto simp: config_ok_def penalties_ok_def list_all_iff fle_def)
  moreover have "fle (Fin 0) (?t s)" using assms(1) by (simp add: config_ok_def total_penalty_config)
  ultimately have "fle (fsub (Fin b) (?t s')) (fsub (Fin b) (?t s))" by (simp add: fsub_antimono assms(2))
  then show ?thesis unfolding computeScore_Some assms(2,3) by (rule clamp_mono [OF _ assms(4)])
qed

lemma demo_rates: "entryEWMARPS dm key (Some (demo_state r r')) =
  (if dm = ''ip'' \<and> key = ''192.0.2.7'' then Fin r else if dm = ''country'' \<and> key = ''FR'' then Fin r' else Fin 0)"
  by (auto simp: entryEWMARPS_def demo_state_def newScoringState_def)

lemma demo_config_ok: "config_ok demo_scoring"
  using demo_scoring_penalties rnd_of_int [of 10] rnd_of_int [of 40]
  by (simp add: config_ok_def f64_ok_def representable_def demo_scoring_eq default_tuning_def)

theorem more_traffic_never_raises_score_witness:
  "fle (computeScore (Some (demo_state 120 60)) demo_client) (computeScore (Some (demo_state 25 7)) demo_client)"
  using more_traffic_never_raises_score [of "demo_state 25 7" "demo_state 120 60" demo_client 60] demo_config_ok
  by (simp add: demo_scoring_facts demo_rates)

section \<open>The breakdown\<close>

definition listed :: "f64 \<Rightarrow> f64 option" where
  "listed p = (if feq p (Fin 0) then None else Some p)"

lemma score_dim_step:
  "score_dim s c (dm, pc) (t, bd) = (case listed (dim_penalty s c dm pc) of None \<Rightarrow> (t, bd)
     | Some p \<Rightarrow> (fadd t p, map_put (penalty_key dm) p bd))"
  by (simp add: score_dim_def listed_def Let_def)

lemma breakdown_penalty:
  assumes "distinct (map fst ds)" "map_get bd (penalty_key dm) = None"
  shows "map_get (snd (fold (score_dim s c) ds (t, bd))) (penalty_key dm) =
    Option.bind (map_get ds dm) (\<lambda>pc. listed (dim_penalty s c dm pc))"
proof -
  have "map_get (snd (fold (score_dim s c) ds (t, bd))) (penalty_key dm) =
      (case Option.bind (map_get ds dm) (\<lambda>pc. listed (dim_penalty s c dm pc)) of Some p \<Rightarrow> Some p
       | None \<Rightarrow> map_get bd (penalty_key dm))"
    using assms(1)
  proof (induction ds arbitrary: t bd)
    case (Cons d ds)
    obtain a pc where d: "d = (a, pc)" by (metis prod.exhaust)
    have "map_get ds a = None" using Cons.prems by (simp add: d map_of_eq_None_iff)
    then show ?case using Cons by (auto simp: d score_dim_step split: option.split)
  qed simp
  then show ?thesis using assms(2) by (simp split: option.split)
qed

lemma breakdown_other:
  "(\<And>dm. k \<noteq> penalty_key dm) \<Longrightarrow> map_get (snd (fold (score_dim s c) ds (t, bd))) k = map_get bd k"
proof (induction ds arbitrary: t bd)
  case (Cons d ds)
  obtain a pc where d: "d = (a, pc)" by (metis prod.exhaust)
  then show ?case using Cons by (auto simp: score_dim_step split: option.split)
qed simp

text \<open>An entry of the breakdown, by its key.\<close>

lemma breakdown_entry:
  assumes "wf_map (sc_Dimensions (ss_cfg s))"
  shows "map_get (snd (computeScoreBreakdown (Some s) c)) (penalty_key dm) =
      Option.bind (map_get (sc_Dimensions (ss_cfg s)) dm) (\<lambda>pc. listed (dim_penalty s c dm pc))"
    and "map_get (snd (computeScoreBreakdown (Some s) c)) ''final'' = Some (computeScore (Some s) c)"
    and "map_get (snd (computeScoreBreakdown (Some s) c)) ''total_penalty'' =
      Some (total_penalty s c (sc_Dimensions (ss_cfg s)) (Fin 0))"
    and "(\<And>dm. k \<noteq> penalty_key dm) \<Longrightarrow> k \<noteq> ''final'' \<Longrightarrow> k \<noteq> ''total_penalty'' \<Longrightarrow>
      map_get (snd (computeScoreBreakdown (Some s) c)) k =
      (if k = ''base'' then Some (baseScoreFor (sc_BaseScores (ss_cfg s)) (cl_UserClass c)) else None)"
proof -
  let ?ds = "sc_Dimensions (ss_cfg s)" and ?b = "baseScoreFor (sc_BaseScores (ss_cfg s)) (cl_UserClass c)"
  show "map_get (snd (computeScoreBreakdown (Some s) c)) (penalty_key dm) =
      Option.bind (map_get ?ds dm) (\<lambda>pc. listed (dim_penalty s c dm pc))"
    using breakdown_penalty [of ?ds "[(''base'', ?b)]" dm s c "Fin 0"] assms
    by (simp add: computeScoreBreakdown_def Let_def wf_map_def split_beta)
  show "map_get (snd (computeScoreBreakdown (Some s) c)) ''final'' = Some (computeScore (Some s) c)"
    by (simp add: computeScore_def computeScoreBreakdown_def Let_def split_beta)
  show "map_get (snd (computeScoreBreakdown (Some s) c)) ''total_penalty'' = Some (total_penalty s c ?ds (Fin 0))"
    using score_dims_total [of s c ?ds "(Fin 0, [(''base'', ?b)])"]
    by (simp add: computeScoreBreakdown_def Let_def split_beta)
  show "map_get (snd (computeScoreBreakdown (Some s) c)) k = (if k = ''base'' then Some ?b else None)"
    if "\<And>dm. k \<noteq> penalty_key dm" "k \<noteq> ''final''" "k \<noteq> ''total_penalty''"
    using breakdown_other [OF that(1), of s c ?ds "Fin 0" "[(''base'', ?b)]"] that(2,3)
    by (simp add: computeScoreBreakdown_def Let_def split_beta)
qed

text \<open>
  the breakdown explains the score: it names the base score, the total penalty and the final
  score, which is the clamped difference, and it lists a penalty for exactly the enabled
  dimensions that apply, are not exempt for the country, and whose rate exceeds a threshold;
  the total is the sum of the dimensions' penalties.
\<close>

theorem breakdown_explains_score:
  assumes "wf_map (sc_Dimensions (ss_cfg s))"
  shows "let (score, bd) = computeScoreBreakdown (Some s) c; cfg = ss_cfg s;
      base = baseScoreFor (sc_BaseScores cfg) (cl_UserClass c);
      total = fold (\<lambda>(dm, pc) t. if feq (dim_penalty s c dm pc) (Fin 0) then t else fadd t (dim_penalty s c dm pc))
        (sc_Dimensions cfg) (Fin 0)
    in map_get bd ''base'' = Some base \<and> map_get bd ''total_penalty'' = Some total
      \<and> map_get bd ''final'' = Some score
      \<and> score = clamp (fsub base total) (sc_MinScore cfg) (sc_MaxScore cfg)
      \<and> (\<forall>dm. map_get bd (penalty_key dm) =
          (case map_get (sc_Dimensions cfg) dm of None \<Rightarrow> None
           | Some pc \<Rightarrow> (case dimensionKey dm c of None \<Rightarrow> None
             | Some key \<Rightarrow>
                 if map_get (pc_ExemptCountries pc) (cl_Country c) = Some True then None
                 else listed (penaltyContribution pc (entryEWMARPS dm key (Some s))))))"
proof -
  let ?cfg = "ss_cfg s"
  let ?base = "baseScoreFor (sc_BaseScores ?cfg) (cl_UserClass c)"
  let ?total = "total_penalty s c (sc_Dimensions ?cfg) (Fin 0)"
  obtain t bd where f: "fold (score_dim s c) (sc_Dimensions ?cfg) (Fin 0, [(''base'', ?base)]) = (t, bd)"
    by (metis prod.exhaust)
  have t: "t = ?total"
    using score_dims_total [of s c "sc_Dimensions ?cfg" "(Fin 0, [(''base'', ?base)])"] f by simp
  have total: "?total = fold (\<lambda>(dm, pc) t. if feq (dim_penalty s c dm pc) (Fin 0) then t else fadd t (dim_penalty s c dm pc))
      (sc_Dimensions ?cfg) (Fin 0)"
    by (simp add: total_penalty_def add_penalty_def [abs_def])
  have bd: "map_get bd (penalty_key dm) = Option.bind (map_get (sc_Dimensions ?cfg) dm) (\<lambda>pc. listed (dim_penalty s c dm pc))"
    for dm
    using breakdown_penalty [of "sc_Dimensions ?cfg" "[(''base'', ?base)]" dm s c "Fin 0"] assms f
    by (simp add: wf_map_def)
  have base: "map_get bd ''base'' = Some ?base"
    using breakdown_other [of "''base''" s c "sc_Dimensions ?cfg" "Fin 0" "[(''base'', ?base)]"] f by simp
  have p: "Option.bind (map_get (sc_Dimensions ?cfg) dm) (\<lambda>pc. listed (dim_penalty s c dm pc)) =
      (case map_get (sc_Dimensions ?cfg) dm of None \<Rightarrow> None
       | Some pc \<Rightarrow> (case dimensionKey dm c of None \<Rightarrow> None
         | Some key \<Rightarrow> if map_get (pc_ExemptCountries pc) (cl_Country c) = Some True then None
             else listed (penaltyContribution pc (entryEWMARPS dm key (Some s)))))" for dm
    by (simp add: dim_penalty_def listed_def split: option.split)
  show ?thesis
    unfolding computeScoreBreakdown_def option.case Let_def f t prod.case total [symmetric]
    by (simp add: bd p base)
qed

theorem breakdown_explains_score_witness:
  "wf_map (sc_Dimensions demo_scoring)
    \<and> map_get (snd (computeScoreBreakdown (Some (demo_state 120 3)) demo_client)) ''penalty_ip'' = Some (Fin 40)
    \<and> map_get (snd (computeScoreBreakdown (Some (demo_state 120 3)) demo_client)) ''penalty_country'' = None"
proof -
  note demo_scoring_penalties(3) [simp]
  have w: "wf_map (sc_Dimensions (ss_cfg (demo_state 120 3)))" by simp
  have "''penalty_ip'' = penalty_key ''ip''" "''penalty_country'' = penalty_key ''country''"
    by (simp_all add: penalty_key_def)
  then show ?thesis
    using breakdown_explains_score [OF w, of demo_client]
    by (simp add: Let_def split_beta demo_rates)
      (simp add: demo_scoring_eq dimensionKey_def demo_client_def penaltyContribution_def default_tuning_def listed_def demo_rates)
qed

section \<open>The order of a map\<close>

definition same_stats :: "scoringState \<Rightarrow> scoringState \<Rightarrow> bool" where
  "same_stats s s' \<longleftrightarrow> set (sc_Dimensions (ss_cfg s')) = set (sc_Dimensions (ss_cfg s))
     \<and> wf_map (sc_Dimensions (ss_cfg s)) \<and> wf_map (sc_Dimensions (ss_cfg s'))
     \<and> (\<forall>dm key. entryEWMARPS dm key (Some s') = entryEWMARPS dm key (Some s))"

lemma whole_list: "whole_penalties cfg \<Longrightarrow> total_penalty s c (sc_Dimensions cfg) (Fin 0) =
    Fin (of_int (\<Sum>(dm, pc)\<in>#mset (sc_Dimensions cfg). whole_val (dim_penalty s c dm pc)))"
  using total_penalty_whole [of "sc_Dimensions cfg" 0 s c]
  by (simp add: whole_penalties_def flip: sum_mset_sum_list)

text \<open>
  C25: Go visits a map in an order of its own choice each time. With whole-number penalties (as
  all the built-in ones are) neither the score nor any entry of the breakdown (the total penalty
  among them) depends on it: two
  states that hold the same dimensions and rates in different orders give the same answers.
\<close>

theorem score_independent_of_map_order:
  assumes "same_stats s s'" "whole_penalties (ss_cfg s)" "whole_penalties (ss_cfg s')"
    "ss_cfg s' = (ss_cfg s)\<lparr>sc_Dimensions := ds\<rparr>"
  shows "computeScore (Some s') c = computeScore (Some s) c
    \<and> map_get (snd (computeScoreBreakdown (Some s') c)) = map_get (snd (computeScoreBreakdown (Some s) c))"
proof
  have wf: "wf_map (sc_Dimensions (ss_cfg s))" "wf_map (sc_Dimensions (ss_cfg s'))" using assms(1) by (simp_all add: same_stats_def)
  have dims: "mset (sc_Dimensions (ss_cfg s')) = mset (sc_Dimensions (ss_cfg s))"
    using assms(1) unfolding same_stats_def wf_map_def distinct_map by (metis set_eq_iff_mset_eq_distinct)
  have pen: "dim_penalty s' c = dim_penalty s c"
    using assms(1) by (auto simp: same_stats_def dim_penalty_def fun_eq_iff split: option.split)
  have total: "total_penalty s' c (sc_Dimensions (ss_cfg s')) (Fin 0) = total_penalty s c (sc_Dimensions (ss_cfg s)) (Fin 0)"
    using whole_list [OF assms(2), of s c] whole_list [OF assms(3), of s' c] dims pen by simp
  then show score: "computeScore (Some s') c = computeScore (Some s) c"
    unfolding computeScore_Some using assms(4) by simp
  have get: "map_get (sc_Dimensions (ss_cfg s')) = map_get (sc_Dimensions (ss_cfg s))"
    using assms(1) by (intro map_get_perm) (simp_all add: same_stats_def)
  show "map_get (snd (computeScoreBreakdown (Some s') c)) = map_get (snd (computeScoreBreakdown (Some s) c))"
  proof
    fix k
    note e = breakdown_entry [OF wf(1), where c = c] and e' = breakdown_entry [OF wf(2), where c = c]
    consider dm where "k = penalty_key dm" | "k = ''final''" | "k = ''total_penalty''"
      | "\<And>dm. k \<noteq> penalty_key dm" "k \<noteq> ''final''" "k \<noteq> ''total_penalty''" by blast
    then show "map_get (snd (computeScoreBreakdown (Some s') c)) k = map_get (snd (computeScoreBreakdown (Some s) c)) k"
    proof cases
      case 4
      then show ?thesis using e(4) e'(4) assms(4) by simp
    qed (simp_all only: e(1-3) e'(1-3) get pen total score)
  qed
qed

definition shuffled_state :: "rat \<Rightarrow> rat \<Rightarrow> scoringState" where
  "shuffled_state r r' = (demo_state r r')\<lparr>ss_cfg := demo_scoring\<lparr>sc_Dimensions := rev (sc_Dimensions demo_scoring)\<rparr>\<rparr>"

lemma shuffled_rates: "entryEWMARPS dm key (Some (shuffled_state r r')) = entryEWMARPS dm key (Some (demo_state r r'))"
  by (simp add: entryEWMARPS_def shuffled_state_def)

theorem score_independent_of_map_order_witness:
  "computeScore (Some (shuffled_state 120 60)) demo_client = computeScore (Some (demo_state 120 60)) demo_client
    \<and> sc_Dimensions (ss_cfg (shuffled_state 120 60)) \<noteq> sc_Dimensions demo_scoring"
proof -
  have d: "ss_cfg (shuffled_state 120 60) = demo_scoring\<lparr>sc_Dimensions := rev (sc_Dimensions demo_scoring)\<rparr>"
    by (simp add: shuffled_state_def)
  have "same_stats (demo_state 120 60) (shuffled_state 120 60)"
    using demo_scoring_penalties(3) by (simp add: same_stats_def shuffled_rates d wf_map_def flip: rev_map)
  moreover have "whole_penalties (ss_cfg (shuffled_state 120 60))"
    using demo_scoring_penalties(2) by (simp add: d whole_penalties_def)
  moreover have "rev (sc_Dimensions demo_scoring) \<noteq> sc_Dimensions demo_scoring" by (simp add: demo_scoring_eq)
  ultimately show ?thesis
    using score_independent_of_map_order [of "demo_state 120 60" "shuffled_state 120 60"] demo_scoring_penalties(2) d
    by simp
qed

section \<open>Resolving a configuration\<close>

lemma map_get_fold_put:
  "wf_map xs \<Longrightarrow> map_get (fold (\<lambda>(k, v) m. map_put k (f k v) m) xs m) k =
    (case map_get xs k of Some v \<Rightarrow> Some (f k v) | None \<Rightarrow> map_get m k)"
proof (induction xs arbitrary: m)
  case (Cons x xs)
  obtain a v where x: "x = (a, v)" by (metis prod.exhaust)
  then have "map_get xs a = None" "wf_map xs" using Cons.prems by (auto simp: wf_map_def map_of_eq_None_iff)
  then show ?case using Cons.IH by (auto simp: x split: option.split)
qed simp

text \<open>
  dimensions and divisors are opt-in: the resolved configuration has exactly the dimensions
  some penalty line names, with the tuning given or else the built-in one, and exactly the
  divisors given; base scores and the range are the defaults unless overridden. Without a
  scoring block nothing is tracked and nothing is divided.
\<close>

theorem resolve_is_opt_in:
  assumes "wf_map (so_EnabledDimensions ov)" "wf_map (so_Divisors ov)" "wf_map (so_BaseScores ov)"
  shows "let cfg = resolveScoringConfig (Some ov); none = resolveScoringConfig None in
    map_get (sc_Dimensions cfg) dm =
      (case map_get (so_EnabledDimensions ov) dm of None \<Rightarrow> None
       | Some _ \<Rightarrow> Some (case map_get (so_Penalties ov) dm of Some pc \<Rightarrow> pc | None \<Rightarrow> defaultPenaltyFor dm))
    \<and> map_get (sc_Divisors cfg) name = map_get (so_Divisors ov) name
    \<and> map_get (sc_BaseScores cfg) uc =
        (case map_get (so_BaseScores ov) uc of Some v \<Rightarrow> Some v
         | None \<Rightarrow> map_get (sc_BaseScores newDefaultScoringConfig) uc)
    \<and> sc_MinScore cfg = (case so_MinScore ov of None \<Rightarrow> Fin 0 | Some v \<Rightarrow> v)
    \<and> sc_MaxScore cfg = (case so_MaxScore ov of None \<Rightarrow> Fin 100 | Some v \<Rightarrow> v)
    \<and> sc_Dimensions none = [] \<and> sc_Divisors none = []"
proof -
  note fold_put = map_get_fold_put [of "so_EnabledDimensions ov" "\<lambda>dm _. resolve_dimension ov dm" "[]" dm]
    map_get_fold_put [of "so_Divisors ov" "\<lambda>_ v. v" "[]" name]
    map_get_fold_put [of "so_BaseScores ov" "\<lambda>_ v. v" "sc_BaseScores newDefaultScoringConfig" uc]
  show ?thesis
    using fold_put assms
    by (simp add: resolveScoringConfig_def resolve_dimension_def Let_def newDefaultScoringConfig_def split: option.split)
qed

theorem resolve_is_opt_in_witness:
  "map_get (sc_Dimensions demo_scoring) ''asn'' = None
    \<and> map_get (sc_Dimensions demo_scoring) ''ip'' = Some (defaultPenaltyFor ''ip'')"
  using resolve_is_opt_in [of demo_overrides "''asn''"] resolve_is_opt_in [of demo_overrides "''ip''"]
  unfolding demo_scoring_def by (simp add: demo_overrides_def wf_map_def Let_def)

section \<open>The divisor\<close>

text \<open>
  with positive finite divisors the combined divisor is positive, so dividing by it keeps the
  sign of a score; with none of the parameters in the query it is 1, and when every divisor is
  at least 1 it is at least 1, so the presence of parameters can only lower a score.
\<close>

theorem divisor_is_positive:
  assumes "list_all (\<lambda>(name, v). \<exists>x. v = Fin x \<and> 0 < x) (sc_Divisors (ss_cfg s))"
  shows "flt (Fin 0) (priorityDivisor (Some s) query)
    \<and> (if list_all (\<lambda>(name, v). map_get query name = None) (sc_Divisors (ss_cfg s))
       then priorityDivisor (Some s) query = Fin 1
       else if list_all (\<lambda>(name, v). fle (Fin 1) v) (sc_Divisors (ss_cfg s))
       then fle (Fin 1) (priorityDivisor (Some s) query) else True)"
proof -
  let ?ds = "sc_Divisors (ss_cfg s)" and ?Q = "\<lambda>name. map_get query name \<noteq> None"
  define d where "d = fold (\<lambda>(name, v) d. if ?Q name then fmul d v else d) ?ds (Fin 1)"
  have eq: "priorityDivisor (Some s) query = (if fle d (Fin 0) then Fin 1 else d)"
    by (simp add: priorityDivisor_def Let_def d_def)
  have nonneg: "fle (Fin 0) d" unfolding d_def using divisor_product [OF assms, of "Fin 1" ?Q] by simp
  have none: "d = Fin 1" if "list_all (\<lambda>(name, v). map_get query name = None) ?ds"
    unfolding d_def using that by (intro divisor_product_none) (auto simp: list_all_iff)
  have ge_1: "fle (Fin 1) d" if "list_all (\<lambda>(name, v). fle (Fin 1) v) ?ds"
    unfolding d_def
  proof (intro divisor_product_ge_1)
    show "list_all (\<lambda>(name, v). \<exists>x. v = Fin x \<and> 1 \<le> x) ?ds"
      using that assms unfolding list_all_iff fle_def by fastforce
  qed simp
  have "flt (Fin 0) (priorityDivisor (Some s) query)"
    using nonneg unfolding eq by (auto simp: flt_def fle_def not_le)
  then show ?thesis using none ge_1 unfolding eq by auto
qed

theorem divisor_is_positive_witness:
  "flt (Fin 0) (priorityDivisor (Some (demo_state 1 1)) [(''page'', [''3'']), (''q'', [])])
    \<and> fle (Fin 1) (priorityDivisor (Some (demo_state 1 1)) [(''page'', [''3'']), (''q'', [])])"
  using divisor_is_positive [of "demo_state 1 1" "[(''page'', [''3'']), (''q'', [])]"]
  by (simp add: demo_scoring_eq)

section \<open>The statistics\<close>

text \<open>
  tracking counts requests: after any sequence of requests, an entity of an enabled dimension
  has been counted once for every request it applies to and carries the time of the last one;
  every other entity, and every dimension that is not enabled, is as before.
\<close>

theorem track_counts_requests:
  assumes "ss_wf s"
  shows "let hits = map snd (filter (\<lambda>(c, _). dimensionKey dm c = Some key) rs) in
    entry (track_all rs s) dm key =
      (if map_get (sc_Dimensions (ss_cfg s)) dm = None \<or> hits = [] then entry s dm key
       else Some ((case entry s dm key of None \<Rightarrow> zeroClientStats | Some e \<Rightarrow> e)
         \<lparr>cs_LastSeen := last hits,
          cs_pending := wrap64 ((case entry s dm key of None \<Rightarrow> 0 | Some e \<Rightarrow> cs_pending e) + int (length hits))\<rparr>))"
proof -
  have wf: "wf_map (sc_Dimensions (ss_cfg s))" using assms by (simp add: ss_wf_def)
  have look: "entry (track_all rs s) dm key = fold (\<lambda>a e. Some (seen a e))
      (stats.matching dm key (concat (map (\<lambda>(c, now). touched (ss_cfg s) c now) rs))) (entry s dm key)"
    unfolding track_all_touches by (rule stats.look_touches)
  define hits where "hits = map snd (filter (\<lambda>(c, _). dimensionKey dm c = Some key) rs)"
  have "stats.matching dm key (concat (map (\<lambda>(c, now). touched (ss_cfg s) c now) rs)) =
      (if map_get (sc_Dimensions (ss_cfg s)) dm = None then [] else hits)"
  proof (cases "map_get (sc_Dimensions (ss_cfg s)) dm = None")
    case True
    then have "dm \<notin> fst ` set (sc_Dimensions (ss_cfg s))" by (simp add: map_of_eq_None_iff)
    then have "stats.matching dm key (concat (map (\<lambda>(c, now). touched (ss_cfg s) c now) rs)) = []"
      by (induction rs) (auto simp: matching_touched [OF wf])
    then show ?thesis using True by simp
  next
    case False
    then have "dm \<in> fst ` set (sc_Dimensions (ss_cfg s))" by (simp add: map_of_eq_None_iff)
    then show ?thesis using matching_track_all [OF wf, of dm key rs] by (simp only: hits_def False if_False)
  qed
  then show ?thesis
    unfolding Let_def hits_def [symmetric] using look seen_fold [of hits "entry s dm key"] by simp
qed

lemma demo_entries:
  "entry (demo_state r r') ''ip'' ''192.0.2.7'' = Some (zeroClientStats\<lparr>cs_EWMARPS := Fin r\<rparr>)"
  "entry (demo_state r r') ''asn'' key = None" "cs_pending zeroClientStats = 0" "cs_LastSeen zeroClientStats = time_zero"
  "map_get (sc_Dimensions demo_scoring) ''asn'' = None"
  "map_get (sc_Dimensions demo_scoring) ''ip'' = Some (default_tuning 20 100)"
  by (simp_all add: entry_def dim_entries_def demo_state_def zeroClientStats_def demo_scoring_eq)

lemma demo_key: "dimensionKey ''ip'' demo_client = Some ''192.0.2.7''"
  by (simp add: dimensionKey_def demo_client_def)

lemma demo_state_wf: "ss_wf (demo_state r r')"
  using demo_scoring_penalties(3)
  by (auto simp: ss_wf_def demo_state_def newScoringState_def dim_entries_def wf_map_def split: option.split if_splits)

theorem track_counts_requests_witness:
  "map_option cs_pending (entry (track_all [(demo_client, 5), (demo_client, 9)] (demo_state 7 3)) ''ip'' ''192.0.2.7'') = Some 2
    \<and> entry (track_all [(demo_client, 5)] (demo_state 7 3)) ''asn'' ''64496'' = entry (demo_state 7 3) ''asn'' ''64496''"
  using track_counts_requests [OF demo_state_wf, of "''ip''" "''192.0.2.7''" "[(demo_client, 5), (demo_client, 9)]" 7 3]
    track_counts_requests [OF demo_state_wf, of "''asn''" "''64496''" "[(demo_client, 5)]" 7 3]
  by (simp add: Let_def demo_entries demo_key wrap64_def)

text \<open>
  a sweep forgets exactly the idle entities: one not seen for longer than \<open>idle_entry_ttl\<close>
  is gone and reads as rate 0, so its next request starts from nothing; every other one keeps
  its statistics unchanged.
\<close>

theorem sweep_forgets_exactly_the_idle:
  assumes "ss_wf s" "entry s dm key = Some e"
  shows "let s' = the (gc now (Some s)) in
    (if ss_idleTTL s < time_Sub now (cs_LastSeen e)
     then entry s' dm key = None \<and> entryEWMARPS dm key (Some s') = Fin 0
     else entry s' dm key = Some e)
    \<and> ss_wf s' \<and> ss_cfg s' = ss_cfg s"
  using gc_entry [OF assms(1), of now dm key] ss_wf_gc [OF assms(1), of now] assms(2)
  by (simp add: Let_def entryEWMARPS_entry) (simp add: gc_def)

theorem sweep_forgets_exactly_the_idle_witness:
  "entry (the (gc (time_zero + 11 * minute) (Some (demo_state 7 3)))) ''ip'' ''192.0.2.7'' = None
    \<and> entry (the (gc (time_zero + 10 * minute) (Some (demo_state 7 3)))) ''ip'' ''192.0.2.7'' \<noteq> None"
proof -
  have t: "ss_idleTTL (demo_state 7 3) = 10 * minute" "\<And>r. cs_LastSeen (zeroClientStats\<lparr>cs_EWMARPS := r\<rparr>) = time_zero"
    by (simp_all add: demo_state_def newScoringState_def defaultIdleEntryTTL_def zeroClientStats_def)
  show ?thesis
    using sweep_forgets_exactly_the_idle [of "demo_state 7 3" "''ip''" "''192.0.2.7''" _ "time_zero + 11 * minute", OF demo_state_wf demo_entries(1)]
      sweep_forgets_exactly_the_idle [of "demo_state 7 3" "''ip''" "''192.0.2.7''" _ "time_zero + 10 * minute", OF demo_state_wf demo_entries(1)]
    unfolding t by (simp add: Let_def time_Sub_def sat64_def minute_def)
qed

section \<open>The averages\<close>

lemma fdiv_pos_nonneg: "0 \<le> n \<Longrightarrow> 0 < z \<Longrightarrow> fle (Fin 0) (fdiv (f64_of_int n) (Fin z))"
proof -
  assume "0 \<le> n" "0 < z"
  then have "fle (Fin 0) (f64_of_int n)" by (simp add: f64_of_int_def fle_def rnd_nonneg)
  then show ?thesis using fdiv_mono_pos [OF _ \<open>0 < z\<close>, of "Fin 0" "f64_of_int n"] \<open>0 < z\<close> by simp
qed

lemma fmul_Fin_nonneg: "0 \<le> x \<Longrightarrow> fle (Fin 0) v \<Longrightarrow> v \<noteq> PInf \<or> 0 < x \<Longrightarrow> fle (Fin 0) (fmul (Fin x) v)"
  by (cases v) (auto simp: fle_def inf_of_def rnd_nonneg)

lemma decay_le:
  assumes "0 \<le> a" "a \<le> 1" "fle (Fin 0) (Fin v)" "f64_ok (Fin v)"
  shows "fle (fmul (fsub (Fin 1) (Fin a)) (Fin v)) (Fin v) \<and> fle (Fin 0) (fmul (fsub (Fin 1) (Fin a)) (Fin v))"
proof -
  have "Fin 0 \<le> rnd (1 - a)" "rnd (1 - a) \<le> Fin 1"
    using assms(1,2) rnd_nonneg [of "1 - a"] rnd_mono [of "1 - a" 1] by simp_all
  then obtain b where b: "rnd (1 - a) = Fin b" "0 \<le> b" "b \<le> 1" by (cases "rnd (1 - a)") auto
  have "rnd (b * v) \<le> rnd v" using assms(3) b by (intro rnd_mono) (simp add: mult_left_le_one_le)
  then show ?thesis
    using assms(3,4) b rnd_nonneg [of "b * v"] by (simp add: fsub_def fle_def f64_ok_def representable_def)
qed

text \<open>
  a tick folds the requests counted since the last one into the moving average and starts a
  new count. With a smoothing factor between 0 and 1 and a finite average, the average stays a
  non-negative number, it never falls below what an idle tick would leave, and without new
  requests it never rises.
\<close>

theorem tick_averages_pending:
  assumes "ss_wf s" "map_get (sc_Dimensions (ss_cfg s)) dm = Some pc" "entry s dm key = Some e"
    "pc_Alpha pc = Fin a" "0 \<le> a" "a \<le> 1" "Seconds (ss_tickInterval s) = Fin z" "0 < z"
    "cs_EWMARPS e = Fin v" "0 \<le> v" "f64_ok (Fin v)" "0 \<le> cs_pending e" "fdiv (f64_of_int (cs_pending e)) (Fin z) = Fin r"
  shows "\<exists>e'. entry (the (tick now (Some s))) dm key = Some e'
    \<and> cs_pending e' = 0 \<and> cs_LastSeen e' = cs_LastSeen e
    \<and> cs_EWMARPS e' = fadd (fmul (Fin a) (Fin r)) (fmul (fsub (Fin 1) (Fin a)) (Fin v))
    \<and> fle (Fin 0) (cs_EWMARPS e')
    \<and> fle (fmul (fsub (Fin 1) (Fin a)) (Fin v)) (cs_EWMARPS e')
    \<and> (if cs_pending e = 0 then fle (cs_EWMARPS e') (Fin v) else True)"
proof -
  let ?d = "fmul (fsub (Fin 1) (Fin a)) (Fin v)"
  have r: "0 \<le> r" using fdiv_pos_nonneg [OF assms(12,8)] assms(13) by (simp add: fle_def)
  have d: "fle ?d (Fin v)" "fle (Fin 0) ?d" using decay_le [OF assms(5,6) _ assms(11)] assms(10) by simp_all
  have ar: "fle (Fin 0) (fmul (Fin a) (Fin r))" by (rule fmul_nonneg [OF assms(5) r])
  have ok: "f64_ok ?d" using d by (cases "fsub (Fin 1) (Fin a)") (auto simp: fle_def f64_ok_def [of NaN] inf_of_def)
  have fadd_comm: "fadd x y = fadd y x" for x y by (cases x; cases y) (simp_all add: add.commute)
  have "fle ?d (fadd (fmul (Fin a) (Fin r)) ?d)"
    using fadd_ge_left [OF ok d(2) ar] by (simp add: fadd_comm)
  moreover have "fadd (fmul (Fin a) (Fin r)) ?d = ?d" if "cs_pending e = 0"
    using that assms(8,13) fadd_0_left [OF ok] f64_of_int_exact [of 0] by auto
  ultimately show ?thesis
    using tick_entry_lookup [OF assms(1), of now dm key] assms d ar
    by (auto simp: tick_entry_def Let_def fadd_nonneg)
qed

theorem tick_averages_pending_witness:
  "\<exists>e'. entry (the (tick 0 (track demo_client 9 (Some (demo_state 7 3))))) ''ip'' ''192.0.2.7'' = Some e'
    \<and> cs_pending e' = 0 \<and> cs_LastSeen e' = 9 \<and> fle (Fin 0) (cs_EWMARPS e')"
proof -
  let ?s = "track_all [(demo_client, 9)] (demo_state 7 3)"
  have wf: "ss_wf ?s" by (rule ss_wf_track_all [OF demo_state_wf])
  have s: "track demo_client 9 (Some (demo_state 7 3)) = Some ?s" by (simp add: track_all_def track_def)
  have cfg: "ss_cfg ?s = demo_scoring" "ss_tickInterval ?s = 2 * second"
    by (simp_all add: track_all_touches touched_def demo_scoring_eq demo_key dimensionKey_def demo_client_def
        demo_state_def newScoringState_def minute_def second_def)
  have e: "entry ?s ''ip'' ''192.0.2.7'' = Some (zeroClientStats\<lparr>cs_EWMARPS := Fin 7, cs_LastSeen := 9, cs_pending := 1\<rparr>)"
    using track_counts_requests [OF demo_state_wf, of "''ip''" "''192.0.2.7''" "[(demo_client, 9)]" 7 3]
    by (simp add: Let_def demo_entries demo_key wrap64_def)
  obtain a where a: "rnd (2 / 10) = Fin a" "0 \<le> a" "a \<le> 1"
    using rnd_nonneg [of "2 / 10"] rnd_mono [of "2 / 10" 1] by (cases "rnd (2 / 10)") auto
  have z: "Seconds (2 * second) = Fin 2" by code_simp
  have r: "fdiv (f64_of_int 1) (Fin 2) = Fin (1 / 2)" by code_simp
  have ok: "f64_ok (Fin 7)" using rnd_of_int [of 7] by (simp add: f64_ok_def representable_def)
  show ?thesis
    using tick_averages_pending [OF wf _ e, of "default_tuning 20 100" a 2 7 "1 / 2" 0] cfg s z r ok a demo_entries(6)
    by (auto simp: default_tuning_def)
qed

section \<open>Printing and parsing a penalty line\<close>

definition threshold_token :: "string \<Rightarrow> int \<Rightarrow> int \<Rightarrow> string" where
  "threshold_token key t p = key @ CHR ''='' # FormatInt t @ CHR '':'' # FormatInt p"

definition penalty_tokens :: "string \<Rightarrow> int \<times> int \<Rightarrow> int \<times> int \<Rightarrow> string list \<Rightarrow> string list" where
  "penalty_tokens a soft hard ccs =
    [''alpha='' @ a, threshold_token ''soft'' (fst soft) (snd soft), threshold_token ''hard'' (fst hard) (snd hard),
     ''exempt_country='' @ join CHR '','' ccs]"

lemma parse_step:
  assumes "parse_penalty_loop ext [arg] st = Inr st'"
  shows "parse_penalty_loop ext (arg # args) st = parse_penalty_loop ext args st'"
proof -
  obtain pc x y z where st: "st = (pc, x, y, z)" by (metis prod_cases4)
  obtain key v ok where cut: "strings_Cut CHR ''='' arg = (key, v, ok)" by (metis prod_cases3)
  show ?thesis
    using assms unfolding st parse_penalty_loop.simps cut Let_def prod.case
    by (cases ok; cases "key = ''alpha''"; cases "key = ''soft''"; cases "key = ''hard''"; cases "key = ''exempt_country''")
      (simp_all split: option.split_asm prod.split_asm)
qed

lemma parse_fold:
  "(\<And>arg st. arg \<in> set args \<Longrightarrow> parse_penalty_loop ext [arg] st = Inr (u arg st)) \<Longrightarrow>
    parse_penalty_loop ext args st = Inr (fold u args st)"
proof (induction args arbitrary: st)
  case (Cons arg args)
  then show ?case using parse_step [of ext arg st "u arg st" args] by simp
qed simp

lemma parse_threshold:
  "\<bar>t\<bar> \<le> 2 ^ 53 \<Longrightarrow> \<bar>p\<bar> \<le> 2 ^ 53 \<Longrightarrow>
    parseThresholdPenalty ext (FormatInt t @ CHR '':'' # FormatInt p) = Some (Fin (of_int t), Fin (of_int \<bar>p\<bar>))"
  by (simp add: parseThresholdPenalty_def strings_SplitN2_def strings_Cut_append FormatInt_no_colon ParseFloat_FormatInt)

lemma parse_countries:
  assumes "ccs \<noteq> []" "\<forall>cc \<in> set ccs. cc \<noteq> [] \<and> CHR '','' \<notin> set cc"
  shows "parseExemptCountry (join CHR '','' ccs) = Some (fold (\<lambda>cc m. map_put cc True m) ccs [])"
  using assms strings_Split_join [of ccs "CHR '',''"] by (auto simp: parseExemptCountry_def)

text \<open>
  C26: a penalty line printed with whole numbers (thresholds and penalties up to 2 to the 53) and at
  least one exempt country is parsed back, in whatever order its four
  tokens stand; the penalties, written as negative deltas, come back as magnitudes.
\<close>

theorem penalty_line_roundtrip:
  assumes "ParseFloat ext a = Some alpha" "mset args = mset (penalty_tokens a (st, - sp) (ht, - hp) ccs)"
    "\<bar>st\<bar> \<le> 2 ^ 53" "0 \<le> sp" "sp \<le> 2 ^ 53" "\<bar>ht\<bar> \<le> 2 ^ 53" "0 \<le> hp" "hp \<le> 2 ^ 53"
    "ccs \<noteq> []" "\<forall>cc \<in> set ccs. cc \<noteq> [] \<and> CHR '','' \<notin> set cc"
  shows "parsePenaltyArgs ext args = Inr \<lparr>pc_Alpha = alpha, pc_SoftThreshold = Fin (of_int st), pc_SoftPenalty = Fin (of_int sp),
    pc_HardThreshold = Fin (of_int ht), pc_HardPenalty = Fin (of_int hp),
    pc_ExemptCountries = fold (\<lambda>cc m. map_put cc True m) ccs []\<rparr>"
proof -
  let ?ts = "penalty_tokens a (st, - sp) (ht, - hp) ccs"
  define u where "u arg x = (case parse_penalty_loop ext [arg] x of Inr y \<Rightarrow> y | Inl _ \<Rightarrow> x)" for arg x
  have cut: "strings_Cut CHR ''='' (''alpha='' @ v) = (''alpha'', v, True)"
    "strings_Cut CHR ''='' (''soft'' @ CHR ''='' # v) = (''soft'', v, True)"
    "strings_Cut CHR ''='' (''hard'' @ CHR ''='' # v) = (''hard'', v, True)"
    "strings_Cut CHR ''='' (''exempt_country='' @ v) = (''exempt_country'', v, True)" for v
    by simp_all
  have one: "parse_penalty_loop ext [''alpha='' @ a] (pc, x, y, z) = Inr (pc\<lparr>pc_Alpha := alpha\<rparr>, True, y, z)"
    "parse_penalty_loop ext [threshold_token ''soft'' st (- sp)] (pc, x, y, z) =
      Inr (pc\<lparr>pc_SoftThreshold := Fin (of_int st), pc_SoftPenalty := Fin (of_int sp)\<rparr>, x, True, z)"
    "parse_penalty_loop ext [threshold_token ''hard'' ht (- hp)] (pc, x, y, z) =
      Inr (pc\<lparr>pc_HardThreshold := Fin (of_int ht), pc_HardPenalty := Fin (of_int hp)\<rparr>, x, y, True)"
    "parse_penalty_loop ext [''exempt_country='' @ join CHR '','' ccs] (pc, x, y, z) =
      Inr (pc\<lparr>pc_ExemptCountries := fold (\<lambda>cc m. map_put cc True m) ccs []\<rparr>, x, y, z)" for pc x y z
    using assms(1) parse_threshold [of st "- sp" ext] parse_threshold [of ht "- hp" ext] assms(3-8)
      parse_countries [OF assms(9,10)]
    unfolding parse_penalty_loop.simps threshold_token_def cut by (simp_all add: Let_def)
  have u: "u (''alpha='' @ a) (pc, x, y, z) = (pc\<lparr>pc_Alpha := alpha\<rparr>, True, y, z)"
    "u (threshold_token ''soft'' st (- sp)) (pc, x, y, z) =
      (pc\<lparr>pc_SoftThreshold := Fin (of_int st), pc_SoftPenalty := Fin (of_int sp)\<rparr>, x, True, z)"
    "u (threshold_token ''hard'' ht (- hp)) (pc, x, y, z) =
      (pc\<lparr>pc_HardThreshold := Fin (of_int ht), pc_HardPenalty := Fin (of_int hp)\<rparr>, x, y, True)"
    "u (''exempt_country='' @ join CHR '','' ccs) (pc, x, y, z) =
      (pc\<lparr>pc_ExemptCountries := fold (\<lambda>cc m. map_put cc True m) ccs []\<rparr>, x, y, z)" for pc x y z
    unfolding u_def one by simp_all
  have toks: "set ?ts = {''alpha='' @ a, threshold_token ''soft'' st (- sp), threshold_token ''hard'' ht (- hp),
      ''exempt_country='' @ join CHR '','' ccs}"
    by (simp add: penalty_tokens_def)
  have "parse_penalty_loop ext [arg] x = Inr (u arg x)" if "arg \<in> set ?ts" for arg x
    using that one unfolding toks by (cases x) (auto simp only: insert_iff empty_iff u)
  moreover have set_args: "set args = set ?ts" using assms(2) by (metis set_mset_mset)
  ultimately have loop: "parse_penalty_loop ext args x = Inr (fold u args x)" for x
    by (intro parse_fold) simp
  have "u s \<circ> u t = u t \<circ> u s" if "s \<in> set ?ts" "t \<in> set ?ts" for s t
    using that unfolding toks by (auto simp only: insert_iff empty_iff fun_eq_iff comp_def u) simp_all
  then have "fold u args = fold u ?ts" using assms(2) set_args by (intro fold_multiset_equiv) auto
  then show ?thesis
    unfolding parsePenaltyArgs_def loop by (simp only: penalty_tokens_def fold.simps comp_def id_def fst_conv snd_conv u)
      (simp add: zeroPenaltyConfig_def)
qed

theorem penalty_line_roundtrip_witness:
  "parsePenaltyArgs (\<lambda>_. None) [''hard=100:-40'', ''exempt_country=PT,ES'', ''alpha=1'', ''soft=20:-10''] =
    Inr \<lparr>pc_Alpha = Fin 1, pc_SoftThreshold = Fin 20, pc_SoftPenalty = Fin 10,
      pc_HardThreshold = Fin 100, pc_HardPenalty = Fin 40, pc_ExemptCountries = [(''PT'', True), (''ES'', True)]\<rparr>"
proof -
  have t: "penalty_tokens ''1'' (20, - 10) (100, - 40) [''PT'', ''ES''] =
      [''alpha=1'', ''soft=20:-10'', ''hard=100:-40'', ''exempt_country=PT,ES'']"
    by code_simp
  have a: "ParseFloat (\<lambda>_. None) ''1'' = Some (Fin 1)" by code_simp
  show ?thesis
    using penalty_line_roundtrip [OF a, of "[''hard=100:-40'', ''exempt_country=PT,ES'', ''alpha=1'', ''soft=20:-10'']"
      20 10 100 40 "[''PT'', ''ES'']"] t
    by (simp add: map_put_def)
qed

end
