(* ===== verification/Fairness_Caddyfile.thy ===== *)
theory Fairness_Caddyfile imports Caddyfile Fairness_Handler Scoring_Properties begin

text \<open>
  The Caddyfile parser of the fairness handler (\<^verbatim>\<open>UnmarshalCaddyfile\<close>, \<^verbatim>\<open>parseScoringBlock\<close>
  and \<^verbatim>\<open>parseSessionCookieBlock\<close> of \<^verbatim>\<open>fairness/module.go\<close>).
\<close>

section \<open>The scoring block\<close>

definition empty_overrides :: scoringOverrides where
  "empty_overrides = \<lparr>so_BaseScores = [], so_EnabledDimensions = [], so_Penalties = [], so_MinScore = None, so_MaxScore = None,
     so_Divisors = []\<rparr>"

text \<open>One line each of \<open>base_score\<close>, \<open>penalty\<close> and \<open>divisor\<close>.\<close>

definition base_score_line :: "(string \<Rightarrow> f64 option) \<Rightarrow> string list \<Rightarrow> scoringOverrides \<Rightarrow> parse_error + scoringOverrides" where
  "base_score_line pf args ov =
    (case args of
       [uc, value] \<Rightarrow>
         if \<not> validUserClasses uc then Inl (Errf ''unrecognized user class'' [uc])
         else (case ParseFloat pf value of None \<Rightarrow> Inl (Errf ''invalid base_score value'' [value])
           | Some v \<Rightarrow> Inr (ov\<lparr>so_BaseScores := map_put uc v (so_BaseScores ov)\<rparr>))
     | _ \<Rightarrow> Inl ArgErr)"

definition penalty_line :: "(string \<Rightarrow> f64 option) \<Rightarrow> string list \<Rightarrow> scoringOverrides \<Rightarrow> parse_error + scoringOverrides" where
  "penalty_line pf args ov =
    (case args of
       [] \<Rightarrow> Inl ArgErr
     | dm # rest \<Rightarrow>
         if \<not> validScoringDimensions dm then Inl (Errf ''unrecognized scoring dimension'' [dm])
         else let ov = ov\<lparr>so_EnabledDimensions := map_put dm True (so_EnabledDimensions ov)\<rparr> in
           if rest = [] then Inr (ov\<lparr>so_Penalties := map_del dm (so_Penalties ov)\<rparr>)
           else (case parsePenaltyArgs pf rest of Inl e \<Rightarrow> Inl (Errf ''invalid penalty config for dimension'' [dm])
             | Inr pc \<Rightarrow> Inr (ov\<lparr>so_Penalties := map_put dm pc (so_Penalties ov)\<rparr>)))"

definition divisor_line :: "(string \<Rightarrow> f64 option) \<Rightarrow> string list \<Rightarrow> scoringOverrides \<Rightarrow> parse_error + scoringOverrides" where
  "divisor_line pf args ov =
    (case args of
       [kind, name, value] \<Rightarrow>
         if kind \<noteq> ''param'' then Inl (Errf ''expected divisor param <name> <value>'' [])
         else (case ParseFloat pf value of None \<Rightarrow> Inl (Errf ''invalid divisor value'' [value, name])
           | Some v \<Rightarrow> if fle v (Fin 0) then Inl (Errf ''divisor must be > 0'' [name])
               else Inr (ov\<lparr>so_Divisors := map_put name v (so_Divisors ov)\<rparr>))
     | _ \<Rightarrow> Inl (Errf ''expected divisor param <name> <value>'' []))"

definition line_result :: "'d \<Rightarrow> parse_error + 'a \<Rightarrow> ('d, 'a) parsed" where
  "line_result d r = (case r of Inl e \<Rightarrow> fail e | Inr x \<Rightarrow> accept d x)"

definition scoring_directive :: "(string \<Rightarrow> f64 option) \<Rightarrow> 'd dispenser \<Rightarrow> 'd \<Rightarrow> scoringOverrides \<Rightarrow> ('d, scoringOverrides) parsed" where
  "scoring_directive pf D d ov =
    (let v = dp_Val D d in
     if v = ''base_score'' then with_args D d (\<lambda>d args. line_result d (base_score_line pf args ov))
     else if v = ''penalty'' then with_args D d (\<lambda>d args. line_result d (penalty_line pf args ov))
     else if v = ''min_score'' then set_parsed D d (ParseFloat pf) v (\<lambda>f. ov\<lparr>so_MinScore := Some f\<rparr>)
     else if v = ''divisor'' then with_args D d (\<lambda>d args. line_result d (divisor_line pf args ov))
     else if v = ''max_score'' then set_parsed D d (ParseFloat pf) v (\<lambda>f. ov\<lparr>so_MaxScore := Some f\<rparr>)
     else fail (Errf ''unrecognized scoring subdirective'' [v]))"

definition parseScoringBlock :: "(string \<Rightarrow> f64 option) \<Rightarrow> nat \<Rightarrow> 'd dispenser \<Rightarrow> 'd \<Rightarrow> ('d, scoringOverrides) parsed" where
  "parseScoringBlock pf fuel D d = block_loop fuel (dp_NextBlock D 1) (scoring_directive pf D) d empty_overrides"

section \<open>The session cookie block\<close>

definition empty_session_cookie :: SessionCookieConfig where
  "empty_session_cookie = \<lparr>scc_Mode = [], scc_Name = [], scc_TTL = 0, scc_Keys = []\<rparr>"

definition key_line :: "string list \<Rightarrow> SessionCookieConfig \<Rightarrow> parse_error + SessionCookieConfig" where
  "key_line args sc =
    (case args of
       [kid, file] \<Rightarrow> (case validateSessionKID kid of Some e \<Rightarrow> Inl (Errf ''invalid key id'' [kid])
         | None \<Rightarrow> Inr (sc\<lparr>scc_Keys := scc_Keys sc @ [\<lparr>sk_KID = kid, sk_File = file\<rparr>]\<rparr>))
     | _ \<Rightarrow> Inl (Errf ''expected key <kid> <file>'' []))"

definition session_directive :: "(string \<Rightarrow> duration option) \<Rightarrow> 'd dispenser \<Rightarrow> 'd \<Rightarrow> SessionCookieConfig
    \<Rightarrow> ('d, SessionCookieConfig) parsed" where
  "session_directive pd D d sc =
    (let v = dp_Val D d in
     if v = ''mode'' then with_arg D d (\<lambda>d mode.
       if mode = sessionModeCheck \<or> mode = sessionModeIssue \<or> mode = sessionModeBoth then accept d (sc\<lparr>scc_Mode := mode\<rparr>)
       else fail (Errf ''session_cookie mode must be check, issue, or both'' [mode]))
     else if v = ''key'' then with_args D d (\<lambda>d args. line_result d (key_line args sc))
     else if v = ''name'' then set_string D d (\<lambda>s. sc\<lparr>scc_Name := s\<rparr>)
     else if v = ''ttl'' then with_arg D d (\<lambda>d s. case pd s of
         None \<Rightarrow> fail (Errf ''invalid session_cookie ttl'' [s])
       | Some t \<Rightarrow> if t \<le> 0 then fail (Errf ''session_cookie ttl must be > 0'' []) else accept d (sc\<lparr>scc_TTL := t\<rparr>))
     else fail (Errf ''unrecognized session_cookie subdirective'' [v]))"

definition parseSessionCookieBlock :: "(string \<Rightarrow> duration option) \<Rightarrow> nat \<Rightarrow> 'd dispenser \<Rightarrow> 'd \<Rightarrow> ('d, SessionCookieConfig) parsed" where
  "parseSessionCookieBlock pd fuel D d =
    (case dp_NextArg D d of
       (True, d) \<Rightarrow> fail ArgErr
     | (False, d) \<Rightarrow> (case block_loop fuel (dp_NextBlock D 1) (session_directive pd D) d empty_session_cookie of
         None \<Rightarrow> None
       | Some (Inl e) \<Rightarrow> fail e
       | Some (Inr (d, sc)) \<Rightarrow>
           if scc_Keys sc = [] then fail (Errf ''session_cookie requires at least one key'' []) else accept d sc))"

section \<open>The handler\<close>

text \<open>A parsed block is stored; its error ends the parse.\<close>

definition then_store :: "('d, 'a) parsed \<Rightarrow> ('a \<Rightarrow> 'b) \<Rightarrow> ('d, 'b) parsed" where
  "then_store r put = (case r of None \<Rightarrow> None | Some (Inl e) \<Rightarrow> fail e | Some (Inr (d, x)) \<Rightarrow> accept d (put x))"

definition put_config :: "FairnessHandler \<Rightarrow> (FairnessConfig \<Rightarrow> FairnessConfig) \<Rightarrow> FairnessHandler" where
  "put_config h f = h\<lparr>fh_Config := f (fh_Config h)\<rparr>"

definition fairness_directive :: "(string \<Rightarrow> duration option) \<Rightarrow> (string \<Rightarrow> f64 option) \<Rightarrow> nat \<Rightarrow> 'd dispenser \<Rightarrow> 'd
    \<Rightarrow> FairnessHandler \<Rightarrow> ('d, FairnessHandler) parsed" where
  "fairness_directive pd pf fuel D d h =
    (let v = dp_Val D d in
     if v = ''backend'' then set_string D d (\<lambda>s. put_config h (\<lambda>c. c\<lparr>fc_Backend := s\<rparr>))
     else if v = ''geoip_city_db'' then set_string D d (\<lambda>s. put_config h (\<lambda>c. c\<lparr>fc_GeoIPCityDB := s\<rparr>))
     else if v = ''geoip_asn_db'' then set_string D d (\<lambda>s. put_config h (\<lambda>c. c\<lparr>fc_GeoIPASNDB := s\<rparr>))
     else if v = ''auth_issuer'' then set_string D d (\<lambda>s. put_config h (\<lambda>c. c\<lparr>fc_AuthIssuer := s\<rparr>))
     else if v = ''auth_jwks_url'' then set_string D d (\<lambda>s. put_config h (\<lambda>c. c\<lparr>fc_AuthJWKSURL := s\<rparr>))
     else if v = ''auth_audience'' then set_string D d (\<lambda>s. put_config h (\<lambda>c. c\<lparr>fc_AuthAudience := s\<rparr>))
     else if v = ''ipv6_prefix_length'' then with_arg D d (\<lambda>d s. case ParseInt s of
         None \<Rightarrow> fail (Errf ''invalid ipv6_prefix_length'' [s])
       | Some n \<Rightarrow> if n \<noteq> 48 \<and> n \<noteq> 56 then fail (Errf ''ipv6_prefix_length must be 48 or 56'' [])
           else accept d (put_config h (\<lambda>c. c\<lparr>fc_IPv6PrefixLength := n\<rparr>)))
     else if v = ''ewma_tick_interval'' then set_parsed D d pd v (\<lambda>t. put_config h (\<lambda>c. c\<lparr>fc_EWMATickInterval := t\<rparr>))
     else if v = ''idle_entry_ttl'' then set_parsed D d pd v (\<lambda>t. put_config h (\<lambda>c. c\<lparr>fc_IdleEntryTTL := t\<rparr>))
     else if v = ''session_cookie''
     then then_store (parseSessionCookieBlock pd fuel D d) (\<lambda>sc. put_config h (\<lambda>c. c\<lparr>fc_SessionCookie := Some sc\<rparr>))
     else if v = ''scoring'' then then_store (parseScoringBlock pf fuel D d) (\<lambda>ov. h\<lparr>fh_ScoringOverrides := Some ov\<rparr>)
     else fail (Errf ''unrecognized fairness subdirective'' [v]))"

definition fairness_UnmarshalCaddyfile :: "(string \<Rightarrow> duration option) \<Rightarrow> (string \<Rightarrow> f64 option) \<Rightarrow> nat \<Rightarrow> 'd dispenser \<Rightarrow> 'd
    \<Rightarrow> FairnessHandler \<Rightarrow> ('d, FairnessHandler) parsed" where
  "fairness_UnmarshalCaddyfile pd pf fuel D =
    block_loop fuel (dp_Next D) (\<lambda>d h. block_loop fuel (dp_NextBlock D 0) (fairness_directive pd pf fuel D) d h)"

definition zero_fairness :: FairnessHandler where
  "zero_fairness =
    \<lparr>fh_Config = \<lparr>fc_Backend = [], fc_GeoIPCityDB = [], fc_GeoIPASNDB = [], fc_AuthIssuer = [],
       fc_AuthJWKSURL = [], fc_AuthAudience = [], fc_IPv6PrefixLength = 0, fc_EWMATickInterval = 0, fc_IdleEntryTTL = 0,
       fc_SessionCookie = None\<rparr>,
     fh_app = False, fh_geo = None, fh_auth = None, fh_ScoringOverrides = None, fh_scoring = None, fh_session = None\<rparr>"

definition fairness_parseCaddyfile :: "(string \<Rightarrow> duration option) \<Rightarrow> (string \<Rightarrow> f64 option) \<Rightarrow> nat \<Rightarrow> 'd dispenser \<Rightarrow> 'd
    \<Rightarrow> ('d, FairnessHandler) parsed" where
  "fairness_parseCaddyfile pd pf fuel D d = fairness_UnmarshalCaddyfile pd pf fuel D d zero_fairness"

section \<open>What it accepts\<close>

definition scoring_parsed :: "scoringOverrides \<Rightarrow> bool" where
  "scoring_parsed ov \<longleftrightarrow>
    wf_map (so_BaseScores ov) \<and> wf_map (so_EnabledDimensions ov) \<and> wf_map (so_Penalties ov) \<and> wf_map (so_Divisors ov)
    \<and> (\<forall>uc. map_get (so_BaseScores ov) uc \<noteq> None \<longrightarrow> validUserClasses uc)
    \<and> (\<forall>dm. map_get (so_EnabledDimensions ov) dm \<noteq> None \<longrightarrow> validScoringDimensions dm)
    \<and> (\<forall>dm. map_get (so_Penalties ov) dm \<noteq> None \<longrightarrow> map_get (so_EnabledDimensions ov) dm \<noteq> None)
    \<and> (\<forall>name v. map_get (so_Divisors ov) name = Some v \<longrightarrow> \<not> fle v (Fin 0))"

definition session_cookie_parsed :: "SessionCookieConfig \<Rightarrow> bool" where
  "session_cookie_parsed sc \<longleftrightarrow> scc_Mode sc \<in> {[], sessionModeCheck, sessionModeIssue, sessionModeBoth} \<and> 0 \<le> scc_TTL sc
    \<and> list_all (\<lambda>k. validateSessionKID (sk_KID k) = None) (scc_Keys sc)"

definition fairness_parsed :: "FairnessHandler \<Rightarrow> bool" where
  "fairness_parsed h \<longleftrightarrow> fc_IPv6PrefixLength (fh_Config h) \<in> {0, 48, 56}
    \<and> (case fc_SessionCookie (fh_Config h) of None \<Rightarrow> True | Some sc \<Rightarrow> session_cookie_parsed sc \<and> scc_Keys sc \<noteq> [])
    \<and> (case fh_ScoringOverrides h of None \<Rightarrow> True | Some ov \<Rightarrow> scoring_parsed ov)"

lemma all_parsed_line [parsed_ok]: "(\<And>x. r = Inr x \<Longrightarrow> P x) \<Longrightarrow> all_parsed P (line_result d r)"
  by (cases r) (auto simp: line_result_def intro!: parsed_ok)

lemma all_parsed_then_store: "all_parsed P r \<Longrightarrow> (\<And>x. P x \<Longrightarrow> Q (put x)) \<Longrightarrow> all_parsed Q (then_store r put)"
  by (auto simp: then_store_def all_parsed_def accept_def fail_def split: option.splits sum.splits)

lemma base_score_line_parsed: "base_score_line pf args ov = Inr ov' \<Longrightarrow> scoring_parsed ov \<Longrightarrow> scoring_parsed ov'"
  by (auto simp: base_score_line_def scoring_parsed_def go_map split: list.splits if_splits option.splits)

lemma penalty_line_parsed: "penalty_line pf args ov = Inr ov' \<Longrightarrow> scoring_parsed ov \<Longrightarrow> scoring_parsed ov'"
  by (auto simp: penalty_line_def scoring_parsed_def go_map Let_def split: list.splits if_splits sum.splits)

lemma divisor_line_parsed: "divisor_line pf args ov = Inr ov' \<Longrightarrow> scoring_parsed ov \<Longrightarrow> scoring_parsed ov'"
  by (auto simp: divisor_line_def scoring_parsed_def go_map split: list.splits if_splits option.splits)

lemma scoring_parsed_frame [simp]:
  "scoring_parsed (ov\<lparr>so_MinScore := a\<rparr>) = scoring_parsed ov" "scoring_parsed (ov\<lparr>so_MaxScore := a\<rparr>) = scoring_parsed ov"
  by (simp_all add: scoring_parsed_def)

lemma scoring_directive_parsed: "scoring_parsed ov \<Longrightarrow> all_parsed scoring_parsed (scoring_directive pf D d ov)"
  unfolding scoring_directive_def Let_def
  by (intro parsed_ok) (auto intro: base_score_line_parsed penalty_line_parsed divisor_line_parsed)

lemma parseScoringBlock_parsed: "all_parsed scoring_parsed (parseScoringBlock pf fuel D d)"
  unfolding parseScoringBlock_def
  by (intro parsed_ok scoring_directive_parsed) (auto simp: scoring_parsed_def empty_overrides_def)

lemma key_line_parsed: "key_line args sc = Inr sc' \<Longrightarrow> session_cookie_parsed sc \<Longrightarrow> session_cookie_parsed sc'"
  by (auto simp: key_line_def session_cookie_parsed_def split: list.splits option.splits)

lemma all_parsed_option [parsed_ok]:
  "(v = None \<Longrightarrow> all_parsed P r) \<Longrightarrow> (\<And>x. v = Some x \<Longrightarrow> all_parsed P (f x)) \<Longrightarrow>
    all_parsed P (case v of None \<Rightarrow> r | Some x \<Rightarrow> f x)"
  by (cases v) simp_all

lemma session_cookie_parsed_put:
  assumes "session_cookie_parsed sc"
  shows "session_cookie_parsed (sc\<lparr>scc_Name := n\<rparr>)"
    "m = sessionModeCheck \<or> m = sessionModeIssue \<or> m = sessionModeBoth \<Longrightarrow> session_cookie_parsed (sc\<lparr>scc_Mode := m\<rparr>)"
    "\<not> t \<le> 0 \<Longrightarrow> session_cookie_parsed (sc\<lparr>scc_TTL := t\<rparr>)"
  using assms by (auto simp: session_cookie_parsed_def)

lemma session_directive_parsed: "session_cookie_parsed sc \<Longrightarrow> all_parsed session_cookie_parsed (session_directive pd D d sc)"
  unfolding session_directive_def Let_def
  by (intro parsed_ok) (auto intro: key_line_parsed session_cookie_parsed_put)

lemma parseSessionCookieBlock_parsed:
  "all_parsed (\<lambda>sc. session_cookie_parsed sc \<and> scc_Keys sc \<noteq> []) (parseSessionCookieBlock pd fuel D d)"
proof -
  have "all_parsed session_cookie_parsed (block_loop fuel (dp_NextBlock D 1) (session_directive pd D) d' empty_session_cookie)" for d'
    by (intro parsed_ok session_directive_parsed) (auto simp: session_cookie_parsed_def empty_session_cookie_def)
  note ok = all_parsedD [OF this]
  show ?thesis
    by (auto simp: parseSessionCookieBlock_def parsed_ok split: prod.split bool.split option.split sum.split
        intro!: parsed_ok intro: ok)
qed

lemma fairness_directive_parsed:
  assumes "fairness_parsed h"
  shows "all_parsed fairness_parsed (fairness_directive pd pf fuel D d h)"
  unfolding fairness_directive_def Let_def using assms
  by (intro parsed_ok all_parsed_then_store [OF parseScoringBlock_parsed]
      all_parsed_then_store [OF parseSessionCookieBlock_parsed])
    (auto simp: fairness_parsed_def put_config_def)

lemma fairness_parse: "fairness_parsed h \<Longrightarrow> all_parsed fairness_parsed (fairness_UnmarshalCaddyfile pd pf fuel D d h)"
  unfolding fairness_UnmarshalCaddyfile_def by (intro parsed_ok fairness_directive_parsed)

section \<open>That it ends\<close>

lemma settles_line [settled]: "left d \<le> k \<Longrightarrow> settles left k (line_result d r)"
  by (cases r) (auto simp: line_result_def intro!: settled)

lemma settles_then_store [settled]: "settles left k r \<Longrightarrow> settles left k (then_store r put)"
  by (auto simp: then_store_def settles_def accept_def fail_def split: option.splits sum.splits)

lemma settles_option [settled]:
  "(v = None \<Longrightarrow> settles left k r) \<Longrightarrow> (\<And>x. v = Some x \<Longrightarrow> settles left k (f x)) \<Longrightarrow>
    settles left k (case v of None \<Rightarrow> r | Some x \<Rightarrow> f x)"
  by (cases v) simp_all

lemma parseSessionCookieBlock_settles [settled]:
  assumes "consumes left D" "left d \<le> k" "k < fuel"
  shows "settles left k (parseSessionCookieBlock pd fuel D d)"
proof -
  have "left (snd (dp_NextArg D d)) \<le> k" using assms by (auto simp: consumes_def intro: le_trans)
  then have "settles left k (block_loop fuel (dp_NextBlock D 1) (session_directive pd D) (snd (dp_NextArg D d)) empty_session_cookie)"
    unfolding session_directive_def Let_def by (intro settled assms)
  then show ?thesis
    by (auto simp: parseSessionCookieBlock_def settles_def accept_def fail_def
        split: prod.splits bool.split option.splits sum.splits)
qed

lemma parseScoringBlock_settles [settled]:
  "consumes left D \<Longrightarrow> left d \<le> k \<Longrightarrow> k < fuel \<Longrightarrow> settles left k (parseScoringBlock pf fuel D d)"
  unfolding parseScoringBlock_def scoring_directive_def Let_def by (intro settled)

lemma fairness_settles:
  assumes "consumes left D" "left d < fuel"
  shows "settles left (left d) (fairness_UnmarshalCaddyfile pd pf fuel D d h)"
  unfolding fairness_UnmarshalCaddyfile_def fairness_directive_def Let_def
  by (intro settled assms le_refl)

text \<open>More fuel gives the same answer.\<close>

lemma below_then_store [fuelled]: "below r r' \<Longrightarrow> below (then_store r put) (then_store r' put)"
  by (auto simp: below_def then_store_def)

lemma parseSessionCookieBlock_below [fuelled]:
  assumes "fuel \<le> fuel'"
  shows "below (parseSessionCookieBlock pd fuel D d) (parseSessionCookieBlock pd fuel' D d)"
proof -
  obtain b d1 where n: "dp_NextArg D d = (b, d1)" by (metis prod.exhaust)
  have "below (block_loop fuel (dp_NextBlock D 1) (session_directive pd D) d1 empty_session_cookie)
      (block_loop fuel' (dp_NextBlock D 1) (session_directive pd D) d1 empty_session_cookie)"
    using assms by (intro fuelled below_refl)
  then show ?thesis by (auto simp: parseSessionCookieBlock_def n below_def split: bool.split)
qed

lemma parseScoringBlock_below [fuelled]:
  "fuel \<le> fuel' \<Longrightarrow> below (parseScoringBlock pf fuel D d) (parseScoringBlock pf fuel' D d)"
  unfolding parseScoringBlock_def by (intro fuelled below_refl)

lemma fairness_below:
  assumes "fuel \<le> fuel'"
  shows "below (fairness_UnmarshalCaddyfile pd pf fuel D d h) (fairness_UnmarshalCaddyfile pd pf fuel' D d h)"
  unfolding fairness_UnmarshalCaddyfile_def fairness_directive_def Let_def
  by (intro fuelled assms below_refl)

section \<open>What a Caddyfile gives\<close>

text \<open>
  C32: parsing a \<^verbatim>\<open>fairness\<close> block always ends, with an error or a configuration: every loop of
  the parser consumes a token, so one answer is reached with any fuel above the number of tokens,
  whatever the dispenser, the number parsers and the handler to start from.
\<close>

theorem fairness_caddyfile_parse_ends:
  assumes "consumes left D"
  shows "\<exists>r. \<forall>extra. fairness_UnmarshalCaddyfile pd pf (Suc (left d) + extra) D d h = Some r"
proof -
  let ?parse = "\<lambda>fuel. fairness_UnmarshalCaddyfile pd pf fuel D d h"
  obtain r where r: "?parse (Suc (left d)) = Some r"
    using settles_not_None [OF fairness_settles [OF assms]] by blast
  have "?parse (Suc (left d) + extra) = Some r" for extra
    using fairness_below [of "Suc (left d)" "Suc (left d) + extra" pd pf D d h] r by (simp add: below_def)
  then show ?thesis by blast
qed

definition demo_tokens :: "token list" where
  "demo_tokens = [TName ''fairness'',
     TEntry 0 ''scoring'', TEntry 1 ''penalty'', TArg ''ip'', TEntry 1 ''penalty'', TArg ''country'',
       TEntry 1 ''divisor'', TArg ''param'', TArg ''page'', TArg ''2'',
     TEntry 0 ''session_cookie'', TEntry 1 ''key'', TArg ''k1'', TArg ''/k1'',
     TEntry 0 ''ipv6_prefix_length'', TArg ''48'']"

theorem fairness_caddyfile_parse_ends_witness:
  "\<exists>r. \<forall>extra. fairness_UnmarshalCaddyfile (\<lambda>_. None) (\<lambda>_. None) (Suc (length demo_tokens) + extra) token_dispenser
    ([], demo_tokens) zero_fairness = Some r"
  using fairness_caddyfile_parse_ends [OF token_dispenser_consumes, of "\<lambda>_. None" "\<lambda>_. None" "([], demo_tokens)" zero_fairness]
  by (simp only: prod.case)

text \<open>
  C30: an accepted \<^verbatim>\<open>fairness\<close> block is well formed as a whole, whatever blocks it holds
  and however often: the dimensions it resolves to are known ones, the enabled ones with the
  tuning stored for them or the built-in one, user classes are known ones, no divisor is zero
  or negative, the IPv6 prefix is unset, 48 or 56.
\<close>

theorem accepted_fairness_block_is_well_formed:
  assumes "fairness_UnmarshalCaddyfile pd pf fuel D d zero_fairness = Some (Inr (d', h))" "fh_ScoringOverrides h = Some ov"
  shows "let cfg = resolveScoringConfig (Some ov) in
    map_get (sc_Dimensions cfg) dm =
      (case map_get (so_EnabledDimensions ov) dm of None \<Rightarrow> None
       | Some _ \<Rightarrow> Some (case map_get (so_Penalties ov) dm of Some pc \<Rightarrow> pc | None \<Rightarrow> defaultPenaltyFor dm))
    \<and> (map_get (sc_Dimensions cfg) dm = None \<or> validScoringDimensions dm)
    \<and> (map_get (sc_BaseScores cfg) uc = None \<or> validUserClasses uc)
    \<and> (case map_get (sc_Divisors cfg) name of None \<Rightarrow> True | Some v \<Rightarrow> \<not> fle v (Fin 0))
    \<and> fc_IPv6PrefixLength (fh_Config h) \<in> {0, 48, 56}"
proof -
  have "fairness_parsed zero_fairness" by (simp add: fairness_parsed_def zero_fairness_def)
  then have p: "fairness_parsed h" using all_parsedD [OF fairness_parse assms(1)] by blast
  then have ov: "scoring_parsed ov" "fc_IPv6PrefixLength (fh_Config h) \<in> {0, 48, 56}"
    using assms(2) by (auto simp: fairness_parsed_def)
  have "map_get (sc_BaseScores newDefaultScoringConfig) uc = None \<or> validUserClasses uc"
    by (auto simp: newDefaultScoringConfig_def validUserClasses_def)
  then show ?thesis
    using resolve_is_opt_in [of ov dm name uc] ov unfolding scoring_parsed_def Let_def
    by (auto split: option.split)
qed

lemma demo_tokens_parse:
  "\<exists>d h ov. fairness_UnmarshalCaddyfile (\<lambda>_. None) (\<lambda>_. None) 17 token_dispenser ([], demo_tokens) zero_fairness = Some (Inr (d, h))
    \<and> fh_ScoringOverrides h = Some ov \<and> map_get (so_EnabledDimensions ov) ''ip'' = Some True
    \<and> map_get (so_EnabledDimensions ov) ''asn'' = None \<and> fc_SessionCookie (fh_Config h) \<noteq> None"
proof -
  have "case fairness_UnmarshalCaddyfile (\<lambda>_. None) (\<lambda>_. None) 17 token_dispenser ([], demo_tokens) zero_fairness of
     Some (Inr (d, h)) \<Rightarrow> (case fh_ScoringOverrides h of Some ov \<Rightarrow> map_get (so_EnabledDimensions ov) ''ip'' = Some True
        \<and> map_get (so_EnabledDimensions ov) ''asn'' = None \<and> fc_SessionCookie (fh_Config h) \<noteq> None | None \<Rightarrow> False)
    | _ \<Rightarrow> False"
    by code_simp
  then show ?thesis by (auto split: option.splits sum.splits)
qed

theorem accepted_fairness_block_is_well_formed_witness:
  "\<exists>d h ov. fairness_UnmarshalCaddyfile (\<lambda>_. None) (\<lambda>_. None) 17 token_dispenser ([], demo_tokens) zero_fairness = Some (Inr (d, h))
    \<and> fh_ScoringOverrides h = Some ov \<and> map_get (sc_Dimensions (resolveScoringConfig (Some ov))) ''ip'' \<noteq> None
    \<and> map_get (sc_Dimensions (resolveScoringConfig (Some ov))) ''asn'' = None"
proof -
  obtain d h ov where p: "fairness_UnmarshalCaddyfile (\<lambda>_. None) (\<lambda>_. None) 17 token_dispenser ([], demo_tokens) zero_fairness = Some (Inr (d, h))"
    "fh_ScoringOverrides h = Some ov" "map_get (so_EnabledDimensions ov) ''ip'' = Some True" "map_get (so_EnabledDimensions ov) ''asn'' = None"
    using demo_tokens_parse by blast
  note w = accepted_fairness_block_is_well_formed [OF p(1,2), unfolded Let_def]
  show ?thesis using w [of "''ip''"] w [of "''asn''"] p by auto
qed

definition key_file_error :: "session_error \<Rightarrow> bool" where
  "key_file_error e = (case e of DuplicateKID _ \<Rightarrow> True | UnreadableKey _ \<Rightarrow> True | ShortKey _ _ \<Rightarrow> True | _ \<Rightarrow> False)"

lemma load_keys_error:
  "list_all (\<lambda>k. validateSessionKID (sk_KID k) = None) ks \<Longrightarrow> load_keys readFile ks keys = Inl e \<Longrightarrow> key_file_error e"
  by (induction readFile ks keys rule: load_keys.induct) (auto simp: key_file_error_def Let_def split: if_splits option.splits)

text \<open>
  C31: the checks on a \<^verbatim>\<open>session_cookie\<close> block are split between parsing and provisioning without
  a gap: a block the parser accepts has keys, a mode and a lifetime that provisioning accepts, so
  only the contents of the key files (unreadable, too short) or a key id given twice can make it fail.
\<close>

theorem accepted_session_block_fails_only_on_files:
  assumes "fairness_UnmarshalCaddyfile pd pf fuel D d zero_fairness = Some (Inr (d', h))" "fc_SessionCookie (fh_Config h) = Some sc"
  shows "case newSessionCookies readFile sc of Inl e \<Rightarrow> key_file_error e
    | Inr s \<Rightarrow> 0 < ck_ttl s \<and> ck_name s \<noteq> [] \<and> (ck_check s \<or> ck_issue s)
        \<and> ck_signKID s = sk_KID (hd (scc_Keys sc)) \<and> map_get (ck_keys s) (ck_signKID s) \<noteq> None"
proof -
  have "fairness_parsed zero_fairness" by (simp add: fairness_parsed_def zero_fairness_def)
  then have "fairness_parsed h" using all_parsedD [OF fairness_parse assms(1)] by blast
  then have sc: "session_cookie_parsed sc" "scc_Keys sc \<noteq> []" using assms(2) by (auto simp: fairness_parsed_def)
  show ?thesis
  proof (cases "newSessionCookies readFile sc")
    case (Inl e)
    then have "load_keys readFile (scc_Keys sc) [] = Inl e"
      using sc by (auto simp: newSessionCookies_def Let_def session_cookie_parsed_def split: if_splits sum.splits)
    then show ?thesis using load_keys_error sc(1) Inl by (auto simp: session_cookie_parsed_def)
  next
    case (Inr s)
    have "ck_check s \<or> ck_issue s" "ck_signKID s = sk_KID (hd (scc_Keys sc))"
      using Inr sc by (auto simp: newSessionCookies_def Let_def session_cookie_parsed_def split: if_splits sum.splits)
    then show ?thesis using Inr newSessionCookies_sound(1,2,4) [OF Inr] by auto
  qed
qed

theorem accepted_session_block_fails_only_on_files_witness:
  "\<exists>d h sc. fairness_UnmarshalCaddyfile (\<lambda>_. None) (\<lambda>_. None) 17 token_dispenser ([], demo_tokens) zero_fairness = Some (Inr (d, h))
    \<and> fc_SessionCookie (fh_Config h) = Some sc
    \<and> (case newSessionCookies (\<lambda>_. None) sc of Inl e \<Rightarrow> key_file_error e | Inr s \<Rightarrow> ck_check s \<or> ck_issue s)"
proof -
  obtain d h sc where p: "fairness_UnmarshalCaddyfile (\<lambda>_. None) (\<lambda>_. None) 17 token_dispenser ([], demo_tokens) zero_fairness = Some (Inr (d, h))"
    "fc_SessionCookie (fh_Config h) = Some sc"
    using demo_tokens_parse by blast
  show ?thesis using accepted_session_block_fails_only_on_files [OF p, of "\<lambda>_. None"] p by (auto split: sum.splits)
qed

end
