(* ===== verification/Fairness_Properties.thy ===== *)
theory Fairness_Properties imports Fairness_Handler begin

text \<open>
  What the fairness handler promises: its references to shared resources balance, an enabled
  dimension has its data, a class is earned, and the status endpoint shows no secret.
\<close>

section \<open>Lemmas\<close>

lemma validate_frame:
  "fh_app (snd (validate_handler readFile resolved g h)) = fh_app h"
  "fh_Config (snd (validate_handler readFile resolved g h)) = fh_Config h"
  by (auto simp: validate_handler_def Let_def split: option.split sum.split)

lemma releaseAcquired_refs:
  assumes "env_laws E" "fh_app h"
  shows "geo_refs E (releaseAcquired E h a) k =
      geo_refs E a k - geo_uses E (fc_GeoIPCityDB (fh_Config h)) k - geo_uses E (fc_GeoIPASNDB (fh_Config h)) k"
    "auth_refs E (releaseAcquired E h a) k = auth_refs E a k - auth_uses (fc_AuthJWKSURL (fh_Config h)) k"
  using assms(2) by (simp_all add: releaseAcquired_def Let_def release_refs [OF assms(1)])

lemma release_handlers [simp]:
  "fa_handlers (releaseAcquired E h a) = fa_handlers a"
  by (simp add: releaseAcquired_def releaseGeoReader_def releaseVerifier_def Let_def)

lemma register_refs [simp]:
  "geo_refs E (fregisterHandler b p a) = geo_refs E a" "auth_refs E (fregisterHandler b p a) = auth_refs E a"
  "geo_refs E (funregisterHandler b p a) = geo_refs E a" "auth_refs E (funregisterHandler b p a) = auth_refs E a"
  by (auto simp: geo_refs_def auth_refs_def fregisterHandler_def funregisterHandler_def Let_def fun_eq_iff split: option.split)

text \<open>
  \<open>Provision\<close> with the app found acquires (\<open>acquired\<close>), then validates, and either registers or
  releases (\<open>validated\<close>).
\<close>

definition acquired :: "('p, 'q) app_env \<Rightarrow> FairnessConfig \<Rightarrow> ('p, 'q) FairnessApp \<Rightarrow> ('p, 'q) FairnessApp \<Rightarrow> bool" where
  "acquired E cfg a a' \<longleftrightarrow>
    (\<forall>k. geo_refs E a' k = geo_refs E a k + geo_uses E (fc_GeoIPCityDB cfg) k + geo_uses E (fc_GeoIPASNDB cfg) k)
    \<and> (\<forall>k. auth_refs E a' k = auth_refs E a k + auth_uses (fc_AuthJWKSURL cfg) k)
    \<and> fa_handlers a' = fa_handlers a"

definition validated :: "('p, 'q) app_env \<Rightarrow> (string \<Rightarrow> string option) \<Rightarrow> handler_ptr \<Rightarrow> FairnessHandler \<Rightarrow> geoLookup
    \<Rightarrow> ('p, 'q) FairnessApp \<Rightarrow> fairness_error option \<times> FairnessHandler \<times> ('p, 'q) FairnessApp option \<Rightarrow> bool" where
  "validated E readFile ptr h2 g a3 res \<longleftrightarrow>
    (let resolved = resolveScoringConfig (fh_ScoringOverrides h2); cfg = fh_Config h2 in
     case validate_handler readFile resolved g h2 of
       (Some e, h3) \<Rightarrow> res = (Some e, h3, Some (releaseAcquired E h3 a3))
     | (None, h3) \<Rightarrow> res = (None,
         h3\<lparr>fh_scoring := Some (newScoringState resolved (ewmaTickInterval (Some cfg)) (idleEntryTTL (Some cfg)))\<rparr>,
         Some (fregisterHandler (fairness_backendLabel (Some cfg)) ptr a3)))"

lemma fProvision_cases:
  assumes "env_laws E"
  shows "\<exists>a3 g h2. acquired E (fh_Config h) a a3 \<and> fh_app h2 \<and> fh_Config h2 = fh_Config h \<and> fh_geo h2 = Some g
    \<and> fh_ScoringOverrides h2 = fh_ScoringOverrides h
    \<and> validated E readFile ptr h2 g a3 (fProvision E readFile ptr h (AppFound a))"
proof -
  let ?cfg = "fh_Config h"
  have geo: "\<exists>r a'. acquireGeoReader E path a = Some (r, a') \<and> (\<forall>k. geo_refs E a' k = geo_refs E a k + geo_uses E path k)
      \<and> auth_refs E a' = auth_refs E a \<and> fa_handlers a' = fa_handlers a" for path a
    using acquireGeoReader_refs [OF assms(1), of path a] by (metis (no_types, lifting) option.inject prod.inject)
  have auth: "\<exists>v a'. acquireVerifier E url iss aud i a = Some (v, a') \<and> (\<forall>k. auth_refs E a' k = auth_refs E a k + auth_uses url k)
      \<and> geo_refs E a' = geo_refs E a \<and> fa_handlers a' = fa_handlers a" for url iss aud i a
    using acquireVerifier_refs [OF assms(1), of url iss aud i a] by (metis (no_types, lifting) option.inject prod.inject)
  obtain city a1 where c: "acquireGeoReader E (fc_GeoIPCityDB ?cfg) a = Some (city, a1)"
    "\<forall>k. geo_refs E a1 k = geo_refs E a k + geo_uses E (fc_GeoIPCityDB ?cfg) k" "auth_refs E a1 = auth_refs E a"
    "fa_handlers a1 = fa_handlers a" using geo by blast
  obtain asn a2 where n: "acquireGeoReader E (fc_GeoIPASNDB ?cfg) a1 = Some (asn, a2)"
    "\<forall>k. geo_refs E a2 k = geo_refs E a1 k + geo_uses E (fc_GeoIPASNDB ?cfg) k" "auth_refs E a2 = auth_refs E a1"
    "fa_handlers a2 = fa_handlers a1" using geo by blast
  obtain v a3 where w: "acquireVerifier E (fc_AuthJWKSURL ?cfg) (fc_AuthIssuer ?cfg) (fc_AuthAudience ?cfg) defaultJWKSRefreshInterval a2
      = Some (v, a3)" "\<forall>k. auth_refs E a3 k = auth_refs E a2 k + auth_uses (fc_AuthJWKSURL ?cfg) k"
    "geo_refs E a3 = geo_refs E a2" "fa_handlers a3 = fa_handlers a2" using auth by blast
  define g where "g = \<lparr>gl_city = city, gl_asn = asn\<rparr>"
  define h1 where "h1 = h\<lparr>fh_app := True, fh_geo := Some g\<rparr>"
  define h2 where "h2 = (if fc_AuthJWKSURL ?cfg \<noteq> [] then h1\<lparr>fh_auth := v\<rparr> else h1)"
  have h2: "fh_app h2" "fh_Config h2 = ?cfg" "fh_geo h2 = Some g" "fh_ScoringOverrides h2 = fh_ScoringOverrides h"
    by (simp_all add: h2_def h1_def)
  obtain e h3 where val: "validate_handler readFile (resolveScoringConfig (fh_ScoringOverrides h)) g h2 = (e, h3)"
    by (metis prod.exhaust)
  have "validated E readFile ptr h2 g a3 (fProvision E readFile ptr h (AppFound a))"
    using c(1) n(1) w(1) val
    by (cases e; cases "fc_AuthJWKSURL ?cfg = []")
      (simp_all add: fProvision_def validated_def Let_def h2(2,4), simp_all add: h2_def h1_def g_def)
  moreover have "acquired E ?cfg a a3" using c n w by (simp add: acquired_def)
  ultimately show ?thesis using h2 by blast
qed

section \<open>Properties\<close>

text \<open>
  C11: provisioning and cleaning up balance: a handler whose provisioning fails leaves every
  reference count and the registry as they were; one that succeeds holds one reference per
  configured resource and is registered, and its cleanup gives exactly those references back and
  takes it out of the registry.
\<close>

theorem provision_balances_references:
  assumes "env_laws E" "fProvision E readFile ptr h (AppFound a) = (err, h', Some a')"
  shows "case err of
      Some e \<Rightarrow> geo_refs E a' k = geo_refs E a k \<and> auth_refs E a' k = auth_refs E a k \<and> fa_handlers a' = fa_handlers a
    | None \<Rightarrow>
        geo_refs E a' k = geo_refs E a k + geo_uses E (fc_GeoIPCityDB (fh_Config h)) k + geo_uses E (fc_GeoIPASNDB (fh_Config h)) k
        \<and> auth_refs E a' k = auth_refs E a k + auth_uses (fc_AuthJWKSURL (fh_Config h)) k
        \<and> fregistered a' (fairness_backendLabel (Some (fh_Config h))) = Some ptr
        \<and> (let a'' = fCleanup E ptr h' a' in geo_refs E a'' k = geo_refs E a k \<and> auth_refs E a'' k = auth_refs E a k
            \<and> fregistered a'' (fairness_backendLabel (Some (fh_Config h))) = None)"
proof -
  obtain a3 g h2 where r: "acquired E (fh_Config h) a a3" "fh_app h2" "fh_Config h2 = fh_Config h"
    "validated E readFile ptr h2 g a3 (err, h', Some a')"
    using fProvision_cases [OF assms(1), of h a readFile ptr] assms(2) by metis
  obtain e h3 where val: "validate_handler readFile (resolveScoringConfig (fh_ScoringOverrides h2)) g h2 = (e, h3)"
    by (metis prod.exhaust)
  have h3: "fh_app h3" "fh_Config h3 = fh_Config h" using validate_frame [of readFile _ _ h2] val r(2,3) by (metis snd_conv)+
  note v = r(4) [unfolded validated_def Let_def val prod.case]
  have acq: "\<And>k. geo_refs E a3 k = geo_refs E a k + geo_uses E (fc_GeoIPCityDB (fh_Config h)) k
      + geo_uses E (fc_GeoIPASNDB (fh_Config h)) k"
    "\<And>k. auth_refs E a3 k = auth_refs E a k + auth_uses (fc_AuthJWKSURL (fh_Config h)) k" "fa_handlers a3 = fa_handlers a"
    using r(1) by (simp_all add: acquired_def)
  show ?thesis
  proof (cases e)
    case None
    then show ?thesis
      using v h3 r(3) acq by (simp add: fCleanup_def releaseAcquired_refs [OF assms(1)] fapps.look_reg Let_def)
        (simp add: fregistered_def fregisterHandler_def funregisterHandler_def Let_def)
  next
    case (Some e')
    then show ?thesis using v h3 acq by (simp add: releaseAcquired_refs [OF assms(1)])
  qed
qed

text \<open>A reference-counting pool, and a block with one database.\<close>

definition counting_pool :: "((string, 'v \<times> nat) gomap, 'v) pool_ops" where
  "counting_pool =
    \<lparr>po_LoadOrNew = (\<lambda>k v p. case map_get p k of
        None \<Rightarrow> Some (v, map_put k (v, 1) p) | Some (v0, n) \<Rightarrow> Some (v0, map_put k (v0, n + 1) p)),
     po_Delete = (\<lambda>k p. case map_get p k of
        None \<Rightarrow> p | Some (v0, n) \<Rightarrow> if n \<le> 1 then map_del k p else map_put k (v0, n - 1) p),
     po_References = (\<lambda>k p. case map_get p k of None \<Rightarrow> 0 | Some (_, n) \<Rightarrow> n),
     po_Range = map (\<lambda>(k, v, _). (k, v))\<rparr>"

lemma counting_pool_laws: "pool_laws counting_pool"
  by (auto simp: pool_laws_def counting_pool_def split: option.split)

definition demo_env :: "((string, geoReader \<times> nat) gomap, (string, jwksVerifier \<times> nat) gomap) app_env" where
  "demo_env = \<lparr>ae_geo = counting_pool, ae_auth = counting_pool, ae_FastAbs = (\<lambda>_. None), ae_open_db = (\<lambda>_. Some 1),
     ae_open_jwks = (\<lambda>_ _. None)\<rparr>"

lemma demo_env_laws: "env_laws demo_env"
  by (simp add: env_laws_def demo_env_def counting_pool_laws)

definition demo_fairness :: "string list \<Rightarrow> FairnessHandler" where
  "demo_fairness dims =
    \<lparr>fh_Config = \<lparr>fc_Backend = ''api'', fc_GeoIPCityDB = ''city.mmdb'', fc_GeoIPASNDB = [], fc_AuthIssuer = [],
       fc_AuthJWKSURL = [], fc_AuthAudience = [], fc_IPv6PrefixLength = 0, fc_EWMATickInterval = 0, fc_IdleEntryTTL = 0,
       fc_SessionCookie = None\<rparr>,
     fh_app = False, fh_geo = None, fh_auth = None,
     fh_ScoringOverrides = Some \<lparr>so_BaseScores = [], so_EnabledDimensions = map (\<lambda>d. (d, True)) dims, so_Penalties = [],
       so_MinScore = None, so_MaxScore = None, so_Divisors = []\<rparr>,
     fh_scoring = None, fh_session = None\<rparr>"

definition shared_app :: "((string, geoReader \<times> nat) gomap, (string, jwksVerifier \<times> nat) gomap) FairnessApp" where
  "shared_app = \<lparr>fa_geoPool = [(''city.mmdb'', (\<lparr>gr_reader = Some 1\<rparr>, 1))], fa_authPool = [], fa_handlers = Some [(''other'', 1)]\<rparr>"

lemma demo_provision_fails:
  "\<exists>h' a'. fProvision demo_env (\<lambda>_. None) 7 (demo_fairness [''user'']) (AppFound shared_app) = (Some (FNotConfigured ''user''), h', Some a')"
  by (simp add: fProvision_def demo_env_def shared_app_def demo_fairness_def acquireGeoReader_def acquireVerifier_def
      counting_pool_def geoPoolKey_def Let_def validate_handler_def resolveScoringConfig_def map_put_def need_user_def)

lemma demo_provision_succeeds:
  "\<exists>h' a'. fProvision demo_env (\<lambda>_. None) 7 (demo_fairness [''country'', ''ip'']) (AppFound shared_app) = (None, h', Some a')"
  by (simp add: fProvision_def demo_env_def shared_app_def demo_fairness_def acquireGeoReader_def acquireVerifier_def
      counting_pool_def geoPoolKey_def openGeoReader_def Let_def validate_handler_def resolveScoringConfig_def map_put_def
      need_reader_def reader_of_def resolve_dimension_def defaultPenaltyFor_def newDefaultScoringConfig_def default_tuning_def)

lemma demo_uses:
  "geo_refs demo_env shared_app ''city.mmdb'' = 1" "geo_uses demo_env ''city.mmdb'' ''city.mmdb'' = 1" "geo_uses demo_env [] k = 0"
  "fc_GeoIPCityDB (fh_Config (demo_fairness ds)) = ''city.mmdb''" "fc_GeoIPASNDB (fh_Config (demo_fairness ds)) = []"
  "fairness_backendLabel (Some (fh_Config (demo_fairness ds))) = ''api''"
  by (simp_all add: geo_refs_def geo_uses_def demo_env_def shared_app_def counting_pool_def geoPoolKey_def demo_fairness_def
      fairness_backendLabel_def)

theorem provision_balances_references_witness:
  "\<exists>h' a'. fProvision demo_env (\<lambda>_. None) 7 (demo_fairness [''country'', ''ip'']) (AppFound shared_app) = (None, h', Some a')
    \<and> geo_refs demo_env a' ''city.mmdb'' = 2 \<and> fregistered a' ''api'' = Some 7
    \<and> geo_refs demo_env (fCleanup demo_env 7 h' a') ''city.mmdb'' = 1"
proof -
  obtain h' a' where p: "fProvision demo_env (\<lambda>_. None) 7 (demo_fairness [''country'', ''ip'']) (AppFound shared_app) = (None, h', Some a')"
    using demo_provision_succeeds by blast
  show ?thesis
    using provision_balances_references [OF demo_env_laws p, of "''city.mmdb''"] p by (simp add: demo_uses Let_def)
qed

text \<open>
  releasing is not idempotent: when provisioning has failed (and released what it had
  acquired) and the handler is then cleaned up all the same, as Caddy does with a module whose
  \<open>Provision\<close> returned an error, its references are taken away a second time, from whoever else
  holds them.
\<close>

theorem cleanup_after_failed_provision_releases_twice:
  assumes "env_laws E" "fProvision E readFile ptr h (AppFound a) = (Some e, h', Some a')"
  shows "geo_refs E (fCleanup E ptr h' a') k =
      geo_refs E a k - geo_uses E (fc_GeoIPCityDB (fh_Config h)) k - geo_uses E (fc_GeoIPASNDB (fh_Config h)) k
    \<and> auth_refs E (fCleanup E ptr h' a') k = auth_refs E a k - auth_uses (fc_AuthJWKSURL (fh_Config h)) k"
proof -
  obtain a3 g h2 where r: "acquired E (fh_Config h) a a3" "fh_app h2" "fh_Config h2 = fh_Config h"
    "validated E readFile ptr h2 g a3 (Some e, h', Some a')"
    using fProvision_cases [OF assms(1), of h a readFile ptr] assms(2) by metis
  obtain e' h3 where val: "validate_handler readFile (resolveScoringConfig (fh_ScoringOverrides h2)) g h2 = (e', h3)"
    by (metis prod.exhaust)
  have h3: "fh_app h3" "fh_Config h3 = fh_Config h" using validate_frame [of readFile _ _ h2] val r(2,3) by (metis snd_conv)+
  have "h' = h3" "a' = releaseAcquired E h3 a3"
    using r(4) by (auto simp: validated_def Let_def val split: option.splits)
  then show ?thesis
    using r(1) h3 by (simp add: fCleanup_def releaseAcquired_refs [OF assms(1)] acquired_def)
qed

theorem cleanup_after_failed_provision_releases_twice_witness:
  "\<exists>h' a'. fProvision demo_env (\<lambda>_. None) 7 (demo_fairness [''user'']) (AppFound shared_app) = (Some (FNotConfigured ''user''), h', Some a')
    \<and> geo_refs demo_env shared_app ''city.mmdb'' = 1
    \<and> geo_refs demo_env (fCleanup demo_env 7 h' a') ''city.mmdb'' = 0"
proof -
  obtain h' a' where p: "fProvision demo_env (\<lambda>_. None) 7 (demo_fairness [''user'']) (AppFound shared_app) =
      (Some (FNotConfigured ''user''), h', Some a')"
    using demo_provision_fails by blast
  show ?thesis
    using cleanup_after_failed_provision_releases_twice [OF demo_env_laws p, of "''city.mmdb''"] p by (simp add: demo_uses)
qed

lemma need_reader_None: "need_reader g path u b dm = None \<Longrightarrow> reader_of g \<noteq> None"
  by (auto simp: need_reader_def split: if_splits)

lemma check_exempt_None:
  "check_exempt h city ds = None \<Longrightarrow> list_ex (\<lambda>(dm, pc). pc_ExemptCountries pc \<noteq> []) ds \<Longrightarrow> reader_of city \<noteq> None"
proof (induction ds)
  case (Cons x ds)
  show ?case
  proof (cases "pc_ExemptCountries (snd x) = []")
    case True
    then show ?thesis using Cons by (cases x) auto
  next
    case False
    then have "need_reader city (fc_GeoIPCityDB (fh_Config h)) FExemptNotConfigured FExemptFailedToOpen (fst x) = None"
      using Cons.prems(1) by (cases x) (auto split: option.splits)
    then show ?thesis by (rule need_reader_None)
  qed
qed simp

text \<open>What a validation that passes has checked, one fact per data source.\<close>

lemma validate_handler_ok:
  assumes "validate_handler readFile cfg g h = (None, h')"
  shows "\<exists>s. h' = h\<lparr>fh_session := s\<rparr>"
    "map_get (sc_Dimensions cfg) ''asn'' \<noteq> None \<Longrightarrow>
      need_reader (gl_asn g) (fc_GeoIPASNDB (fh_Config h)) FNotConfigured FFailedToOpen ''asn'' = None"
    "map_get (sc_Dimensions cfg) ''country'' \<noteq> None \<Longrightarrow>
      need_reader (gl_city g) (fc_GeoIPCityDB (fh_Config h)) FNotConfigured FFailedToOpen ''country'' = None"
    "map_get (sc_Dimensions cfg) ''user'' \<noteq> None \<Longrightarrow> need_user h' = None"
    "check_exempt h' (gl_city g) (sc_Dimensions cfg) = None"
proof -
  define ea where "ea = (if map_get (sc_Dimensions cfg) ''asn'' \<noteq> None
    then need_reader (gl_asn g) (fc_GeoIPASNDB (fh_Config h)) FNotConfigured FFailedToOpen ''asn'' else None)"
  define ec where "ec = (if map_get (sc_Dimensions cfg) ''country'' \<noteq> None
    then need_reader (gl_city g) (fc_GeoIPCityDB (fh_Config h)) FNotConfigured FFailedToOpen ''country'' else None)"
  define ss where "ss = (case fc_SessionCookie (fh_Config h) of None \<Rightarrow> Inr (fh_session h)
    | Some sc \<Rightarrow> (case newSessionCookies readFile sc of Inl e \<Rightarrow> Inl e | Inr s \<Rightarrow> Inr (Some s)))"
  define eu where "eu s = (if map_get (sc_Dimensions cfg) ''user'' \<noteq> None then need_user (h\<lparr>fh_session := s\<rparr>) else None)" for s
  have v: "validate_handler readFile cfg g h = (if ea \<noteq> None then (ea, h) else if ec \<noteq> None then (ec, h)
    else case ss of Inl e \<Rightarrow> (Some (FSessionCookie e), h)
      | Inr s \<Rightarrow> (if eu s \<noteq> None then (eu s, h\<lparr>fh_session := s\<rparr>)
          else (check_exempt (h\<lparr>fh_session := s\<rparr>) (gl_city g) (sc_Dimensions cfg), h\<lparr>fh_session := s\<rparr>)))"
    by (simp only: validate_handler_def Let_def ea_def [symmetric] ec_def [symmetric] ss_def [symmetric] eu_def [symmetric])
  have a: "ea = None" "ec = None" using assms unfolding v by (auto split: if_splits)
  obtain s where s: "ss = Inr s" using assms a unfolding v by (cases ss) auto
  have b: "eu s = None" using assms a s unfolding v by (cases "eu s") auto
  have c: "h' = h\<lparr>fh_session := s\<rparr>" "check_exempt h' (gl_city g) (sc_Dimensions cfg) = None"
    using assms a s b unfolding v by auto
  show "\<exists>s. h' = h\<lparr>fh_session := s\<rparr>" using c by blast
  show "check_exempt h' (gl_city g) (sc_Dimensions cfg) = None" by (fact c)
  show "need_reader (gl_asn g) (fc_GeoIPASNDB (fh_Config h)) FNotConfigured FFailedToOpen ''asn'' = None"
    if "map_get (sc_Dimensions cfg) ''asn'' \<noteq> None" using a(1) that by (simp add: ea_def)
  show "need_reader (gl_city g) (fc_GeoIPCityDB (fh_Config h)) FNotConfigured FFailedToOpen ''country'' = None"
    if "map_get (sc_Dimensions cfg) ''country'' \<noteq> None" using a(2) that by (simp add: ec_def)
  show "need_user h' = None" if "map_get (sc_Dimensions cfg) ''user'' \<noteq> None" using b that by (simp add: eu_def c)
qed

text \<open>
  C28: no enabled dimension is silently dead: after a successful provisioning every dimension that
  needs a data source has it open (asn and country their database, user a key set or a session
  cookie that is checked, an exemption list the country database), and the scoring state starts
  empty with the resolved configuration.
\<close>

theorem provisioned_dimensions_have_data:
  assumes "env_laws E" "fProvision E readFile ptr h (AppFound a) = (None, h', app')"
  shows "\<exists>g. fh_geo h' = Some g
    \<and> (let cfg = resolveScoringConfig (fh_ScoringOverrides h); enabled = (\<lambda>dm. map_get (sc_Dimensions cfg) dm \<noteq> None) in
      fh_scoring h' = Some (newScoringState cfg (ewmaTickInterval (Some (fh_Config h))) (idleEntryTTL (Some (fh_Config h))))
      \<and> (if enabled ''asn'' then reader_of (gl_asn g) \<noteq> None else True)
      \<and> (if enabled ''country'' then reader_of (gl_city g) \<noteq> None else True)
      \<and> (if enabled ''user'' then Option.bind (fh_auth h') vf_kf \<noteq> None \<or> (\<exists>sc. fh_session h' = Some sc \<and> ck_check sc) else True)
      \<and> (if list_ex (\<lambda>(dm, pc). pc_ExemptCountries pc \<noteq> []) (sc_Dimensions cfg) then reader_of (gl_city g) \<noteq> None else True))"
proof -
  obtain a3 g h2 where r: "fh_geo h2 = Some g" "fh_Config h2 = fh_Config h" "fh_ScoringOverrides h2 = fh_ScoringOverrides h"
    "validated E readFile ptr h2 g a3 (None, h', app')"
    using fProvision_cases [OF assms(1), of h a readFile ptr] assms(2) by metis
  let ?cfg = "resolveScoringConfig (fh_ScoringOverrides h)"
  obtain e h3 where val: "validate_handler readFile ?cfg g h2 = (e, h3)" by (metis prod.exhaust)
  have e: "e = None" and h': "h' = h3\<lparr>fh_scoring := Some (newScoringState ?cfg (ewmaTickInterval (Some (fh_Config h)))
      (idleEntryTTL (Some (fh_Config h))))\<rparr>"
    using r(2-4) by (auto simp: validated_def Let_def val split: option.splits)
  note ok = validate_handler_ok [OF val [unfolded e]]
  have geo: "fh_geo h3 = Some g" using ok(1) r(1) by auto
  note user = ok(4) and rest = ok(5) ok(2) [THEN need_reader_None] ok(3) [THEN need_reader_None]
  have "Option.bind (fh_auth h3) vf_kf \<noteq> None \<or> (\<exists>sc. fh_session h3 = Some sc \<and> ck_check sc)"
    if "map_get (sc_Dimensions ?cfg) ''user'' \<noteq> None"
    using user [OF that] by (auto simp: need_user_def split: option.splits if_splits)
  then show ?thesis using geo rest check_exempt_None [OF rest(1)] by (simp add: h' Let_def)
qed

theorem provisioned_dimensions_have_data_witness:
  "\<exists>h' app'. fProvision demo_env (\<lambda>_. None) 7 (demo_fairness [''country'', ''ip'']) (AppFound shared_app) = (None, h', app')
    \<and> Option.bind (fh_geo h') (\<lambda>g. reader_of (gl_city g)) \<noteq> None"
proof -
  obtain h' a' where p: "fProvision demo_env (\<lambda>_. None) 7 (demo_fairness [''country'', ''ip'']) (AppFound shared_app) = (None, h', Some a')"
    using demo_provision_succeeds by blast
  have "map_get (sc_Dimensions (resolveScoringConfig (fh_ScoringOverrides (demo_fairness [''country'', ''ip''])))) ''country'' \<noteq> None"
    by (simp add: demo_fairness_def resolveScoringConfig_def Let_def)
  then show ?thesis using provisioned_dimensions_have_data [OF demo_env_laws p] p by (auto simp: Let_def)
qed

text \<open>
  C4: \<open>human_verified\<close> is earned: a request leaves the handler with that class exactly when its
  block checks cookies, the request carries an unexpired value signed with one of the block's
  keys, and no valid token gives it a trusted class; the session is then its user key. A cookie,
  good or bad, never touches a trusted class.
\<close>

theorem human_verified_needs_signed_cookie:
  "let c = ho_classification (fServeHTTP R h r vs); (uc, uid) = authenticate (re_jwt R) (fh_auth h) r in
    (cl_UserClass c = UserClassHumanVerified \<longleftrightarrow>
      \<not> validClaimedUserClasses uc
      \<and> (\<exists>sc v kid e i sec. fh_session h = Some sc \<and> ck_check sc \<and> map_of (rq_cookies r) (ck_name sc) = Some v
          \<and> signed_value (re_hmac R) sc v kid e i \<and> ParseInt e = Some sec \<and> re_now_read R < time_Unix sec
          \<and> cl_UserID c = ''session:'' @ i))
    \<and> (if validClaimedUserClasses uc then cl_UserClass c = uc \<and> cl_UserID c = uid
       else \<not> validClaimedUserClasses (cl_UserClass c))"
proof -
  obtain uc uid where au: "authenticate (re_jwt R) (fh_auth h) r = (uc, uid)" by (metis prod.exhaust)
  let ?c0 = "classify (re_dbs R) (re_jwt R) (Some (fh_Config h)) (fh_geo h) (fh_auth h) (resolveClientIP r) r"
  let ?s = "session_read (re_hmac R) (re_now_read R) (fh_session h) (rq_cookies r)"
  let ?chk = "case fh_session h of None \<Rightarrow> False | Some sc \<Rightarrow> ck_check sc"
  have c0: "cl_UserClass ?c0 = uc" "cl_UserID ?c0 = uid" by (simp_all add: classify_class au)
  have uc: "uc \<noteq> UserClassHumanVerified"
    using au by (auto simp: authenticate_def Let_def split: option.splits if_splits)
  have c: "ho_classification (fServeHTTP R h r vs) = (if ?chk then applySession ?s ?c0 else ?c0)"
    by (simp add: fServeHTTP_def Let_def split_beta)
  have valid: "rd_result ?s = sessionValid \<longleftrightarrow> (\<exists>sc v. fh_session h = Some sc \<and> map_of (rq_cookies r) (ck_name sc) = Some v
      \<and> v \<noteq> [] \<and> rd_result (verify (re_hmac R) (re_now_read R) sc v) = sessionValid)"
    by (auto simp: session_read_def split: option.splits)
  show ?thesis
  proof (cases "?chk \<and> \<not> validClaimedUserClasses uc \<and> rd_result ?s = sessionValid")
    case True
    then obtain sc v where v: "fh_session h = Some sc" "ck_check sc" "map_of (rq_cookies r) (ck_name sc) = Some v" "v \<noteq> []"
      "rd_result (verify (re_hmac R) (re_now_read R) sc v) = sessionValid"
      using valid by auto
    then obtain kid e i sec where k: "signed_value (re_hmac R) sc v kid e i" "ParseInt e = Some sec" "re_now_read R < time_Unix sec"
      "rd_id (verify (re_hmac R) (re_now_read R) sc v) = i" using verify_validD by blast
    have "ho_classification (fServeHTTP R h r vs) =
        ?c0\<lparr>cl_UserClass := UserClassHumanVerified, cl_UserID := ''session:'' @ i\<rparr>"
      using True v k(4) c0 unfolding c by (simp add: applySession_def session_read_def sessionUserIDPrefix_def)
    then show ?thesis using True v k au by auto
  next
    case False
    have no: "validClaimedUserClasses uc" if "fh_session h = Some sc" "ck_check sc" "map_of (rq_cookies r) (ck_name sc) = Some v"
      "signed_value (re_hmac R) sc v kid e i" "ParseInt e = Some sec" "re_now_read R < time_Unix sec" for sc v kid e i sec
    proof -
      have "rd_result (verify (re_hmac R) (re_now_read R) sc v) = sessionValid"
        using that by (simp add: verify_signed [OF that(4)])
      moreover have "v \<noteq> []" using that(4) by (auto simp: signed_value_def cookie_payload_def)
      ultimately have "rd_result ?s = sessionValid" using valid that by auto
      then show ?thesis using False that by auto
    qed
    have "cl_UserClass (ho_classification (fServeHTTP R h r vs)) \<noteq> UserClassHumanVerified"
      "validClaimedUserClasses uc \<Longrightarrow> cl_UserClass (ho_classification (fServeHTTP R h r vs)) = uc
        \<and> cl_UserID (ho_classification (fServeHTTP R h r vs)) = uid"
      "\<not> validClaimedUserClasses uc \<Longrightarrow> \<not> validClaimedUserClasses (cl_UserClass (ho_classification (fServeHTTP R h r vs)))"
      using False c0 uc unfolding c by (auto simp: applySession_def)
    moreover have "\<not> (\<not> validClaimedUserClasses uc \<and> (\<exists>sc v kid e i sec. fh_session h = Some sc \<and> ck_check sc
        \<and> map_of (rq_cookies r) (ck_name sc) = Some v \<and> signed_value (re_hmac R) sc v kid e i
        \<and> ParseInt e = Some sec \<and> re_now_read R < time_Unix sec
        \<and> cl_UserID (ho_classification (fServeHTTP R h r vs)) = ''session:'' @ i))"
      using no by blast
    ultimately show ?thesis unfolding Let_def au prod.case by presburger
  qed
qed

text \<open>
  the status endpoint shows key ids and settings, never a secret or the path of a key file:
  its answer is the same when every secret is blanked and the session block of the configuration
  is left out.
\<close>

definition redact :: "FairnessHandler \<Rightarrow> FairnessHandler" where
  "redact h = h\<lparr>fh_session := map_option (\<lambda>sc. sc\<lparr>ck_keys := map (\<lambda>(kid, _). (kid, [])) (ck_keys sc)\<rparr>) (fh_session h),
     fh_Config := (fh_Config h)\<lparr>fc_SessionCookie := None\<rparr>\<rparr>"

theorem status_reveals_no_secret:
  "fhandleStatus E method (\<lambda>p. redact (deref p)) app = fhandleStatus E method deref app"
proof -
  have l: "fairness_backendLabel (Some (fh_Config (redact h))) = fairness_backendLabel (Some (fh_Config h))" for h
    by (simp add: redact_def fairness_backendLabel_def)
  have "session_status (fh_session (redact h)) = session_status (fh_session h)" for h
    by (cases "fh_session h") (simp_all add: redact_def session_status_def comp_def split_beta)
  then have "backend_scoring_status (redact h) = backend_scoring_status h" for h
    unfolding backend_scoring_status_def Let_def l by (simp add: redact_def)
  then show ?thesis by (simp only: fhandleStatus_def l)
qed

end
