(* ===== verification/LoadTest.thy ===== *)
theory LoadTest imports Float64 Go_Strings begin

text \<open>
  The load generator (\<^verbatim>\<open>loadtest/sweep.go\<close>, \<^verbatim>\<open>loadtest/report.go\<close>, and the lists and
  headers taken from the command line in \<^verbatim>\<open>cmd/loadtest/main.go\<close>): what a worker counts, how a level is
  summarised, and when a sweep shows an inversion. The HTTP client, the clock and the
  cancellation of the context are the world of a worker: the list of its attempts, each with
  what the code reads during one pass of the loop. The report as text is
  in \<open>LoadTest_Report\<close>, the command in \<open>LoadTest_Main\<close>.
\<close>

section \<open>A worker\<close>

record Target =
  tg_BaseURL :: string
  tg_Endpoints :: "string list"
  tg_Header :: "(string, string list) gomap"

record load_config =
  lc_Levels :: "go_int list"
  lc_RampUp :: duration
  lc_Hold :: duration
  lc_RequestTimeout :: duration

record LevelResult =
  lv_Concurrency :: go_int
  lv_Requests :: go_int
  lv_Errors :: go_int
  lv_Window :: duration
  lv_ThroughputRPS :: f64
  lv_P50 :: duration
  lv_P95 :: duration
  lv_P99 :: duration

record workerLatencies =
  wl_latencies :: "duration list"
  wl_requests :: go_int
  wl_errors :: go_int

definition no_latencies :: workerLatencies where
  "no_latencies = \<lparr>wl_latencies = [], wl_requests = 0, wl_errors = 0\<rparr>"

text \<open>
  The round robin over the endpoints: an atomic counter shared by the workers of a level.
  \<open>None\<close> is a panic (an index out of range; the counter would have to pass \<open>2 ^ 63\<close>).
\<close>

definition nextEndpoint :: "string list \<Rightarrow> 64 word \<Rightarrow> string option \<times> 64 word" where
  "nextEndpoint es counter =
    (let i = sint counter; n = int (length es); r = sgn i * (\<bar>i\<bar> mod n) in
     (if n \<noteq> 0 \<and> 0 \<le> r then Some (es ! nat r) else None, counter + 1))"

record load_request =
  lr_URL :: string
  lr_Header :: "(string \<times> string) list"

definition load_request_to :: "Target \<Rightarrow> string \<Rightarrow> load_request" where
  "load_request_to t endpoint =
    \<lparr>lr_URL = tg_BaseURL t @ endpoint, lr_Header = concat (map (\<lambda>(k, vs). map (Pair k) vs) (tg_Header t))\<rparr>"

datatype response = DoFailed | Responded go_int

text \<open>
  One pass of the loop: the clock at its head, whether the context is done, the value the worker
  draws from the shared endpoint counter, whether the request could be built, the clock before and
  after \<^verbatim>\<open>client.Do\<close>, and its result. The timeout of a request acts inside \<^verbatim>\<open>client.Do\<close>.
\<close>

record attempt =
  at_now :: time
  at_done :: bool
  at_counter :: "64 word"
  at_request_ok :: bool
  at_start :: time
  at_end :: time
  at_response :: response

definition attempt_failed :: "attempt \<Rightarrow> bool" where
  "attempt_failed a = (case at_response a of DoFailed \<Rightarrow> True | Responded status \<Rightarrow> 400 \<le> status)"

definition count_attempt :: "time \<Rightarrow> attempt \<Rightarrow> workerLatencies \<Rightarrow> workerLatencies" where
  "count_attempt measureStart a out =
    (let elapsed = time_Sub (at_end a) (at_start a);
         inWindow = (measureStart < at_start a \<or> at_start a = measureStart)
     in case at_response a of
          DoFailed \<Rightarrow> (if inWindow then out\<lparr>wl_errors := wl_errors out + 1\<rparr> else out)
        | Responded status \<Rightarrow>
            if 400 \<le> status then (if inWindow then out\<lparr>wl_errors := wl_errors out + 1\<rparr> else out)
            else if inWindow
              then out\<lparr>wl_requests := wl_requests out + 1, wl_latencies := wl_latencies out @ [elapsed]\<rparr>
            else out)"

text \<open>What a worker has counted, the requests it has sent, and where it stands when the attempts are used up.\<close>

datatype worker_end = StillRunning | Returned | IndexPanic

fun runWorker :: "Target \<Rightarrow> time \<Rightarrow> time \<Rightarrow> attempt list \<Rightarrow> workerLatencies \<Rightarrow> load_request list
    \<Rightarrow> workerLatencies \<times> load_request list \<times> worker_end" where
  "runWorker t measureStart measureEnd [] out sent = (out, sent, StillRunning)"
| "runWorker t measureStart measureEnd (a # as) out sent =
    (if \<not> at_now a < measureEnd then (out, sent, Returned)
     else if at_done a then (out, sent, Returned)
     else case fst (nextEndpoint (tg_Endpoints t) (at_counter a)) of
       None \<Rightarrow> (out, sent, IndexPanic)
     | Some endpoint \<Rightarrow>
         if \<not> at_request_ok a then (out, sent, Returned)
         else runWorker t measureStart measureEnd as (count_attempt measureStart a out) (sent @ [load_request_to t endpoint]))"

section \<open>A level and a sweep\<close>

text \<open>Go's \<^verbatim>\<open>percentile\<close> of a slice sorted in ascending order.\<close>

definition lat_percentile :: "duration list \<Rightarrow> f64 \<Rightarrow> duration" where
  "lat_percentile xs p =
    (if xs = [] then 0
     else let n = int (length xs);
              rank = int_of_f64 (fceil (fmul (fdiv p (Fin 100)) (f64_of_int n)));
              rank = (if rank < 1 then 1 else rank);
              rank = (if rank > n then n else rank)
          in xs ! nat (rank - 1))"

definition summarizeLevel :: "go_int \<Rightarrow> duration \<Rightarrow> workerLatencies list \<Rightarrow> LevelResult" where
  "summarizeLevel concurrency window ws =
    (let requests = foldl (\<lambda>n w. n + wl_requests w) 0 ws; errs = foldl (\<lambda>n w. n + wl_errors w) 0 ws;
         all = sort (foldl (\<lambda>l w. l @ wl_latencies w) [] ws);
         windowSeconds = Seconds window;
         throughput = (if flt (Fin 0) windowSeconds then fdiv (f64_of_int requests) windowSeconds else Fin 0)
     in \<lparr>lv_Concurrency = concurrency, lv_Requests = requests, lv_Errors = errs, lv_Window = window,
         lv_ThroughputRPS = throughput, lv_P50 = lat_percentile all (Fin 50), lv_P95 = lat_percentile all (Fin 95),
         lv_P99 = lat_percentile all (Fin 99)\<rparr>)"

definition startDelay :: "duration \<Rightarrow> go_int \<Rightarrow> go_int \<Rightarrow> duration" where
  "startDelay rampUp concurrency i = (if concurrency > 1 then quot64 (wrap64 (rampUp * i)) concurrency else 0)"

text \<open>
  The world of a worker: whether the context is done before its start delay is over, and its
  attempts. The outcome of the level is read after every worker has returned.
\<close>

record worker_env =
  we_cancelled :: bool
  we_attempts :: "attempt list"

definition run_worker :: "Target \<Rightarrow> time \<Rightarrow> time \<Rightarrow> worker_env \<Rightarrow> workerLatencies" where
  "run_worker t measureStart measureEnd w =
    (if we_cancelled w then no_latencies else fst (runWorker t measureStart measureEnd (we_attempts w) no_latencies []))"

datatype load_error = NoEndpoints | MakeslicePanic

definition runLevel :: "Target \<Rightarrow> load_config \<Rightarrow> time \<Rightarrow> (go_int \<Rightarrow> duration \<Rightarrow> worker_env) \<Rightarrow> go_int \<Rightarrow> load_error + LevelResult" where
  "runLevel t cfg levelStart env concurrency =
    (if concurrency < 0 then Inl MakeslicePanic
     else let measureStart = levelStart + lc_RampUp cfg; measureEnd = measureStart + lc_Hold cfg;
              workerResults = map (\<lambda>i. run_worker t measureStart measureEnd (env i (startDelay (lc_RampUp cfg) concurrency i)))
                [0..concurrency - 1]
          in Inr (summarizeLevel concurrency (lc_Hold cfg) workerResults))"

fun sweep_levels :: "Target \<Rightarrow> load_config \<Rightarrow> (time \<times> (go_int \<Rightarrow> duration \<Rightarrow> worker_env)) list \<Rightarrow> go_int list \<Rightarrow> LevelResult list
    \<Rightarrow> load_error + LevelResult list" where
  "sweep_levels t cfg ((levelStart, env) # envs) (n # ns) results =
    (case runLevel t cfg levelStart env n of Inl e \<Rightarrow> Inl e | Inr r \<Rightarrow> sweep_levels t cfg envs ns (results @ [r]))"
| "sweep_levels t cfg _ _ results = Inr results"

definition Sweep :: "Target \<Rightarrow> load_config \<Rightarrow> (time \<times> (go_int \<Rightarrow> duration \<Rightarrow> worker_env)) list
    \<Rightarrow> load_error + LevelResult list" where
  "Sweep t cfg envs = (if tg_Endpoints t = [] then Inl NoEndpoints else sweep_levels t cfg envs (lc_Levels cfg) [])"

section \<open>The inversion\<close>

text \<open>\<^verbatim>\<open>Detail\<close> is kept as the five numbers that are formatted into it.\<close>

record InversionReport =
  iv_Inverted :: bool
  iv_PeakConcurrency :: go_int
  iv_PeakThroughputRPS :: f64
  iv_Detail :: "(go_int \<times> f64 \<times> f64 \<times> f64 \<times> go_int) option"

definition inversion_peak :: "LevelResult list \<Rightarrow> InversionReport" where
  "inversion_peak results = foldl (\<lambda>peak r.
     if flt (iv_PeakThroughputRPS peak) (lv_ThroughputRPS r)
     then peak\<lparr>iv_PeakThroughputRPS := lv_ThroughputRPS r, iv_PeakConcurrency := lv_Concurrency r\<rparr> else peak)
     \<lparr>iv_Inverted = False, iv_PeakConcurrency = 0, iv_PeakThroughputRPS = Fin 0, iv_Detail = None\<rparr> results"

definition throughput_drop :: "InversionReport \<Rightarrow> LevelResult \<Rightarrow> f64" where
  "throughput_drop peak r = fdiv (fsub (iv_PeakThroughputRPS peak) (lv_ThroughputRPS r)) (iv_PeakThroughputRPS peak)"

fun find_drop :: "f64 \<Rightarrow> InversionReport \<Rightarrow> LevelResult list \<Rightarrow> InversionReport" where
  "find_drop dropThreshold peak [] = peak"
| "find_drop dropThreshold peak (r # rs) =
    (if lv_Concurrency r \<le> iv_PeakConcurrency peak then find_drop dropThreshold peak rs
     else if fle dropThreshold (throughput_drop peak r)
     then peak\<lparr>iv_Inverted := True, iv_Detail := Some (lv_Concurrency r, lv_ThroughputRPS r,
       fmul (throughput_drop peak r) (Fin 100), iv_PeakThroughputRPS peak, iv_PeakConcurrency peak)\<rparr>
     else find_drop dropThreshold peak rs)"

definition DetectInversion :: "LevelResult list \<Rightarrow> f64 \<Rightarrow> InversionReport" where
  "DetectInversion results dropThreshold =
    (let peak = inversion_peak results in
     if feq (iv_PeakThroughputRPS peak) (Fin 0) then peak else find_drop dropThreshold peak results)"

section \<open>The command line\<close>

definition splitNonEmpty :: "string \<Rightarrow> string list" where
  "splitNonEmpty s = filter (\<lambda>r. r \<noteq> []) (map TrimSpace (strings_Split CHR '','' s))"

text \<open>\<open>Inl p\<close> is the error that names the part \<open>p\<close>.\<close>

fun parse_levels :: "string list \<Rightarrow> string + go_int list" where
  "parse_levels [] = Inr []"
| "parse_levels (p # ps) =
    (case ParseInt p of None \<Rightarrow> Inl p
     | Some n \<Rightarrow> (case parse_levels ps of Inl e \<Rightarrow> Inl e | Inr ns \<Rightarrow> Inr (n # ns)))"

definition parseLevels :: "string \<Rightarrow> string + go_int list" where
  "parseLevels s = parse_levels (splitNonEmpty s)"

section \<open>Percentiles\<close>

text \<open>A rounded product stays on the same side of a number of a coarse grid.\<close>

lemma rnd_between:
  assumes "of_int m / 128 \<le> x" "x \<le> of_int n" "0 \<le> m" "m \<le> 2 ^ 53" "0 \<le> n" "n \<le> 2 ^ 53"
  shows "\<exists>v. rnd x = Fin v \<and> of_int m / 128 \<le> v \<and> v \<le> of_int n"
proof -
  have u: "rnd x \<le> Fin (of_int n)" using rnd_mono [OF assms(2)] rnd_of_int [of n] assms by simp
  have e: "(of_int m / 128 :: rat) = of_int m * 2 powi (- 7)" by (simp add: power_int_minus)
  have "rnd_val (of_int m / 128) = of_int m / 128"
    unfolding e using assms by (intro rnd_val_exact) auto
  moreover have "rnd_val (of_int m / 128 :: rat) \<le> rnd_val x" using assms(1) by (rule rnd_val_mono)
  moreover obtain v where v: "rnd x = Fin v" "v \<le> of_int n"
    using u rnd_nonneg [of x] assms by (cases "rnd x") auto
  ultimately show ?thesis using rnd_FinD [OF v(1)] v by auto
qed

text \<open>The three quotients the report uses, after rounding: below the exact value by very little.\<close>

lemma report_quotients:
  "fdiv (Fin 50) (Fin 100) = Fin (1 / 2)"
  "fdiv (Fin 95) (Fin 100) = Fin (8556839292003942 / 2 ^ 53)"
  "fdiv (Fin 99) (Fin 100) = Fin (8917127262193582 / 2 ^ 53)"
  by code_simp+

lemma nearest_rank:
  assumes p: "fdiv (Fin (of_int p)) (Fin 100) = Fin q" "of_int p / 100 - 1 / 2 ^ 53 \<le> q" "q \<le> of_int p / 100"
    and pr: "1 \<le> p" "p \<le> 100" and xs: "xs \<noteq> []" "length xs \<le> 2 ^ 40"
  shows "lat_percentile xs (Fin (of_int p)) = xs ! ((nat p * length xs + 99) div 100 - 1)"
proof -
  define n where "n = int (length xs)"
  define r where "r = (p * n + 99) div 100"
  have n: "1 \<le> n" "n \<le> 2 ^ 40" using xs by (cases xs; auto simp: n_def)+
  have pn: "p * n \<le> 100 * n" "n \<le> p * n" using pr n by (auto intro: mult_right_mono)
  have r: "p * n \<le> 100 * r" "100 * r \<le> p * n + 99" by (auto simp: r_def)
  have r1: "1 \<le> r" "r \<le> n" using r pn n by linarith+
  have "(of_int (p * n) :: rat) \<le> of_int (100 * r)" "of_int (100 * r) \<le> (of_int (p * n + 99) :: rat)"
    using r by (simp_all only: of_int_le_iff)
  then have R: "(of_int p / 100 * of_int n :: rat) \<le> of_int r" "of_int r - 99 / 100 \<le> (of_int p / 100 * of_int n :: rat)"
    by (simp_all add: field_simps)
  have "(of_int n :: rat) \<le> of_int (2 ^ 40)" using n by (simp only: of_int_le_iff)
  then have "(of_int n :: rat) / 2 ^ 53 \<le> 1 / 2 ^ 13" by (simp add: field_simps)
  moreover have "(of_int p / 100 - 1 / 2 ^ 53) * of_int n \<le> q * (of_int n :: rat)"
    using p(2) n by (intro mult_right_mono) auto
  moreover have "q * of_int n \<le> of_int p / 100 * (of_int n :: rat)"
    using p(3) n by (intro mult_right_mono) auto
  ultimately have "(of_int (128 * (r - 1) + 1) :: rat) / 128 \<le> q * of_int n" "q * of_int n \<le> (of_int r :: rat)"
    using R by (auto simp: field_simps)
  then obtain v where v: "rnd (q * of_int n) = Fin v" "of_int (128 * (r - 1) + 1) / 128 \<le> v" "v \<le> of_int r"
    using rnd_between [of "128 * (r - 1) + 1" "q * of_int n" r] r1 n by auto
  have c: "\<lceil>v\<rceil> = r" using v by (intro ceiling_unique) (auto simp: field_simps)
  have "f64_of_int n = Fin (of_int n)" using n by (intro f64_of_int_exact) auto
  then have "int_of_f64 (fceil (fmul (fdiv (Fin (of_int p)) (Fin 100)) (f64_of_int n))) = r"
    using p(1) v(1) c in_int64_floor_small [of r] r1 n by (simp add: in_int64_def)
  then have "lat_percentile xs (Fin (of_int p)) = xs ! nat (r - 1)"
    using xs r1 unfolding lat_percentile_def Let_def n_def [symmetric] by simp
  moreover have "nat (r - 1) = (nat p * length xs + 99) div 100 - 1"
    using r1 pr by (simp add: r_def n_def nat_diff_distrib nat_div_distrib nat_add_distrib nat_mult_distrib)
  ultimately show ?thesis by simp
qed

text \<open>What a percentile is, without ranks: enough samples are at most the value, too few below it.\<close>

definition is_percentile :: "nat \<Rightarrow> duration list \<Rightarrow> duration \<Rightarrow> bool" where
  "is_percentile p xs v \<longleftrightarrow> v \<in> set xs \<and> p * length xs \<le> 100 * length (filter (\<lambda>x. x \<le> v) xs)
    \<and> 100 * length (filter (\<lambda>x. x < v) xs) < p * length xs"

lemma filter_sorted_counts:
  fixes xs :: "int list"
  assumes "sorted xs" "k < length xs"
  shows "Suc k \<le> length (filter (\<lambda>x. x \<le> xs ! k) xs)" "length (filter (\<lambda>x. x < xs ! k) xs) \<le> k"
proof -
  have "xs = take (Suc k) xs @ drop (Suc k) xs" "xs = take k xs @ drop k xs" by simp_all
  moreover have "filter (\<lambda>x. x \<le> xs ! k) (take (Suc k) xs) = take (Suc k) xs"
    using assms by (auto simp: filter_id_conv in_set_conv_nth less_Suc_eq_le intro!: sorted_nth_mono)
  ultimately have "length (filter (\<lambda>x. x \<le> xs ! k) xs) = Suc k + length (filter (\<lambda>x. x \<le> xs ! k) (drop (Suc k) xs))"
    using assms(2) by (metis filter_append length_append length_take min.absorb2 Suc_leI)
  then show "Suc k \<le> length (filter (\<lambda>x. x \<le> xs ! k) xs)" by simp
  have "filter (\<lambda>x. x < xs ! k) (drop k xs) = []"
    using assms by (auto simp: filter_empty_conv in_set_conv_nth not_less intro!: sorted_nth_mono)
  then have "filter (\<lambda>x. x < xs ! k) xs = filter (\<lambda>x. x < xs ! k) (take k xs)"
    by (metis append_Nil2 append_take_drop_id filter_append)
  then show "length (filter (\<lambda>x. x < xs ! k) xs) \<le> k"
    using length_filter_le [of "\<lambda>x. x < xs ! k" "take k xs"] by simp
qed

lemma is_percentile_rank:
  assumes "xs \<noteq> []" "1 \<le> p" "p \<le> 100"
  shows "is_percentile p xs (sort xs ! ((p * length xs + 99) div 100 - 1))"
proof -
  define k where "k = (p * length xs + 99) div 100 - 1"
  have n: "1 \<le> length xs" using assms(1) by (cases xs) auto
  obtain m where m: "m = p * length xs" by blast
  then have "m \<le> 100 * length xs" "1 \<le> m" using assms n by (simp_all add: mult_le_mono1)
  moreover have "m + 99 = 100 * ((m + 99) div 100) + (m + 99) mod 100" "(m + 99) mod 100 < 100" by simp_all
  moreover obtain d where d: "d = (m + 99) div 100" by blast
  ultimately have "1 \<le> d" "d \<le> length xs" "m \<le> 100 * d" "100 * d \<le> m + 99" by linarith+
  moreover obtain e where "d = Suc e" using calculation(1) by (cases d) auto
  ultimately have "k < length xs" "m \<le> 100 * Suc k" "100 * k < m"
    unfolding k_def m [symmetric] d [symmetric] by simp_all
  then have k: "k < length xs" "p * length xs \<le> 100 * Suc k" "100 * k < p * length xs" using m by simp_all
  have c: "length (filter P (sort xs)) = length (filter P xs)" for P :: "int \<Rightarrow> bool"
    by (simp add: filter_sort)
  show ?thesis
    using filter_sorted_counts [of "sort xs" k] k nth_mem [of k "sort xs"]
    unfolding k_def [symmetric] is_percentile_def c by auto
qed

lemma report_percentiles:
  assumes "xs \<noteq> []" "length xs \<le> 2 ^ 40"
  shows "is_percentile 50 xs (lat_percentile (sort xs) (Fin 50))"
    "is_percentile 95 xs (lat_percentile (sort xs) (Fin 95))"
    "is_percentile 99 xs (lat_percentile (sort xs) (Fin 99))"
proof -
  have "length (sort xs) \<noteq> 0" using assms(1) by simp
  then have s: "sort xs \<noteq> []" "length (sort xs) \<le> 2 ^ 40" using assms(2) by (metis list.size(3), simp)
  have q: "(95 / 100 - 1 / 2 ^ 53 :: rat) \<le> 8556839292003942 / 2 ^ 53" "(8556839292003942 / 2 ^ 53 :: rat) \<le> 95 / 100"
    "(99 / 100 - 1 / 2 ^ 53 :: rat) \<le> 8917127262193582 / 2 ^ 53" "(8917127262193582 / 2 ^ 53 :: rat) \<le> 99 / 100"
    by simp_all
  show "is_percentile 50 xs (lat_percentile (sort xs) (Fin 50))"
    using nearest_rank [of 50 "1 / 2", OF _ _ _ _ _ s] report_quotients(1) is_percentile_rank [OF assms(1), of 50] by simp
  have "lat_percentile (sort xs) (Fin (of_int 95)) = sort xs ! ((nat 95 * length (sort xs) + 99) div 100 - 1)"
    by (rule nearest_rank [where q = "8556839292003942 / 2 ^ 53", OF _ _ _ _ _ s]) (use report_quotients(2) q in simp_all)
  then show "is_percentile 95 xs (lat_percentile (sort xs) (Fin 95))"
    using is_percentile_rank [OF assms(1), of 95] by simp
  have "lat_percentile (sort xs) (Fin (of_int 99)) = sort xs ! ((nat 99 * length (sort xs) + 99) div 100 - 1)"
    by (rule nearest_rank [where q = "8917127262193582 / 2 ^ 53", OF _ _ _ _ _ s]) (use report_quotients(3) q in simp_all)
  then show "is_percentile 99 xs (lat_percentile (sort xs) (Fin 99))"
    using is_percentile_rank [OF assms(1), of 99] by simp
qed

lemma summarize_totals:
  "foldl (\<lambda>n w. n + wl_requests w) r ws = r + sum_list (map wl_requests ws)"
  "foldl (\<lambda>n w. n + wl_errors w) e ws = e + sum_list (map wl_errors ws)"
  "foldl (\<lambda>l w. l @ wl_latencies w) l ws = l @ concat (map wl_latencies ws)"
  by (induction ws arbitrary: r e l) auto

section \<open>What a level reports\<close>

text \<open>
  The reference for a worker: the attempts it makes are those before the first that finds the
  clock past the end, the context done or the request unbuildable; the ones it counts are those
  started in the measured window.
\<close>

definition goes_on :: "Target \<Rightarrow> time \<Rightarrow> attempt \<Rightarrow> bool" where
  "goes_on t measureEnd a \<longleftrightarrow> at_now a < measureEnd \<and> \<not> at_done a \<and> at_request_ok a
    \<and> fst (nextEndpoint (tg_Endpoints t) (at_counter a)) \<noteq> None"

definition measured :: "Target \<Rightarrow> time \<Rightarrow> time \<Rightarrow> worker_env \<Rightarrow> attempt list" where
  "measured t measureStart measureEnd w = (if we_cancelled w then []
    else filter (\<lambda>a. measureStart \<le> at_start a) (takeWhile (goes_on t measureEnd) (we_attempts w)))"

definition tally :: "attempt list \<Rightarrow> workerLatencies \<Rightarrow> workerLatencies" where
  "tally as out =
    \<lparr>wl_latencies = wl_latencies out @ map (\<lambda>a. time_Sub (at_end a) (at_start a)) (filter (\<lambda>a. \<not> attempt_failed a) as),
     wl_requests = wl_requests out + int (length (filter (\<lambda>a. \<not> attempt_failed a) as)),
     wl_errors = wl_errors out + int (length (filter attempt_failed as))\<rparr>"

lemma tally_Nil: "tally [] out = out"
  by (simp add: tally_def)

lemma tally_Cons: "tally (a # as) out = tally as (tally [a] out)"
  by (simp add: tally_def)

lemma tally_attempt: "count_attempt ms a out = (if ms \<le> at_start a then tally [a] out else out)"
  by (cases "at_response a") (auto simp: tally_def count_attempt_def attempt_failed_def Let_def)

lemma runWorker_tally:
  "fst (runWorker t ms me as out sent) = tally (filter (\<lambda>a. ms \<le> at_start a) (takeWhile (goes_on t me) as)) out"
proof (induction as arbitrary: out sent)
  case Nil
  then show ?case by (simp add: tally_Nil)
next
  case (Cons a as)
  show ?case
  proof (cases "goes_on t me a")
    case True
    then obtain e where "fst (nextEndpoint (tg_Endpoints t) (at_counter a)) = Some e" by (auto simp: goes_on_def)
    then have "runWorker t ms me (a # as) out sent =
        runWorker t ms me as (count_attempt ms a out) (sent @ [load_request_to t e])"
      using True by (simp add: goes_on_def)
    then show ?thesis using True by (simp add: Cons.IH tally_attempt tally_Cons [of a "filter _ _"])
  next
    case False
    then show ?thesis by (auto simp: goes_on_def tally_Nil split: option.split)
  qed
qed

lemma run_worker_tally: "run_worker t ms me w = tally (measured t ms me w) no_latencies"
  by (simp add: run_worker_def runWorker_tally measured_def) (simp add: tally_def no_latencies_def)

text \<open>
  C37: a level reports exactly the attempts its workers started in the measured window: each is
  one request or one error, and the three percentiles are those of the latencies of the successful
  attempts (of which there is one, and up to 2 to the 40), although the rank is computed in
  floating point.
\<close>

theorem level_reports_the_measured_window:
  assumes "0 \<le> concurrency" "1 \<le> lc_Hold cfg" "in_int64 (lc_Hold cfg)"
    "ms = start + lc_RampUp cfg"
    "all = concat (map (\<lambda>i. measured t ms (ms + lc_Hold cfg) (env i (startDelay (lc_RampUp cfg) concurrency i))) [0..concurrency - 1])"
    "ok = filter (\<lambda>a. \<not> attempt_failed a) all" "lats = map (\<lambda>a. time_Sub (at_end a) (at_start a)) ok"
    "ok \<noteq> []" "length ok \<le> 2 ^ 40"
  shows "\<exists>r. runLevel t cfg start env concurrency = Inr r
    \<and> lv_Requests r = int (length ok) \<and> lv_Requests r + lv_Errors r = int (length all)
    \<and> is_percentile 50 lats (lv_P50 r) \<and> is_percentile 95 lats (lv_P95 r) \<and> is_percentile 99 lats (lv_P99 r)"
proof -
  define ws where "ws = map (\<lambda>i. run_worker t ms (ms + lc_Hold cfg) (env i (startDelay (lc_RampUp cfg) concurrency i))) [0..concurrency - 1]"
  have run: "runLevel t cfg start env concurrency = Inr (summarizeLevel concurrency (lc_Hold cfg) ws)"
    using assms(1,4) by (simp add: runLevel_def ws_def Let_def)
  define as where "as = map (\<lambda>i. measured t ms (ms + lc_Hold cfg) (env i (startDelay (lc_RampUp cfg) concurrency i))) [0..concurrency - 1]"
  have ws: "ws = map (\<lambda>m. tally m no_latencies) as" by (simp add: ws_def as_def run_worker_tally)
  have all: "all = concat as" by (simp add: assms(5) as_def)
  have tot: "concat (map wl_latencies ws) = lats" "sum_list (map wl_requests ws) = int (length ok)"
    "sum_list (map wl_errors ws) = int (length (filter attempt_failed all))"
    unfolding ws assms(6,7) all by (induction as) (auto simp: tally_def no_latencies_def)
  have len: "length ok + length (filter attempt_failed all) = length all"
    using sum_length_filter_compl [of attempt_failed all] assms(6) by simp
  have lats: "lats \<noteq> []" "length lats \<le> 2 ^ 40" using assms(7-9) by simp_all
  show ?thesis
    unfolding run using len report_percentiles [OF lats]
    by (simp add: summarizeLevel_def Let_def summarize_totals tot)
qed

definition demo_target :: Target where
  "demo_target = \<lparr>tg_BaseURL = ''http://localhost'', tg_Endpoints = [''/''], tg_Header = []\<rparr>"

definition demo_load :: load_config where
  "demo_load = \<lparr>lc_Levels = [2], lc_RampUp = 10, lc_Hold = 100, lc_RequestTimeout = 0\<rparr>"

definition demo_attempt :: "time \<Rightarrow> time \<Rightarrow> response \<Rightarrow> attempt" where
  "demo_attempt t u r = \<lparr>at_now = t, at_done = False, at_counter = 0, at_request_ok = True, at_start = t, at_end = u, at_response = r\<rparr>"

definition demo_worker :: "go_int \<Rightarrow> duration \<Rightarrow> worker_env" where
  "demo_worker i delay = \<lparr>we_cancelled = False,
     we_attempts = (if i = 0 then [demo_attempt 0 5 (Responded 200), demo_attempt 20 50 (Responded 204), demo_attempt 60 120 (Responded 200),
         demo_attempt 125 130 (Responded 200)]
       else [demo_attempt 20 40 DoFailed, demo_attempt 50 55 (Responded 503)])\<rparr>"

theorem level_reports_the_measured_window_witness:
  "\<exists>r. runLevel demo_target demo_load 0 demo_worker 2 = Inr r \<and> lv_Requests r = 2 \<and> lv_Requests r + lv_Errors r = 4
    \<and> is_percentile 95 [30, 60] (lv_P95 r)"
proof -
  let ?all = "[demo_attempt 20 50 (Responded 204), demo_attempt 60 120 (Responded 200), demo_attempt 20 40 DoFailed,
    demo_attempt 50 55 (Responded 503)]"
  let ?ok = "[demo_attempt 20 50 (Responded 204), demo_attempt 60 120 (Responded 200)]"
  have all: "?all = concat (map (\<lambda>i. measured demo_target 10 (10 + lc_Hold demo_load)
      (demo_worker i (startDelay (lc_RampUp demo_load) 2 i))) [0..2 - 1])"
    by (simp add: measured_def demo_worker_def demo_load_def goes_on_def demo_attempt_def demo_target_def nextEndpoint_def upto.simps)
  have ok: "?ok = filter (\<lambda>a. \<not> attempt_failed a) ?all" by (simp add: attempt_failed_def demo_attempt_def)
  have lats: "[30, 60] = map (\<lambda>a. time_Sub (at_end a) (at_start a)) ?ok" by (simp add: demo_attempt_def time_Sub_def sat64_def)
  have "length ?ok \<le> 2" by simp
  also have "(2 :: nat) \<le> 2 ^ 40" by simp
  finally have len: "length ?ok \<le> 2 ^ 40" .
  have cfg: "(0 :: int) \<le> 2" "1 \<le> lc_Hold demo_load" "in_int64 (lc_Hold demo_load)" "10 = 0 + lc_RampUp demo_load" "?ok \<noteq> []"
    by (simp_all add: demo_load_def in_int64_def)
  have "int (length ?ok) = 2" "int (length ?all) = 4" by simp_all
  then show ?thesis
    using level_reports_the_measured_window [where env = demo_worker and t = demo_target, OF cfg(1-4) all ok lats cfg(5) len] by metis
qed

section \<open>When a sweep shows an inversion\<close>

lemma inversion_peak_first:
  assumes "\<forall>r\<in>set results. lv_ThroughputRPS r \<noteq> NaN" "\<exists>r\<in>set results. flt (Fin 0) (lv_ThroughputRPS r)"
  shows "\<exists>us r vs. results = us @ r # vs \<and> inversion_peak results =
      \<lparr>iv_Inverted = False, iv_PeakConcurrency = lv_Concurrency r, iv_PeakThroughputRPS = lv_ThroughputRPS r, iv_Detail = None\<rparr>
    \<and> flt (Fin 0) (lv_ThroughputRPS r)
    \<and> (\<forall>u\<in>set us. flt (lv_ThroughputRPS u) (lv_ThroughputRPS r)) \<and> (\<forall>v\<in>set vs. fle (lv_ThroughputRPS v) (lv_ThroughputRPS r))"
  using assms
proof (induction results rule: rev_induct)
  case (snoc x xs)
  have step: "inversion_peak (xs @ [x]) = (if flt (iv_PeakThroughputRPS (inversion_peak xs)) (lv_ThroughputRPS x)
      then (inversion_peak xs)\<lparr>iv_PeakThroughputRPS := lv_ThroughputRPS x, iv_PeakConcurrency := lv_Concurrency x\<rparr>
      else inversion_peak xs)"
    by (simp add: inversion_peak_def)
  show ?case
  proof (cases "\<exists>r\<in>set xs. flt (Fin 0) (lv_ThroughputRPS r)")
    case True
    then obtain us r vs where ih: "xs = us @ r # vs" "inversion_peak xs =
        \<lparr>iv_Inverted = False, iv_PeakConcurrency = lv_Concurrency r, iv_PeakThroughputRPS = lv_ThroughputRPS r, iv_Detail = None\<rparr>"
      "flt (Fin 0) (lv_ThroughputRPS r)" "\<forall>u\<in>set us. flt (lv_ThroughputRPS u) (lv_ThroughputRPS r)"
      "\<forall>v\<in>set vs. fle (lv_ThroughputRPS v) (lv_ThroughputRPS r)"
      using snoc by auto
    show ?thesis
    proof (cases "flt (lv_ThroughputRPS r) (lv_ThroughputRPS x)")
      case True
      then have "\<forall>u\<in>set xs. flt (lv_ThroughputRPS u) (lv_ThroughputRPS x)" "flt (Fin 0) (lv_ThroughputRPS x)"
        using ih by (auto simp: flt_def fle_def)
      moreover have "inversion_peak (xs @ [x]) = \<lparr>iv_Inverted = False, iv_PeakConcurrency = lv_Concurrency x,
          iv_PeakThroughputRPS = lv_ThroughputRPS x, iv_Detail = None\<rparr>"
        using True by (simp add: step ih(2))
      ultimately show ?thesis by (intro exI [of _ xs] exI [of _ x] exI [of _ "[]"]) simp
    next
      case False
      then have "fle (lv_ThroughputRPS x) (lv_ThroughputRPS r)" using snoc.prems(1) ih(1) by (auto simp: flt_def fle_def)
      moreover have "inversion_peak (xs @ [x]) = \<lparr>iv_Inverted = False, iv_PeakConcurrency = lv_Concurrency r,
          iv_PeakThroughputRPS = lv_ThroughputRPS r, iv_Detail = None\<rparr>"
        using False by (simp add: step ih(2))
      ultimately show ?thesis using ih(1,3-5)
        by (intro exI [of _ us] exI [of _ r] exI [of _ "vs @ [x]"]) simp
    qed
  next
    case False
    then have no: "\<forall>r\<in>set xs. fle (lv_ThroughputRPS r) (Fin 0)" using snoc.prems(1) by (auto simp: flt_def fle_def)
    have "inversion_peak xs = \<lparr>iv_Inverted = False, iv_PeakConcurrency = 0, iv_PeakThroughputRPS = Fin 0, iv_Detail = None\<rparr>"
      using False by (induction xs rule: rev_induct) (auto simp: inversion_peak_def)
    moreover have "flt (Fin 0) (lv_ThroughputRPS x)" using False snoc.prems(2) by auto
    ultimately show ?thesis using no
      by (intro exI [of _ xs] exI [of _ x] exI [of _ "[]"]) (auto simp: step flt_def fle_def)
  qed
qed simp

lemma find_drop_iff:
  "\<not> iv_Inverted peak \<Longrightarrow>
    iv_Inverted (find_drop th peak rs) \<longleftrightarrow>
      (\<exists>r\<in>set rs. iv_PeakConcurrency peak < lv_Concurrency r \<and> fle th (throughput_drop peak r))"
  "iv_PeakConcurrency (find_drop th peak rs) = iv_PeakConcurrency peak"
  "iv_PeakThroughputRPS (find_drop th peak rs) = iv_PeakThroughputRPS peak"
  by (induction rs) auto

text \<open>
  C38: an inversion is reported exactly when a level with more concurrency than the peak level
  falls below the peak throughput by the threshold or more; the peak level is the first of those
  with the largest throughput, whatever the order of the levels.
\<close>

theorem inversion_is_a_drop_after_the_peak:
  assumes "\<forall>r\<in>set results. lv_ThroughputRPS r \<noteq> NaN" "\<exists>r\<in>set results. flt (Fin 0) (lv_ThroughputRPS r)"
  shows "\<exists>us p vs. results = us @ p # vs
    \<and> (\<forall>u\<in>set us. flt (lv_ThroughputRPS u) (lv_ThroughputRPS p)) \<and> (\<forall>v\<in>set vs. fle (lv_ThroughputRPS v) (lv_ThroughputRPS p))
    \<and> iv_PeakConcurrency (DetectInversion results th) = lv_Concurrency p
    \<and> iv_PeakThroughputRPS (DetectInversion results th) = lv_ThroughputRPS p
    \<and> (iv_Inverted (DetectInversion results th) \<longleftrightarrow> (\<exists>r\<in>set results. lv_Concurrency p < lv_Concurrency r
        \<and> fle th (fdiv (fsub (lv_ThroughputRPS p) (lv_ThroughputRPS r)) (lv_ThroughputRPS p))))"
proof -
  obtain us p vs where r: "results = us @ p # vs" "inversion_peak results =
      \<lparr>iv_Inverted = False, iv_PeakConcurrency = lv_Concurrency p, iv_PeakThroughputRPS = lv_ThroughputRPS p, iv_Detail = None\<rparr>"
    "flt (Fin 0) (lv_ThroughputRPS p)" "\<forall>u\<in>set us. flt (lv_ThroughputRPS u) (lv_ThroughputRPS p)"
    "\<forall>v\<in>set vs. fle (lv_ThroughputRPS v) (lv_ThroughputRPS p)"
    using inversion_peak_first [OF assms] by blast
  have "\<not> feq (lv_ThroughputRPS p) (Fin 0)" using r(3) by (auto simp: feq_def flt_def)
  then have "DetectInversion results th = find_drop th (inversion_peak results) results"
    by (simp add: DetectInversion_def Let_def r(2))
  then show ?thesis
    using r by (intro exI [of _ us] exI [of _ p] exI [of _ vs]) (simp add: find_drop_iff throughput_drop_def)
qed

definition demo_level :: "go_int \<Rightarrow> rat \<Rightarrow> LevelResult" where
  "demo_level c t = \<lparr>lv_Concurrency = c, lv_Requests = 1, lv_Errors = 0, lv_Window = 1, lv_ThroughputRPS = Fin t,
     lv_P50 = 1, lv_P95 = 1, lv_P99 = 1\<rparr>"

theorem inversion_is_a_drop_after_the_peak_witness:
  "iv_PeakConcurrency (DetectInversion [demo_level 50 800, demo_level 100 1000, demo_level 200 500] (Fin (1 / 4))) = 100
    \<and> iv_Inverted (DetectInversion [demo_level 50 800, demo_level 100 1000, demo_level 200 500] (Fin (1 / 4)))"
proof -
  let ?rs = "[demo_level 50 800, demo_level 100 1000, demo_level 200 500]" and ?th = "Fin (1 / 4)"
  have d: "fdiv (fsub (Fin 1000) (Fin 500)) (Fin 1000) = Fin (1 / 2)" by code_simp
  have "\<forall>r\<in>set ?rs. lv_ThroughputRPS r \<noteq> NaN" "\<exists>r\<in>set ?rs. flt (Fin 0) (lv_ThroughputRPS r)"
    by (simp_all add: demo_level_def)
  from inversion_is_a_drop_after_the_peak [OF this, of ?th] obtain us p vs where p: "?rs = us @ p # vs"
    "\<forall>u\<in>set us. flt (lv_ThroughputRPS u) (lv_ThroughputRPS p)" "\<forall>v\<in>set vs. fle (lv_ThroughputRPS v) (lv_ThroughputRPS p)"
    "iv_PeakConcurrency (DetectInversion ?rs ?th) = lv_Concurrency p"
    "iv_Inverted (DetectInversion ?rs ?th) \<longleftrightarrow> (\<exists>r\<in>set ?rs. lv_Concurrency p < lv_Concurrency r
        \<and> fle ?th (fdiv (fsub (lv_ThroughputRPS p) (lv_ThroughputRPS r)) (lv_ThroughputRPS p)))"
    by blast
  have "p = demo_level 100 1000"
    using p(1-3) by (auto simp: Cons_eq_append_conv demo_level_def)
  then show ?thesis using p(4,5) d by (simp add: demo_level_def)
qed

section \<open>The list of levels\<close>

lemma TrimSpace_number: "TrimSpace (FormatInt n) = FormatInt n"
proof -
  have white: "list_all (\<lambda>w. \<not> is_digit (hd w) \<and> \<not> is_digit (last w) \<and> hd w \<noteq> CHR ''-'' \<and> w \<noteq> []) white_strings"
    by code_simp
  have keep: "drop_white ws s = s" if "list_all (\<lambda>w. w \<noteq> [] \<and> hd w \<noteq> hd s) ws" for ws s
  proof -
    have "find (\<lambda>w. w \<noteq> [] \<and> take (length w) s = w) ws = None"
      using that by (auto simp: find_None_iff list_all_iff) (metis hd_take length_greater_0_conv)
    then show ?thesis by (subst drop_white.simps) simp
  qed
  have front: "drop_white white_strings (FormatInt n) = FormatInt n"
  proof (rule keep)
    have "is_digit (hd (dec_nat k))" for k using dec_nat_digits [of k] by (cases "dec_nat k") auto
    then have "is_digit (hd (FormatInt n)) \<or> hd (FormatInt n) = CHR ''-''" by (simp add: FormatInt_def)
    then show "list_all (\<lambda>w. w \<noteq> [] \<and> hd w \<noteq> hd (FormatInt n)) white_strings"
      using white by (auto simp: list_all_iff)
  qed
  have "drop_white (map rev white_strings) (rev (FormatInt n)) = rev (FormatInt n)"
  proof (rule keep)
    have "is_digit (last (dec_nat k))" for k
      using dec_nat_digits [of k] by (auto simp: list_all_iff)
    then have "is_digit (hd (rev (FormatInt n)))" by (simp add: FormatInt_def hd_rev)
    then show "list_all (\<lambda>w. w \<noteq> [] \<and> hd w \<noteq> hd (rev (FormatInt n))) (map rev white_strings)"
      using white by (auto simp: list_all_iff hd_rev)
  qed
  then show ?thesis by (simp add: TrimSpace_def front)
qed

lemma FormatInt_ne [simp]: "FormatInt n \<noteq> []"
  by (simp add: FormatInt_def)

lemma FormatInt_no_comma: "CHR '','' \<notin> set (FormatInt n)"
proof -
  have "\<not> is_digit CHR '',''" by code_simp
  then have "CHR '','' \<notin> set (dec_nat k)" for k using dec_nat_digits [of k] by (auto simp: list_all_iff)
  then show ?thesis by (simp add: FormatInt_def)
qed

text \<open>
  the levels of a sweep survive the command line: a comma-separated list of 64-bit numbers is
  read back as it was written, for every list, and without the empty parts.
\<close>

theorem levels_roundtrip:
  assumes "\<forall>n\<in>set ns. in_int64 n"
  shows "parseLevels (join CHR '','' (map FormatInt ns)) = Inr ns"
proof (cases "ns = []")
  case True
  have "parseLevels [] = Inr []" by code_simp
  then show ?thesis using True by simp
next
  case False
  have "strings_Split CHR '','' (join CHR '','' (map FormatInt ns)) = map FormatInt ns"
    using False FormatInt_no_comma by (intro strings_Split_join) auto
  then have "splitNonEmpty (join CHR '','' (map FormatInt ns)) = map FormatInt ns"
    by (simp add: splitNonEmpty_def TrimSpace_number comp_def filter_map)
  moreover have "parse_levels (map FormatInt ns) = Inr ns"
    using assms by (induction ns) (simp_all add: ParseInt_FormatInt)
  ultimately show ?thesis by (simp add: parseLevels_def)
qed

theorem levels_roundtrip_witness: "parseLevels (join CHR '','' (map FormatInt [50, 75, -1])) = Inr [50, 75, -1]"
  by (rule levels_roundtrip) (simp add: in_int64_def)

text \<open>The endpoints are asked for in turn, from the first, by however many workers.\<close>

lemma nextEndpoint_in_turn:
  assumes "es \<noteq> []" "k < 2 ^ 63"
  shows "nextEndpoint es (of_nat k) = (Some (es ! (k mod length es)), of_nat (Suc k))"
proof -
  have "sint (of_nat k :: 64 word) = int k"
    using assms(2) by (simp add: signed_of_nat signed_take_bit_int_eq_self_iff)
  then show ?thesis using assms(1) by (cases "k = 0") (simp_all add: nextEndpoint_def Let_def nat_mod_distrib)
qed

end
