(* ===== verification/Go_Text.thy ===== *)
theory Go_Text imports Go_Strings begin

text \<open>
  What the load generator uses of Go's \<^verbatim>\<open>fmt\<close> and \<^verbatim>\<open>time\<close> packages to print and read: padded
  columns, fixed-point numbers, \<^verbatim>\<open>Duration.Round\<close>, \<^verbatim>\<open>Duration.String\<close> and \<^verbatim>\<open>time.ParseDuration\<close>,
  with the round trip of the last two.
\<close>

section \<open>Columns and fields\<close>

text \<open>
  \<^verbatim>\<open>%-Ns\<close>: padding counts the runes of a UTF-8 string, the bytes that do not continue one.
\<close>

definition rune_count :: "string \<Rightarrow> nat" where
  "rune_count s = length (filter (\<lambda>c. (of_char c :: nat) < 128 \<or> 192 \<le> (of_char c :: nat)) s)"

definition pad_right :: "nat \<Rightarrow> string \<Rightarrow> string" where
  "pad_right w s = s @ replicate (w - rune_count s) CHR '' ''"

text \<open>The words of a line, as a reader of a table takes them apart.\<close>

definition line_fields :: "string \<Rightarrow> string list" where
  "line_fields s = filter (\<lambda>w. w \<noteq> []) (strings_Split CHR '' '' s)"

lemma line_fields_blank: "line_fields (replicate k CHR '' '' @ s) = line_fields s"
  by (induction k) (simp_all add: line_fields_def)

lemma line_fields_Nil: "line_fields [] = []"
  by (simp add: line_fields_def)

lemma line_fields_word:
  assumes "CHR '' '' \<notin> set w" "w \<noteq> []"
  shows "line_fields (w @ CHR '' '' # s) = w # line_fields s"
  using assms by (simp add: line_fields_def strings_Split_append)

lemma line_fields_cell:
  assumes "CHR '' '' \<notin> set w" "w \<noteq> []"
  shows "line_fields (pad_right k w @ CHR '' '' # s) = w # line_fields s" "line_fields (pad_right k w) = [w]"
proof -
  let ?n = "k - rune_count w"
  have "pad_right k w @ CHR '' '' # s = w @ CHR '' '' # replicate ?n CHR '' '' @ s"
    by (simp add: pad_right_def replicate_app_Cons_same)
  then show "line_fields (pad_right k w @ CHR '' '' # s) = w # line_fields s"
    by (simp only: line_fields_word [OF assms] line_fields_blank)
  show "line_fields (pad_right k w) = [w]"
  proof (cases ?n)
    case 0
    then show ?thesis using assms by (simp add: pad_right_def line_fields_def strings_Split_absent)
  next
    case (Suc m)
    then have "pad_right k w = w @ CHR '' '' # replicate m CHR '' '' @ []" by (simp add: pad_right_def)
    then show ?thesis using line_fields_word [OF assms] by (simp only: line_fields_blank line_fields_Nil)
  qed
qed

lemma line_fields_row:
  assumes "length ws = length cells" "\<And>c. c \<in> set cells \<Longrightarrow> CHR '' '' \<notin> set c \<and> c \<noteq> []"
  shows "line_fields (join CHR '' '' (map2 pad_right ws cells)) = cells"
  using assms
proof (induction ws cells rule: list_induct2)
  case (Cons w ws c cells)
  note IH = Cons.IH [OF Cons.prems]
  show ?case
  proof (cases "map2 pad_right ws cells")
    case Nil
    then show ?thesis using Cons line_fields_cell(2) [of c] by (cases cells; cases ws) auto
  next
    case (Cons p ps)
    then show ?thesis using IH line_fields_cell(1) [of c w "join CHR '' '' (p # ps)"] Cons.prems by auto
  qed
qed (simp add: line_fields_Nil)

section \<open>Digits\<close>

definition zero_pad :: "nat \<Rightarrow> string \<Rightarrow> string" where
  "zero_pad w s = replicate (w - length s) CHR ''0'' @ s"

lemma digits_val_append: "digits_val (s @ t) = digits_val s * 10 ^ length t + digits_val t"
proof (induction t rule: rev_induct)
  case (snoc c t)
  then show ?case by (simp add: digits_val_def)
qed (simp add: digits_val_def)

lemma digits_val_zeros [simp]: "digits_val (replicate k CHR ''0'') = 0"
  by (induction k) (simp_all add: digits_val_def digit_val_def)

lemma is_digit_0 [simp]: "is_digit CHR ''0''"
  by (simp add: is_digit_def)

lemma length_dec_nat: "n < 10 ^ k \<Longrightarrow> 0 < k \<Longrightarrow> length (dec_nat n) \<le> k"
proof (induction n arbitrary: k rule: dec_nat.induct)
  case (1 n)
  show ?case
  proof (cases "n < 10")
    case True
    then show ?thesis using 1 by (subst dec_nat.simps) simp
  next
    case False
    then obtain j where j: "k = Suc j" "0 < j" using 1(2,3) by (cases k; cases "k - 1") auto
    then have "n div 10 < 10 ^ j" using 1(2) by (simp add: less_mult_imp_div_less mult.commute)
    then show ?thesis using 1(1) [OF False _ j(2)] False j by (subst dec_nat.simps) simp
  qed
qed

lemma zero_pad_digits:
  assumes "n < 10 ^ k" "0 < k"
  shows "length (zero_pad k (dec_nat n)) = k" "digits_val (zero_pad k (dec_nat n)) = n" "list_all is_digit (zero_pad k (dec_nat n))"
  using length_dec_nat [OF assms] dec_nat_digits [of n]
  by (auto simp: zero_pad_def digits_val_append list_all_iff)

text \<open>\<^verbatim>\<open>%.Nf\<close>: correctly rounded, ties to even. The model has no negative zero.\<close>

fun fmt_fixed :: "nat \<Rightarrow> f64 \<Rightarrow> string" where
  "fmt_fixed p NaN = ''NaN''"
| "fmt_fixed p PInf = ''+Inf''"
| "fmt_fixed p NInf = ''-Inf''"
| "fmt_fixed p (Fin q) =
    (let n = nat (round_even (\<bar>q\<bar> * 10 ^ p)) in
     (if q < 0 then ''-'' else []) @ dec_nat (n div 10 ^ p)
       @ (if p = 0 then [] else CHR ''.'' # zero_pad p (dec_nat (n mod 10 ^ p))))"

lemma takeWhile_until:
  assumes "list_all P ds" "r = [] \<or> \<not> P (hd r)"
  shows "takeWhile P (ds @ r) = ds" "dropWhile P (ds @ r) = r"
  using assms by (auto simp: list_all_iff takeWhile_append dropWhile_append; cases r; simp)+

lemma unscale:
  fixes q n P :: rat
  assumes "\<bar>n - q * P\<bar> \<le> 1 / 2" "0 < P"
  shows "\<bar>n / P - q\<bar> \<le> 1 / (2 * P)"
proof -
  have "n / P - q = (n - q * P) / P" using assms(2) by (simp add: diff_divide_distrib)
  then have "\<bar>n / P - q\<bar> = \<bar>n - q * P\<bar> / P" by (simp only: abs_divide abs_of_pos [OF assms(2)])
  also have "\<dots> \<le> (1 / 2) / P" using assms by (intro divide_right_mono) auto
  finally show ?thesis by simp
qed

lemma fmt_fixed_reads:
  assumes "0 \<le> q" "0 < p"
  shows "\<exists>v. parse_decimal (fmt_fixed p (Fin q)) = Some v \<and> \<bar>v - q\<bar> \<le> 1 / (2 * 10 ^ p)"
proof -
  define n where "n = nat (round_even (q * 10 ^ p))"
  define ds where "ds = zero_pad p (dec_nat (n mod 10 ^ p))"
  have ds: "length ds = p" "digits_val ds = n mod 10 ^ p" "list_all is_digit ds"
    using zero_pad_digits [of "n mod 10 ^ p" p] assms(2) by (simp_all add: ds_def)
  have dot: "\<not> is_digit CHR ''.''" by code_simp
  have s: "fmt_fixed p (Fin q) = dec_nat (n div 10 ^ p) @ CHR ''.'' # ds"
    using assms by (simp add: n_def ds_def Let_def)
  have t: "takeWhile is_digit (fmt_fixed p (Fin q)) = dec_nat (n div 10 ^ p)"
    "dropWhile is_digit (fmt_fixed p (Fin q)) = CHR ''.'' # ds"
    unfolding s using takeWhile_until [OF dec_nat_digits, of "CHR ''.'' # ds"] dot by simp_all
  have "takeWhile is_digit ds = ds" "dropWhile is_digit ds = []" using takeWhile_until [OF ds(3), of "[]"] by simp_all
  then have "parse_decimal (fmt_fixed p (Fin q)) = Some (of_nat (digits_val (dec_nat (n div 10 ^ p) @ ds)) * 10 powi (- int p))"
    unfolding parse_decimal_def t by (simp only: Let_def list.simps simp_thms if_True prod.case parse_exponent_def ds(1) append_is_Nil_conv)
     (simp add: ds(1))
  moreover have "digits_val (dec_nat (n div 10 ^ p) @ ds) = n"
    by (simp only: digits_val_append ds(1,2) digits_val_dec_nat div_mult_mod_eq)
  moreover have "\<bar>of_nat n * 10 powi (- int p) - q\<bar> \<le> 1 / (2 * 10 ^ p)"
  proof -
    have "0 \<le> q * 10 ^ p" using assms(1) by simp
    then have "0 \<le> round_even (q * 10 ^ p)" using round_even_mono [of 0 "q * 10 ^ p"] round_even_of_int [of 0] by simp
    then have "of_nat n = (of_int (round_even (q * 10 ^ p)) :: rat)" by (simp add: n_def)
    then have "\<bar>of_nat n - q * 10 ^ p\<bar> \<le> 1 / 2" using round_even_bounds [of "q * 10 ^ p"] by linarith
    then have "\<bar>of_nat n / 10 ^ p - q\<bar> \<le> 1 / (2 * 10 ^ p)" by (rule unscale) simp
    then show ?thesis by (simp only: power_int_minus power_int_of_nat divide_inverse)
  qed
  ultimately show ?thesis by auto
qed

section \<open>Durations\<close>

text \<open>\<^verbatim>\<open>Duration.Round(m)\<close>: half away from zero, saturating.\<close>

definition Duration_Round :: "duration \<Rightarrow> duration \<Rightarrow> duration" where
  "Duration_Round d m = (if m \<le> 0 then d else sat64 (sgn d * ((2 * \<bar>d\<bar> + m) div (2 * m) * m)))"

lemma Duration_Round_bounds:
  assumes "in_int64 d"
  shows "in_int64 (Duration_Round d m)"
    "0 < m \<Longrightarrow> \<bar>d\<bar> + m < 2 ^ 63 \<Longrightarrow> m dvd Duration_Round d m \<and> 2 * \<bar>Duration_Round d m - d\<bar> \<le> m"
proof -
  show "in_int64 (Duration_Round d m)" using assms by (simp add: Duration_Round_def)
  assume m: "0 < m" "\<bar>d\<bar> + m < 2 ^ 63"
  define k where "k = (2 * \<bar>d\<bar> + m) div (2 * m)"
  have k: "2 * \<bar>d\<bar> + m = 2 * m * k + (2 * \<bar>d\<bar> + m) mod (2 * m)" by (simp add: k_def)
  have r: "0 \<le> (2 * \<bar>d\<bar> + m) mod (2 * m)" "(2 * \<bar>d\<bar> + m) mod (2 * m) < 2 * m" using m(1) by simp_all
  have b: "2 * (k * m) \<le> 2 * \<bar>d\<bar> + m" "2 * \<bar>d\<bar> < 2 * (k * m) + m"
    using k r by (simp_all add: algebra_simps)
  have "0 \<le> k * m" using m(1) by (simp add: k_def pos_imp_zdiv_nonneg_iff)
  then have "in_int64 (sgn d * (k * m))" using b(1) m by (auto simp: in_int64_def sgn_if)
  then have e: "Duration_Round d m = sgn d * (k * m)" using m(1) by (simp add: Duration_Round_def k_def sat64_id)
  have "2 * (sgn d * (k * m) - d) \<le> m" "2 * (d - sgn d * (k * m)) \<le> m"
    using b m(1) \<open>0 \<le> k * m\<close> by (cases "0 :: int" d rule: linorder_cases; simp)+
  then have "2 * \<bar>sgn d * (k * m) - d\<bar> \<le> m" by (simp only: abs_if minus_diff_eq split: if_split) simp
  then show "m dvd Duration_Round d m \<and> 2 * \<bar>Duration_Round d m - d\<bar> \<le> m" by (simp add: e)
qed

text \<open>
  \<^verbatim>\<open>Duration.String()\<close>. Below a second the unit is the largest of ns, \<mu>s and ms that fits (the \<mu> is
  the micro sign, two bytes), otherwise hours, minutes and seconds; a fraction loses its
  trailing zeros.
\<close>

definition micro_unit :: string where
  "micro_unit = [char_of (0xC2 :: nat), char_of (0xB5 :: nat), CHR ''s'']"

definition strip_zeros :: "string \<Rightarrow> string" where
  "strip_zeros ds = rev (dropWhile (\<lambda>c. c = CHR ''0'') (rev ds))"

definition fmt_frac :: "nat \<Rightarrow> nat \<Rightarrow> string" where
  "fmt_frac prec v =
    (let ds = strip_zeros (zero_pad prec (dec_nat (v mod 10 ^ prec))) in
     if prec = 0 \<or> ds = [] then [] else CHR ''.'' # ds)"

definition duration_part :: "nat \<Rightarrow> nat \<Rightarrow> string \<Rightarrow> string" where
  "duration_part prec v unit = dec_nat (v div 10 ^ prec) @ fmt_frac prec v @ unit"

definition duration_abs :: "nat \<Rightarrow> string" where
  "duration_abs u =
    (if u < 1000000000 then
       (if u = 0 then ''0s''
        else if u < 1000 then duration_part 0 u ''ns''
        else if u < 1000000 then duration_part 3 u micro_unit
        else duration_part 6 u ''ms'')
     else
       let secs = u div 1000000000; mins = secs div 60; hours = mins div 60 in
       (if hours = 0 then [] else duration_part 0 hours ''h'')
         @ (if mins = 0 then [] else duration_part 0 (mins mod 60) ''m'')
         @ duration_part 9 (u mod 60000000000) ''s'')"

definition Duration_String :: "duration \<Rightarrow> string" where
  "Duration_String d = (if d < 0 then ''-'' else []) @ duration_abs (nat \<bar>d\<bar>)"

text \<open>
  \<^verbatim>\<open>time.ParseDuration\<close>. \<open>parse_fraction\<close> is the fraction as an integer and its number of
  digits; it stops taking digits when the next could overflow.
\<close>

definition unitMap :: "string \<Rightarrow> nat option" where
  "unitMap u =
    (if u = ''ns'' then Some 1
     else if u = ''us'' \<or> u = micro_unit \<or> u = [char_of (0xCE :: nat), char_of (0xBC :: nat), CHR ''s''] then Some 1000
     else if u = ''ms'' then Some 1000000
     else if u = ''s'' then Some 1000000000
     else if u = ''m'' then Some 60000000000
     else if u = ''h'' then Some 3600000000000
     else None)"

definition parse_fraction :: "string \<Rightarrow> nat \<times> nat" where
  "parse_fraction ds = (case foldl (\<lambda>(f, k, overflow) c.
      if overflow \<or> (2 ^ 63 - 1) div 10 < f then (f, k, True)
      else let y = 10 * f + digit_val c in if 2 ^ 63 < y then (f, k, True) else (y, Suc k, False)) (0, 0, False) ds
     of (f, k, _) \<Rightarrow> (f, k))"

definition unit_value :: "nat \<Rightarrow> nat \<Rightarrow> nat \<Rightarrow> nat \<Rightarrow> nat" where
  "unit_value v f k unit = v * unit +
    (if f = 0 then 0 else nat (int_of_f64 (fmul (f64_of_int (int f)) (fdiv (f64_of_int (int unit)) (f64_of_int (10 ^ k))))))"

text \<open>One number with its unit: its digits, the digits after a dot, the unit and the rest.\<close>

definition number_tokens :: "string \<Rightarrow> string \<times> string \<times> string \<times> string" where
  "number_tokens s =
    (let r = dropWhile is_digit s;
         (fs, r) = (case r of [] \<Rightarrow> ([], []) | c # cs \<Rightarrow>
            if c = CHR ''.'' then (takeWhile is_digit cs, dropWhile is_digit cs) else ([], r));
         in_unit = (\<lambda>c. c \<noteq> CHR ''.'' \<and> \<not> is_digit c)
     in (takeWhile is_digit s, fs, takeWhile in_unit r, dropWhile in_unit r))"

definition parse_part :: "string \<Rightarrow> (nat \<times> string) option" where
  "parse_part s = (case number_tokens s of (ds, fs, u, rest) \<Rightarrow>
     if (ds = [] \<and> fs = []) \<or> 2 ^ 63 < digits_val ds then None
     else case unitMap u of
       None \<Rightarrow> None
     | Some unit \<Rightarrow>
         if 2 ^ 63 div unit < digits_val ds then None
         else let (f, k) = parse_fraction fs; v = unit_value (digits_val ds) f k unit in
           if 2 ^ 63 < v then None else Some (v, rest))"

lemma unitMap_Nil [simp]: "unitMap [] = None"
  by (simp add: unitMap_def micro_unit_def)

lemma number_tokens_length:
  assumes "number_tokens s = (ds, fs, u, rest)"
  shows "length u + length rest \<le> length s"
proof -
  have w: "length (takeWhile P r) + length (dropWhile P r) = length r" for P and r :: string
    by (metis length_append takeWhile_dropWhile_id)
  have "length (dropWhile is_digit r) \<le> length r" for r by (rule length_dropWhile_le)
  then show ?thesis
    using assms unfolding number_tokens_def Let_def
    by (auto split: list.splits if_splits simp: w)
      (metis le_SucI le_trans length_Cons length_dropWhile_le)+
qed

lemma parse_part_shorter: "parse_part s = Some (v, rest) \<Longrightarrow> length rest < length s"
proof -
  assume a: "parse_part s = Some (v, rest)"
  obtain ds fs u rest' where t: "number_tokens s = (ds, fs, u, rest')" by (metis prod_cases4)
  have "rest = rest' \<and> u \<noteq> []"
    using a unfolding parse_part_def t by (auto simp: Let_def split: if_splits option.splits prod.splits)
  then show ?thesis using number_tokens_length [OF t] by (cases u) auto
qed

function parse_parts :: "string \<Rightarrow> nat \<Rightarrow> nat option" where
  "parse_parts s d =
    (if s = [] then Some d
     else case parse_part s of
       None \<Rightarrow> None
     | Some (v, rest) \<Rightarrow> if 2 ^ 63 < d + v then None else parse_parts rest (d + v))"
  by pat_completeness auto
termination by (relation "measure (\<lambda>(s, d). length s)") (auto dest: parse_part_shorter)

declare parse_parts.simps [simp del]

definition ParseDuration :: "string \<Rightarrow> duration option" where
  "ParseDuration s =
    (let (neg, s) = split_sign s in
     if s = ''0'' then Some 0
     else if s = [] then None
     else case parse_parts s 0 of
       None \<Rightarrow> None
     | Some d \<Rightarrow> if neg then Some (- int d) else if 2 ^ 63 - 1 < d then None else Some (int d))"

section \<open>The round trip\<close>

lemma strip_zeros_append: "\<exists>j. ds = strip_zeros ds @ replicate j CHR ''0''"
proof -
  let ?z = "\<lambda>c. c = CHR ''0''"
  have "takeWhile ?z (rev ds) = replicate (length (takeWhile ?z (rev ds))) CHR ''0''"
    by (rule replicate_length_same [symmetric]) (auto dest: set_takeWhileD)
  moreover have "ds = rev (dropWhile ?z (rev ds)) @ rev (takeWhile ?z (rev ds))"
    by (metis rev_append rev_rev_ident takeWhile_dropWhile_id)
  ultimately show ?thesis by (metis rev_replicate strip_zeros_def)
qed

lemma digit_val_less: "is_digit c \<Longrightarrow> digit_val c < 10"
  unfolding is_digit_def digit_val_def by linarith

lemma digits_val_less: "list_all is_digit ds \<Longrightarrow> digits_val ds < 10 ^ length ds"
proof (induction ds rule: rev_induct)
  case (snoc c ds)
  then have "digits_val ds < 10 ^ length ds" "digit_val c < 10" by (simp_all add: digit_val_less)
  then show ?case by (simp add: digits_val_def)
qed (simp add: digits_val_def)

lemma fraction_digits:
  assumes "m < 10 ^ prec" "0 < prec"
  obtains fs where "strip_zeros (zero_pad prec (dec_nat m)) = fs" "list_all is_digit fs" "length fs \<le> prec"
    "digits_val fs * 10 ^ (prec - length fs) = m"
proof -
  let ?ds = "zero_pad prec (dec_nat m)"
  obtain j where j: "?ds = strip_zeros ?ds @ replicate j CHR ''0''" using strip_zeros_append by blast
  have l: "length (strip_zeros ?ds) + j = prec"
    using arg_cong [OF j, of length] zero_pad_digits(1) [OF assms] by simp
  then have e: "j = prec - length (strip_zeros ?ds)" by simp
  have "digits_val (strip_zeros ?ds) * 10 ^ j = m"
    using arg_cong [OF j, of digits_val] zero_pad_digits(2) [OF assms] by (simp add: digits_val_append)
  moreover have "list_all is_digit (strip_zeros ?ds)"
    using zero_pad_digits(3) [OF assms] by (subst (asm) j) simp
  moreover have "length (strip_zeros ?ds) \<le> prec" using l by simp
  ultimately show thesis using that [OF refl] by (simp only: e)
qed

lemma parse_fraction_digits:
  assumes "list_all is_digit fs" "length fs \<le> 9"
  shows "parse_fraction fs = (digits_val fs, length fs)"
proof -
  let ?step = "\<lambda>(f, k, overflow) c.
      if overflow \<or> (2 ^ 63 - 1) div 10 < f then (f, k, True)
      else let y = 10 * f + digit_val c in if 2 ^ 63 < y then (f, k, True) else (y, Suc k, False)"
  have "foldl ?step (0, 0, False) fs = (digits_val fs, length fs, False)"
    using assms
  proof (induction fs rule: rev_induct)
    case (snoc c fs)
    then have s: "foldl ?step (0, 0, False) fs = (digits_val fs, length fs, False)" by simp
    have "digits_val fs < 10 ^ length fs" "digit_val c < 10"
      using snoc.prems(1) by (simp_all add: digits_val_less digit_val_less)
    moreover have "(10 :: nat) ^ length fs \<le> 10 ^ 8" using snoc.prems(2) by (intro power_increasing) auto
    ultimately have "digits_val fs < 100000000" "digit_val c < 10" by simp_all
    then show ?case unfolding foldl_append s by (simp add: Let_def digits_val_def)
  qed (simp add: digits_val_def)
  then show ?thesis by (simp add: parse_fraction_def)
qed

lemma unit_value_fraction:
  assumes "f * 10 ^ (prec - k) = m" "k \<le> prec" "prec \<le> 9" "m < 10 ^ prec"
  shows "unit_value v f k (10 ^ prec) = v * 10 ^ prec + m"
proof (cases "f = 0")
  case False
  have small: "(10 :: int) ^ j \<le> 2 ^ 53" if "j \<le> 9" for j
    using power_increasing [OF that, of "10 :: int"] by simp
  have ten: "f64_of_int (10 ^ j) = Fin (10 ^ j)" if "j \<le> 9" for j
    using f64_of_int_exact [of "10 ^ j"] small [OF that] by simp
  have "(10 :: rat) ^ prec / 10 ^ k = 10 ^ (prec - k)" using assms(2) by (simp add: power_diff)
  then have d: "fdiv (f64_of_int (10 ^ prec)) (f64_of_int (10 ^ k)) = Fin (10 ^ (prec - k))"
    using ten [of prec] ten [of k] ten [of "prec - k"] assms(2,3) by (simp add: f64_of_int_def)
  have "m < 10 ^ 9" using assms(3,4) power_increasing [of prec 9 "10 :: nat"] by simp
  then have m: "int m \<le> 2 ^ 53" by simp
  have "f \<le> m" using assms(1) by (metis le_add1 mult.commute mult_le_mono2 nat_mult_1_right one_le_numeral one_le_power)
  then have f: "f64_of_int (int f) = Fin (of_nat f)" using f64_of_int_exact [of "int f"] m by simp
  have "fmul (Fin (of_nat f)) (Fin (10 ^ (prec - k))) = Fin (of_nat m)"
    using rnd_of_int [of "int m"] m assms(1) by simp (metis of_nat_mult of_nat_numeral of_nat_power)
  moreover have "int_of_f64 (Fin (of_nat m)) = int m" using m in_int64_floor_small [of "int m"] by (simp add: in_int64_def)
  ultimately show ?thesis using False by (simp add: unit_value_def d f)
qed (use assms(1) in \<open>simp add: unit_value_def\<close>)

definition unit_chars :: "string \<Rightarrow> bool" where
  "unit_chars u \<longleftrightarrow> u \<noteq> [] \<and> list_all (\<lambda>c. c \<noteq> CHR ''.'' \<and> \<not> is_digit c) u"

lemma number_tokens_part:
  assumes "list_all is_digit fs" "unit_chars u" "rest = [] \<or> is_digit (hd rest)"
  shows "number_tokens (dec_nat n @ (if fs = [] then [] else CHR ''.'' # fs) @ u @ rest) = (dec_nat n, fs, u, rest)"
proof -
  let ?p = "\<lambda>c. c \<noteq> CHR ''.'' \<and> \<not> is_digit c"
  obtain c cs where u: "u = c # cs" "c \<noteq> CHR ''.''" "\<not> is_digit c" using assms(2) by (cases u) (auto simp: unit_chars_def)
  have dot: "\<not> is_digit CHR ''.''" by code_simp
  have "list_all ?p u" "rest = [] \<or> \<not> ?p (hd rest)" using assms(2,3) by (auto simp: unit_chars_def)
  then have t: "takeWhile ?p (u @ rest) = u" "dropWhile ?p (u @ rest) = rest" by (rule takeWhile_until)+
  have f: "takeWhile is_digit (fs @ u @ rest) = fs" "dropWhile is_digit (fs @ u @ rest) = u @ rest"
    using takeWhile_until [OF assms(1), of "u @ rest"] u by simp_all
  show ?thesis
  proof (cases "fs = []")
    case True
    have "takeWhile is_digit (dec_nat n @ u @ rest) = dec_nat n" "dropWhile is_digit (dec_nat n @ u @ rest) = u @ rest"
      using takeWhile_until [OF dec_nat_digits, of "u @ rest"] u by simp_all
    then show ?thesis using True t u by (simp add: number_tokens_def)
  next
    case False
    let ?r = "CHR ''.'' # fs @ u @ rest"
    have "takeWhile is_digit (dec_nat n @ ?r) = dec_nat n" "dropWhile is_digit (dec_nat n @ ?r) = ?r"
      using takeWhile_until [OF dec_nat_digits, of ?r] dot by simp_all
    then show ?thesis using False t f by (simp add: number_tokens_def)
  qed
qed

text \<open>The units of \<open>duration_abs\<close>: a fraction is only printed where the unit is a power of ten.\<close>

lemma parse_part_read:
  assumes "unitMap u = Some U" "unit_chars u" "prec = 0 \<or> U = 10 ^ prec" "prec \<le> 9" "0 < U"
    "v div 10 ^ prec * U + v mod 10 ^ prec \<le> 2 ^ 63" "rest = [] \<or> is_digit (hd rest)"
  shows "parse_part (duration_part prec v u @ rest) = Some (v div 10 ^ prec * U + v mod 10 ^ prec, rest)"
proof -
  let ?n = "v div 10 ^ prec" and ?m = "v mod 10 ^ prec"
  have n: "?n * U \<le> 2 ^ 63" using assms(6) by linarith
  then have b: "\<not> 2 ^ 63 div U < ?n" using assms(5) by (simp add: not_less less_eq_div_iff_mult_less_eq)
  have "?n * 1 \<le> ?n * U" using assms(5) by (intro mult_le_mono2) simp
  then have b2: "\<not> 2 ^ 63 < ?n" using n by linarith
  show ?thesis
  proof (cases "prec = 0")
    case True
    have "number_tokens (duration_part prec v u @ rest) = (dec_nat ?n, [], u, rest)"
      using number_tokens_part [of "[]" u rest ?n] assms(2,7) True by (simp add: duration_part_def fmt_frac_def Let_def)
    then show ?thesis using b b2 n assms(1) True by (simp add: parse_part_def parse_fraction_def unit_value_def)
  next
    case False
    have m: "?m < 10 ^ prec" by simp
    obtain fs where fs: "strip_zeros (zero_pad prec (dec_nat ?m)) = fs" "list_all is_digit fs" "length fs \<le> prec"
      "digits_val fs * 10 ^ (prec - length fs) = ?m"
      using fraction_digits [OF m] False by blast
    have t: "number_tokens (duration_part prec v u @ rest) = (dec_nat ?n, fs, u, rest)"
      using number_tokens_part [OF fs(2) assms(2,7), of ?n] False by (simp add: duration_part_def fmt_frac_def Let_def fs(1))
    have f: "parse_fraction fs = (digits_val fs, length fs)" using parse_fraction_digits [OF fs(2)] fs(3) assms(4) by simp
    have U: "U = 10 ^ prec" using assms(3) False by simp
    have "unit_value ?n (digits_val fs) (length fs) U = ?n * U + ?m"
      unfolding U by (rule unit_value_fraction [OF fs(4,3) assms(4) m])
    then show ?thesis
      unfolding parse_part_def t prod.case assms(1) option.case f Let_def digits_val_dec_nat
      using b b2 assms(6) by simp
  qed
qed

lemma duration_part_hd: "duration_part prec v u @ r \<noteq> [] \<and> is_digit (hd (duration_part prec v u @ r))"
  by (rule dec_nat_hd [of "v div 10 ^ prec"]) (simp add: duration_part_def)

lemma parse_parts_step:
  assumes "unitMap u = Some U" "unit_chars u" "prec = 0 \<or> U = 10 ^ prec" "prec \<le> 9" "0 < U"
    "d + (v div 10 ^ prec * U + v mod 10 ^ prec) \<le> 2 ^ 63" "rest = [] \<or> is_digit (hd rest)"
  shows "parse_parts (duration_part prec v u @ rest) d = parse_parts rest (d + (v div 10 ^ prec * U + v mod 10 ^ prec))"
proof -
  have "v div 10 ^ prec * U + v mod 10 ^ prec \<le> 2 ^ 63" using assms(6) by linarith
  note r = parse_part_read [OF assms(1-5) this assms(7)]
  show ?thesis using assms(6) duration_part_hd [of prec v u rest]
    by (subst parse_parts.simps) (simp only: r option.case prod.case not_less [symmetric] if_False)
qed

lemma unit_facts:
  "unit_chars ''ns''" "unit_chars micro_unit" "unit_chars ''ms''" "unit_chars ''s''" "unit_chars ''m''" "unit_chars ''h''"
  by code_simp+

lemma unitMap_facts:
  "unitMap ''ns'' = Some 1" "unitMap micro_unit = Some 1000" "unitMap ''ms'' = Some 1000000"
  "unitMap ''s'' = Some 1000000000" "unitMap ''m'' = Some 60000000000" "unitMap ''h'' = Some 3600000000000"
  by (simp_all add: unitMap_def micro_unit_def)

lemma parse_parts_Nil: "parse_parts [] d = Some d"
  by (subst parse_parts.simps) simp

lemma parse_parts_last:
  assumes "unitMap u = Some U" "unit_chars u" "prec = 0 \<or> U = 10 ^ prec" "prec \<le> 9" "0 < U"
    "d + (v div 10 ^ prec * U + v mod 10 ^ prec) \<le> 2 ^ 63"
  shows "parse_parts (duration_part prec v u) d = Some (d + (v div 10 ^ prec * U + v mod 10 ^ prec))"
  using parse_parts_step [OF assms, of "[]"] by (simp add: parse_parts_Nil)

lemma duration_abs_long:
  assumes "1000000000 \<le> u" "u \<le> 2 ^ 63"
  shows "parse_parts (duration_abs u) 0 = Some u"
proof -
  define mins where "mins = u div 1000000000 div 60"
  define hours where "hours = mins div 60"
  define rest where "rest = u mod 60000000000"
  have "u div 60000000000 = mins" by (simp add: mins_def div_mult2_eq [symmetric])
  then have u: "u = mins * 60000000000 + rest" unfolding rest_def by (metis div_mult_mod_eq)
  have m: "mins = hours * 60 + mins mod 60" by (simp add: hours_def)
  have sum: "hours * 3600000000000 + mins mod 60 * 60000000000 + rest = u" using u m by linarith
  let ?s = "duration_part 9 rest ''s''"
  let ?m = "(if mins = 0 then [] else duration_part 0 (mins mod 60) ''m'') @ ?s"
  let ?h = "(if hours = 0 then [] else duration_part 0 hours ''h'') @ ?m"
  have secs: "parse_parts ?s d = Some (d + rest)" if "d + rest \<le> 2 ^ 63" for d
    using parse_parts_last [OF unitMap_facts(4) unit_facts(4), of 9 d rest] that by simp
  have mid: "parse_parts ?m d = Some (d + mins mod 60 * 60000000000 + rest)"
    if "d + mins mod 60 * 60000000000 + rest \<le> 2 ^ 63" for d
  proof (cases "mins = 0")
    case False
    then show ?thesis
      using parse_parts_step [OF unitMap_facts(5) unit_facts(5), of 0 d "mins mod 60" ?s] duration_part_hd [of 9 rest "''s''" "[]"]
        secs [of "d + mins mod 60 * 60000000000"] that by simp
  qed (use secs that in simp)
  have hd_m: "is_digit (hd ?m)"
    using duration_part_hd [of 0 "mins mod 60" "''m''" ?s] duration_part_hd [of 9 rest "''s''" "[]"] by simp
  have "parse_parts ?h 0 = Some u"
  proof (cases "hours = 0")
    case False
    then show ?thesis
      using parse_parts_step [OF unitMap_facts(6) unit_facts(6), of 0 0 hours ?m] hd_m mid [of "hours * 3600000000000"] sum assms(2)
      by simp
  qed (use mid [of 0] sum assms(2) in simp)
  moreover have "duration_abs u = ?h"
    using assms(1) unfolding duration_abs_def Let_def mins_def hours_def rest_def by simp
  ultimately show ?thesis by simp
qed

lemma duration_abs_short:
  assumes "u < 1000000000"
  shows "parse_parts (duration_abs u) 0 = Some u"
proof -
  consider "u = 0" | "0 < u" "u < 1000" | "1000 \<le> u" "u < 1000000" | "1000000 \<le> u" by linarith
  then show ?thesis
  proof cases
    case 1
    have "dec_nat 0 = ''0''" by code_simp
    then show ?thesis
      using parse_parts_last [OF unitMap_facts(4) unit_facts(4), of 0 0 0] 1
      by (simp add: duration_abs_def duration_part_def fmt_frac_def)
  next
    case 2
    then show ?thesis using parse_parts_last [OF unitMap_facts(1) unit_facts(1), of 0 0 u] by (simp add: duration_abs_def)
  next
    case 3
    then show ?thesis using parse_parts_last [OF unitMap_facts(2) unit_facts(2), of 3 0 u] by (simp add: duration_abs_def)
  next
    case 4
    then show ?thesis using assms parse_parts_last [OF unitMap_facts(3) unit_facts(3), of 6 0 u] by (simp add: duration_abs_def)
  qed
qed

lemma duration_abs_hd: "duration_abs u \<noteq> [] \<and> is_digit (hd (duration_abs u))"
  using duration_part_hd [of _ _ _ "[]"] duration_part_hd by (simp add: duration_abs_def Let_def)

lemma ParseDuration_String:
  assumes "in_int64 d"
  shows "ParseDuration (Duration_String d) = Some d"
proof -
  let ?u = "nat \<bar>d\<bar>"
  have "\<bar>d\<bar> \<le> 2 ^ 63" using assms unfolding in_int64_def by linarith
  then have "?u \<le> 2 ^ 63" by simp
  then have p: "parse_parts (duration_abs ?u) 0 = Some ?u"
    using duration_abs_long [of ?u] duration_abs_short [of ?u] by linarith
  have z: "parse_parts ''0'' 0 = None"
    by (subst parse_parts.simps) (simp add: parse_part_def number_tokens_def digits_val_def digit_val_def)
  have ne: "duration_abs ?u \<noteq> ''0''" "duration_abs ?u \<noteq> []" using p z duration_abs_hd by force+
  have "split_sign (Duration_String d) = (d < 0, duration_abs ?u)"
    using duration_abs_hd [of ?u]
    by (cases "duration_abs ?u") (auto simp: Duration_String_def split_sign_def is_digit_def)
  then show ?thesis using p ne assms by (auto simp: ParseDuration_def in_int64_def)
qed

end
