(* ===== verification/LoadTest_Report.thy ===== *)
theory LoadTest_Report imports LoadTest Go_Text begin

text \<open>
  The report of the load generator (\<^verbatim>\<open>loadtest/report.go\<close>) as text: the table with one row per level
  and the sentence about an inversion.
\<close>

section \<open>The table\<close>

definition newline :: char where "newline = CHR 0x0A"

definition report_widths :: "nat list" where
  "report_widths = [12, 10, 8, 16, 10, 10, 10]"

definition report_header :: "string list" where
  "report_header = [''concurrency'', ''requests'', ''errors'', ''throughput(req/s)'', ''p50'', ''p95'', ''p99'']"

definition report_cells :: "LevelResult \<Rightarrow> string list" where
  "report_cells r =
    [FormatInt (lv_Concurrency r), FormatInt (lv_Requests r), FormatInt (lv_Errors r), fmt_fixed 1 (lv_ThroughputRPS r),
     Duration_String (Duration_Round (lv_P50 r) millisecond), Duration_String (Duration_Round (lv_P95 r) millisecond),
     Duration_String (Duration_Round (lv_P99 r) millisecond)]"

definition report_line :: "string list \<Rightarrow> string" where
  "report_line cells = join CHR '' '' (map2 pad_right report_widths cells)"

definition FormatReport :: "LevelResult list \<Rightarrow> string" where
  "FormatReport results = concat (map (\<lambda>cells. report_line cells @ [newline]) (report_header # map report_cells results))"

section \<open>The inversion in words\<close>

definition inversion_text :: "go_int \<times> f64 \<times> f64 \<times> f64 \<times> go_int \<Rightarrow> string" where
  "inversion_text d = (case d of (concurrency, throughput, pct, peak, peakConcurrency) \<Rightarrow>
     ''throughput at concurrency '' @ FormatInt concurrency @ '' ('' @ fmt_fixed 1 throughput @ '' req/s) is ''
       @ fmt_fixed 0 pct @ ''% below the peak of '' @ fmt_fixed 1 peak @ '' req/s at concurrency '' @ FormatInt peakConcurrency)"

section \<open>Words\<close>

text \<open>A cell of the table has no blank and no newline in it and is not empty.\<close>

definition is_word :: "string \<Rightarrow> bool" where
  "is_word w \<longleftrightarrow> w \<noteq> [] \<and> list_all (\<lambda>c. c \<noteq> CHR '' '' \<and> c \<noteq> newline) w"

lemma is_word_append: "is_word a \<Longrightarrow> is_word b \<or> b = [] \<Longrightarrow> is_word (a @ b)"
  by (auto simp: is_word_def)

lemma is_word_digits: "list_all is_digit ds \<Longrightarrow> ds \<noteq> [] \<Longrightarrow> is_word ds"
  by (auto simp: is_word_def newline_def list_all_iff is_digit_def)

lemma is_word_literals:
  "is_word ''-''" "is_word ''.''" "is_word ''ns''" "is_word micro_unit" "is_word ''ms''" "is_word ''s''" "is_word ''m''" "is_word ''h''"
  "is_word ''NaN''" "is_word ''+Inf''" "is_word ''-Inf''" "is_word ''0s''"
  by code_simp+

lemma is_word_dec_nat: "is_word (dec_nat n)"
  by (rule is_word_digits [OF dec_nat_digits]) simp

lemma is_word_FormatInt: "is_word (FormatInt n)"
  using is_word_append [OF is_word_literals(1), of "dec_nat (nat (- n))"] is_word_dec_nat by (simp add: FormatInt_def)

lemma is_word_point: "list_all is_digit ds \<Longrightarrow> is_word (CHR ''.'' # ds)"
  using is_word_append [OF is_word_literals(2), of ds] is_word_digits [of ds] by auto

lemma is_word_fixed: "is_word (fmt_fixed p v)"
proof (cases v)
  case (Fin q)
  define n where "n = nat (round_even (\<bar>q\<bar> * 10 ^ p))"
  let ?f = "if p = 0 then [] else CHR ''.'' # zero_pad p (dec_nat (n mod 10 ^ p))"
  have "is_word ?f \<or> ?f = []" using is_word_point [OF zero_pad_digits(3) [of "n mod 10 ^ p" p]] by simp
  then have "is_word (dec_nat (n div 10 ^ p) @ ?f)" by (rule is_word_append [OF is_word_dec_nat])
  moreover have "fmt_fixed p v = (if q < 0 then ''-'' else []) @ dec_nat (n div 10 ^ p) @ ?f"
    unfolding Fin by (simp only: fmt_fixed.simps Let_def n_def)
  ultimately show ?thesis using is_word_append [OF is_word_literals(1), of "dec_nat (n div 10 ^ p) @ ?f"]
    by (cases "q < 0") (simp_all only: if_True if_False append_Nil simp_thms)
qed (simp_all add: is_word_literals)

lemma is_word_frac: "is_word (fmt_frac prec v) \<or> fmt_frac prec v = []"
proof (cases "prec = 0")
  case False
  have "v mod 10 ^ prec < 10 ^ prec" by simp
  then obtain fs where "strip_zeros (zero_pad prec (dec_nat (v mod 10 ^ prec))) = fs" "list_all is_digit fs"
    using fraction_digits False by blast
  then show ?thesis using is_word_point [of fs] by (simp add: fmt_frac_def Let_def)
qed (simp add: fmt_frac_def)

lemma is_word_part: "is_word u \<Longrightarrow> is_word (duration_part prec v u)"
  using is_word_frac [of prec v] is_word_append [of "dec_nat (v div 10 ^ prec)" "fmt_frac prec v @ u"]
    is_word_append [of "fmt_frac prec v" u] is_word_dec_nat by (auto simp: duration_part_def)

lemma is_word_duration: "is_word (Duration_String d)"
proof -
  have "is_word (duration_abs u)" for u
    unfolding duration_abs_def Let_def
    by (simp add: is_word_literals is_word_part is_word_append)
  then show ?thesis using is_word_append [OF is_word_literals(1)] by (simp add: Duration_String_def)
qed

lemma report_cells_words: "c \<in> set (report_cells r) \<Longrightarrow> is_word c"
  by (auto simp: report_cells_def is_word_FormatInt is_word_fixed is_word_duration)

lemma report_header_words: "c \<in> set report_header \<Longrightarrow> is_word c"
  by (auto simp: report_header_def is_word_def newline_def)

lemma report_line_fields:
  assumes "length cells = 7" "\<And>c. c \<in> set cells \<Longrightarrow> is_word c"
  shows "line_fields (report_line cells) = cells" "newline \<notin> set (report_line cells)"
proof -
  have "CHR '' '' \<notin> set c \<and> c \<noteq> []" if "c \<in> set cells" for c
    using assms(2) [OF that] by (auto simp: is_word_def list_all_iff)
  then show "line_fields (report_line cells) = cells"
    unfolding report_line_def using line_fields_row [of report_widths cells] assms(1) by (simp add: report_widths_def)
  have pad: "newline \<notin> set (pad_right w c)" if "is_word c" for w c
    using that by (auto simp: pad_right_def is_word_def list_all_iff newline_def)
  have "newline \<notin> set (join CHR '' '' ps)" if "\<And>p. p \<in> set ps \<Longrightarrow> newline \<notin> set p" for ps
    using that by (induction "CHR '' ''" ps rule: join.induct) (auto simp: newline_def)
  moreover have "newline \<notin> set p" if "p \<in> set (map2 pad_right report_widths cells)" for p
    using that pad assms(2) by (auto dest!: set_zip_rightD)
  ultimately show "newline \<notin> set (report_line cells)" unfolding report_line_def by blast
qed

lemma report_lines:
  assumes "\<And>l. l \<in> set ls \<Longrightarrow> newline \<notin> set l"
  shows "strings_Split newline (concat (map (\<lambda>l. l @ [newline]) ls)) = ls @ [[]]"
  using assms by (induction ls) (simp_all add: strings_Split_append)

section \<open>Reading the report\<close>

text \<open>
  What a row says of a level: three numbers exactly, the throughput to within half of its last
  digit, the three percentiles to within half a millisecond.
\<close>

definition reads_latency :: "string \<Rightarrow> duration \<Rightarrow> bool" where
  "reads_latency w d \<longleftrightarrow>
    (case ParseDuration w of None \<Rightarrow> False | Some v \<Rightarrow> millisecond dvd v \<and> 2 * \<bar>v - d\<bar> \<le> millisecond)"

definition row_reads :: "string list \<Rightarrow> LevelResult \<Rightarrow> bool" where
  "row_reads cells r \<longleftrightarrow> (case cells of
     [c, n, e, t, p50, p95, p99] \<Rightarrow>
       ParseInt c = Some (lv_Concurrency r) \<and> ParseInt n = Some (lv_Requests r) \<and> ParseInt e = Some (lv_Errors r)
       \<and> (case (parse_decimal t, lv_ThroughputRPS r) of (Some v, Fin q) \<Rightarrow> \<bar>v - q\<bar> \<le> 1 / 20 | _ \<Rightarrow> False)
       \<and> reads_latency p50 (lv_P50 r) \<and> reads_latency p95 (lv_P95 r) \<and> reads_latency p99 (lv_P99 r)
   | _ \<Rightarrow> False)"

text \<open>A level as a sweep can measure it; the latencies are below 146 years.\<close>

definition reportable :: "LevelResult \<Rightarrow> bool" where
  "reportable r \<longleftrightarrow> in_int64 (lv_Concurrency r) \<and> in_int64 (lv_Requests r) \<and> in_int64 (lv_Errors r)
     \<and> (case lv_ThroughputRPS r of Fin q \<Rightarrow> 0 \<le> q | _ \<Rightarrow> False)
     \<and> (\<forall>d \<in> {lv_P50 r, lv_P95 r, lv_P99 r}. 0 \<le> d \<and> d < 2 ^ 62)"

lemma reads_latency_rounded:
  assumes "0 \<le> d" "d < 2 ^ 62"
  shows "reads_latency (Duration_String (Duration_Round d millisecond)) d"
proof -
  have r: "in_int64 d" "\<bar>d\<bar> + millisecond < 2 ^ 63" using assms by (simp_all add: in_int64_def time_defs)
  then show ?thesis
    using Duration_Round_bounds [OF r(1), of millisecond] ParseDuration_String
    by (simp add: reads_latency_def time_defs)
qed

lemma reportable_row: "reportable r \<Longrightarrow> row_reads (report_cells r) r"
proof -
  assume r: "reportable r"
  then obtain q where q: "lv_ThroughputRPS r = Fin q" "0 \<le> q" by (auto simp: reportable_def split: f64.splits)
  obtain v where "parse_decimal (fmt_fixed 1 (Fin q)) = Some v" "\<bar>v - q\<bar> \<le> 1 / 20"
    using fmt_fixed_reads [OF q(2), of 1] by auto
  then show ?thesis
    using r q reads_latency_rounded
    by (simp add: row_reads_def report_cells_def reportable_def ParseInt_FormatInt del: fmt_fixed.simps)
qed

text \<open>
  C40: the report says what was measured: its lines are a header and one line per level, in the
  order of the sweep, and taking a line apart at the blanks gives back the concurrency, the
  requests and the errors of that level, the throughput to within a twentieth, and the
  percentiles, as durations the standard parser reads, to within half a millisecond.
\<close>

theorem report_reads_back:
  assumes "list_all reportable results"
  shows "\<exists>rows. strings_Split newline (FormatReport results) = report_line report_header # rows @ [[]]
    \<and> list_all2 (\<lambda>row r. row_reads (line_fields row) r) rows results"
proof -
  let ?cs = "report_header # map report_cells results"
  have w: "length cells = 7 \<and> (\<forall>c \<in> set cells. is_word c)" if "cells \<in> set ?cs" for cells
    using that report_cells_words report_header_words by (auto simp: report_header_def report_cells_def)
  have nl: "newline \<notin> set l" if "l \<in> set (map report_line ?cs)" for l
  proof -
    from that obtain cells where "l = report_line cells" "cells \<in> set ?cs" unfolding set_map by blast
    then show ?thesis using w report_line_fields(2) by blast
  qed
  have "FormatReport results = concat (map (\<lambda>l. l @ [newline]) (map report_line ?cs))"
    by (simp only: FormatReport_def map_map comp_def)
  then have lines: "strings_Split newline (FormatReport results) = map report_line ?cs @ [[]]"
    using report_lines [of "map report_line ?cs"] nl by metis
  have "line_fields (report_line (report_cells r)) = report_cells r" for r
    by (rule report_line_fields(1)) (use report_cells_words in \<open>auto simp: report_cells_def\<close>)
  then have "list_all2 (\<lambda>row r. row_reads (line_fields row) r) (map (report_line \<circ> report_cells) results) results"
    using assms reportable_row by (auto simp: list_all2_map1 list_all2_same list_all_iff)
  then show ?thesis using lines by auto
qed

theorem report_reads_back_witness:
  "\<exists>rows. strings_Split newline (FormatReport [demo_level 50 800, demo_level 100 (2001 / 2)]) = report_line report_header # rows @ [[]]
    \<and> length rows = 2"
proof -
  have "list_all reportable [demo_level 50 800, demo_level 100 (2001 / 2)]"
    by (simp add: reportable_def demo_level_def in_int64_def)
  from report_reads_back [OF this] show ?thesis by (auto dest!: list_all2_lengthD)
qed

end
