(* ===== verification/LoadTest_Main.thy ===== *)
theory LoadTest_Main imports LoadTest_Report begin

text \<open>
  The command \<^verbatim>\<open>loadtest\<close> (\<^verbatim>\<open>cmd/loadtest/main.go\<close>): its flags as the \<^verbatim>\<open>flag\<close> package reads them
  from the arguments, the sweep, what it prints, the JSON file and the exit status. The world of
  the command is a parameter: what the workers of each level meet, whether the file can be
  created and written, how \<^verbatim>\<open>encoding/json\<close> prints a finite number, and the rest of \<open>ParseFloat\<close>.
  The text of error messages is left out; an error is the case it reports.
\<close>

section \<open>Flags\<close>

record flags =
  fl_url :: string
  fl_endpoints :: string
  fl_levels :: string
  fl_rampup :: duration
  fl_hold :: duration
  fl_timeout :: duration
  fl_authorization :: string
  fl_inversion_drop_pct :: f64
  fl_json :: string

definition default_flags :: flags where
  "default_flags = \<lparr>fl_url = [], fl_endpoints = ''/'', fl_levels = ''50,75,100,150,200,250'', fl_rampup = 2 * second,
     fl_hold = 5 * second, fl_timeout = 10 * second, fl_authorization = [], fl_inversion_drop_pct = Fin 15, fl_json = []\<rparr>"

definition flag_names :: "string list" where
  "flag_names = [''url'', ''endpoints'', ''levels'', ''rampup'', ''hold'', ''timeout'', ''authorization'',
     ''inversion-drop-pct'', ''json'']"

text \<open>\<^verbatim>\<open>Value.Set\<close> of a defined flag; \<open>None\<close> is an invalid value.\<close>

definition set_flag :: "(string \<Rightarrow> f64 option) \<Rightarrow> string \<Rightarrow> string \<Rightarrow> flags \<Rightarrow> flags option" where
  "set_flag ext name v fl =
    (if name = ''url'' then Some (fl\<lparr>fl_url := v\<rparr>)
     else if name = ''endpoints'' then Some (fl\<lparr>fl_endpoints := v\<rparr>)
     else if name = ''levels'' then Some (fl\<lparr>fl_levels := v\<rparr>)
     else if name = ''rampup'' then map_option (\<lambda>d. fl\<lparr>fl_rampup := d\<rparr>) (ParseDuration v)
     else if name = ''hold'' then map_option (\<lambda>d. fl\<lparr>fl_hold := d\<rparr>) (ParseDuration v)
     else if name = ''timeout'' then map_option (\<lambda>d. fl\<lparr>fl_timeout := d\<rparr>) (ParseDuration v)
     else if name = ''authorization'' then Some (fl\<lparr>fl_authorization := v\<rparr>)
     else if name = ''inversion-drop-pct'' then map_option (\<lambda>x. fl\<lparr>fl_inversion_drop_pct := x\<rparr>) (ParseFloat ext v)
     else if name = ''json'' then Some (fl\<lparr>fl_json := v\<rparr>)
     else None)"

datatype flag_stop = FlagHelp | FlagSyntax string | FlagUndefined string | FlagNeedsArgument string | FlagInvalid string string

text \<open>
  \<^verbatim>\<open>FlagSet.Parse\<close>: one flag at a time, \<open>-name=value\<close>, \<open>-name value\<close>, or either with two minuses;
  the first argument that is no flag, or \<open>--\<close>, ends it.
\<close>

fun parse_flags :: "(string \<Rightarrow> f64 option) \<Rightarrow> string list \<Rightarrow> flags \<Rightarrow> flag_stop + flags" where
  "parse_flags ext [] fl = Inr fl"
| "parse_flags ext (s # args) fl =
    (if length s < 2 \<or> hd s \<noteq> CHR ''-'' \<or> s = ''--'' then Inr fl
     else let name = drop (if s ! 1 = CHR ''-'' then 2 else 1) s in
       if name = [] \<or> hd name = CHR ''-'' \<or> hd name = CHR ''='' then Inl (FlagSyntax s)
       else case strings_Cut CHR ''='' name of (name, v, hasValue) \<Rightarrow>
         if name \<notin> set flag_names then Inl (if name = ''help'' \<or> name = ''h'' then FlagHelp else FlagUndefined name)
         else if hasValue then (case set_flag ext name v fl of
             None \<Rightarrow> Inl (FlagInvalid name v) | Some fl \<Rightarrow> parse_flags ext args fl)
         else (case args of
             [] \<Rightarrow> Inl (FlagNeedsArgument name)
           | v # args \<Rightarrow> (case set_flag ext name v fl of
               None \<Rightarrow> Inl (FlagInvalid name v) | Some fl \<Rightarrow> parse_flags ext args fl)))"

section \<open>The JSON file\<close>

fun join_with :: "string \<Rightarrow> string list \<Rightarrow> string" where
  "join_with sep [] = []"
| "join_with sep [p] = p"
| "join_with sep (p # ps) = p @ sep @ join_with sep ps"

definition json_member :: "string \<times> string \<Rightarrow> string" where
  "json_member kv = ''    '' @ [CHR 0x22] @ fst kv @ [CHR 0x22] @ '': '' @ snd kv"

definition json_level :: "(f64 \<Rightarrow> string) \<Rightarrow> LevelResult \<Rightarrow> string" where
  "json_level float_text r = ''  {'' @ [newline] @ join_with ('','' @ [newline]) (map json_member
     [(''concurrency'', FormatInt (lv_Concurrency r)), (''requests'', FormatInt (lv_Requests r)),
      (''errors'', FormatInt (lv_Errors r)), (''window'', FormatInt (lv_Window r)),
      (''throughput_rps'', float_text (lv_ThroughputRPS r)), (''p50'', FormatInt (lv_P50 r)),
      (''p95'', FormatInt (lv_P95 r)), (''p99'', FormatInt (lv_P99 r))]) @ [newline] @ ''  }''"

text \<open>\<^verbatim>\<open>Encode\<close> with an indent of two blanks; a number that is not finite is an error.\<close>

definition json_results :: "(f64 \<Rightarrow> string) \<Rightarrow> LevelResult list \<Rightarrow> string option" where
  "json_results float_text results =
    (if list_ex (\<lambda>r. lv_ThroughputRPS r \<in> {NaN, PInf, NInf}) results then None
     else Some ((if results = [] then ''[]''
       else ''['' @ [newline] @ join_with ('','' @ [newline]) (map (json_level float_text) results) @ [newline] @ '']'') @ [newline]))"

section \<open>The command\<close>

record cli_world =
  cw_ParseFloat :: "string \<Rightarrow> f64 option"
  cw_levels :: "(time \<times> (go_int \<Rightarrow> duration \<Rightarrow> worker_env)) list"
  cw_float_text :: "f64 \<Rightarrow> string"
  cw_Create :: "string \<Rightarrow> bool"
  cw_Write :: "string \<Rightarrow> string \<Rightarrow> bool"

datatype cli_error = CliFlags flag_stop | CliUrlRequired | CliBadLevel string | CliPanic | CliSweep
  | CliJsonCreate | CliJsonEncode

record cli_run =
  cr_stdout :: string
  cr_error :: "cli_error option"
  cr_json :: "(string \<times> string) option"
  cr_exit :: int

definition cli_stop :: "int \<Rightarrow> cli_error \<Rightarrow> cli_run" where
  "cli_stop code e = \<lparr>cr_stdout = [], cr_error = Some e, cr_json = None, cr_exit = code\<rparr>"

definition cli_target :: "flags \<Rightarrow> Target" where
  "cli_target fl = \<lparr>tg_BaseURL = fl_url fl, tg_Endpoints = splitNonEmpty (fl_endpoints fl),
     tg_Header = (if fl_authorization fl \<noteq> [] then [(''Authorization'', [fl_authorization fl])] else [])\<rparr>"

definition cli_config :: "flags \<Rightarrow> go_int list \<Rightarrow> load_config" where
  "cli_config fl levels = \<lparr>lc_Levels = levels, lc_RampUp = fl_rampup fl, lc_Hold = fl_hold fl, lc_RequestTimeout = fl_timeout fl\<rparr>"

definition inversion_message :: "InversionReport \<Rightarrow> string" where
  "inversion_message found =
    (if iv_Inverted found then [newline] @ ''THROUGHPUT INVERSION DETECTED: ''
       @ (case iv_Detail found of None \<Rightarrow> [] | Some d \<Rightarrow> inversion_text d) @ [newline]
     else if flt (Fin 0) (iv_PeakThroughputRPS found) then [newline] @ ''no throughput inversion detected (peak ''
       @ fmt_fixed 1 (iv_PeakThroughputRPS found) @ '' req/s at concurrency '' @ FormatInt (iv_PeakConcurrency found) @ '')'' @ [newline]
     else [])"

text \<open>What follows the sweep; the file is written before the exit status is decided.\<close>

definition cli_report :: "cli_world \<Rightarrow> flags \<Rightarrow> LevelResult list \<Rightarrow> cli_run" where
  "cli_report W fl results =
    (let found = DetectInversion results (fdiv (fl_inversion_drop_pct fl) (Fin 100));
         out = FormatReport results @ inversion_message found;
         stop = (\<lambda>e. \<lparr>cr_stdout = out, cr_error = Some e, cr_json = None, cr_exit = 1\<rparr>);
         done = (\<lambda>file. \<lparr>cr_stdout = out, cr_error = None, cr_json = file, cr_exit = (if iv_Inverted found then 1 else 0)\<rparr>)
     in if fl_json fl = [] then done None
        else if \<not> cw_Create W (fl_json fl) then stop CliJsonCreate
        else case json_results (cw_float_text W) results of
          None \<Rightarrow> stop CliJsonEncode
        | Some text \<Rightarrow> if \<not> cw_Write W (fl_json fl) text then stop CliJsonEncode else done (Some (fl_json fl, text)))"

definition loadtest_main :: "cli_world \<Rightarrow> string list \<Rightarrow> cli_run" where
  "loadtest_main W args =
    (case parse_flags (cw_ParseFloat W) args default_flags of
       Inl e \<Rightarrow> cli_stop (if e = FlagHelp then 0 else 2) (CliFlags e)
     | Inr fl \<Rightarrow>
         if fl_url fl = [] then cli_stop 2 CliUrlRequired
         else (case parseLevels (fl_levels fl) of
             Inl p \<Rightarrow> cli_stop 2 (CliBadLevel p)
           | Inr levels \<Rightarrow> (case Sweep (cli_target fl) (cli_config fl levels) (cw_levels W) of
                 Inl MakeslicePanic \<Rightarrow> cli_stop 2 CliPanic
               | Inl NoEndpoints \<Rightarrow> cli_stop 1 CliSweep
               | Inr results \<Rightarrow> cli_report W fl results)))"

section \<open>Rendering a command line\<close>

text \<open>The ways to give one flag, and the text of each value.\<close>

definition flag_forms :: "string \<Rightarrow> string \<Rightarrow> string list list" where
  "flag_forms name v =
    [[CHR ''-'' # name, v], [''--'' @ name, v], [CHR ''-'' # name @ CHR ''='' # v], [''--'' @ name @ CHR ''='' # v]]"

definition flag_text :: "flags \<Rightarrow> int \<Rightarrow> string \<Rightarrow> string" where
  "flag_text fl pct name =
    (if name = ''url'' then fl_url fl else if name = ''endpoints'' then fl_endpoints fl
     else if name = ''levels'' then fl_levels fl else if name = ''rampup'' then Duration_String (fl_rampup fl)
     else if name = ''hold'' then Duration_String (fl_hold fl) else if name = ''timeout'' then Duration_String (fl_timeout fl)
     else if name = ''authorization'' then fl_authorization fl
     else if name = ''inversion-drop-pct'' then FormatInt pct else fl_json fl)"

text \<open>
  A command line for \<open>fl\<close>: its flags in some order, each in some form, and what is left out has
  its default. The percentage is a whole number.
\<close>

definition flags_ok :: "flags \<Rightarrow> int \<Rightarrow> bool" where
  "flags_ok fl pct \<longleftrightarrow> in_int64 (fl_rampup fl) \<and> in_int64 (fl_hold fl) \<and> in_int64 (fl_timeout fl)
     \<and> \<bar>pct\<bar> \<le> 2 ^ 53 \<and> fl_inversion_drop_pct fl = Fin (of_int pct)"

definition take_flags :: "string set \<Rightarrow> flags \<Rightarrow> flags \<Rightarrow> flags" where
  "take_flags S fl g =
    \<lparr>fl_url = (if ''url'' \<in> S then fl_url fl else fl_url g),
     fl_endpoints = (if ''endpoints'' \<in> S then fl_endpoints fl else fl_endpoints g),
     fl_levels = (if ''levels'' \<in> S then fl_levels fl else fl_levels g),
     fl_rampup = (if ''rampup'' \<in> S then fl_rampup fl else fl_rampup g),
     fl_hold = (if ''hold'' \<in> S then fl_hold fl else fl_hold g),
     fl_timeout = (if ''timeout'' \<in> S then fl_timeout fl else fl_timeout g),
     fl_authorization = (if ''authorization'' \<in> S then fl_authorization fl else fl_authorization g),
     fl_inversion_drop_pct = (if ''inversion-drop-pct'' \<in> S then fl_inversion_drop_pct fl else fl_inversion_drop_pct g),
     fl_json = (if ''json'' \<in> S then fl_json fl else fl_json g)\<rparr>"

definition command_line :: "flags \<Rightarrow> int \<Rightarrow> string list \<Rightarrow> string list \<Rightarrow> bool" where
  "command_line fl pct names args \<longleftrightarrow> set names \<subseteq> set flag_names \<and> take_flags (set names) fl default_flags = fl
     \<and> (\<exists>argss. args = concat argss \<and> list_all2 (\<lambda>name as. as \<in> set (flag_forms name (flag_text fl pct name))) names argss)"

lemma take_flags_insert: "take_flags (insert n S) fl g = take_flags {n} fl (take_flags S fl g)"
  by (simp add: take_flags_def)

lemma take_flags_none: "take_flags {} fl g = g"
  by (simp add: take_flags_def)

lemma set_flag_text:
  assumes "flags_ok fl pct" "name \<in> set flag_names"
  shows "set_flag ext name (flag_text fl pct name) g = Some (take_flags {name} fl g)"
  using assms ParseDuration_String ParseFloat_FormatInt [of pct ext]
  by (auto simp: set_flag_def flag_text_def flag_names_def take_flags_def flags_ok_def)

lemma flag_name_chars:
  assumes "name \<in> set flag_names"
  shows "CHR ''='' \<notin> set name" "name \<noteq> []" "hd name \<noteq> CHR ''-''" "hd name \<noteq> CHR ''=''"
  using assms by (auto simp: flag_names_def)

lemma parse_flags_one:
  assumes "name \<in> set flag_names" "as \<in> set (flag_forms name v)" "set_flag ext name v g = Some g'"
  shows "parse_flags ext (as @ args) g = parse_flags ext args g'"
proof -
  note c = flag_name_chars [OF assms(1)]
  obtain ch cs where n: "name = ch # cs" using c(2) by (cases name) auto
  then have ch: "ch \<noteq> CHR ''-''" "ch \<noteq> CHR ''=''" using c by simp_all
  have cut: "strings_Cut CHR ''='' name = (name, [], False)" "strings_Cut CHR ''='' (name @ CHR ''='' # v) = (name, v, True)"
    using strings_Cut_absent [OF c(1)] strings_Cut_append [OF c(1)] by simp_all
  have "as = [CHR ''-'' # name, v] \<or> as = [''--'' @ name, v] \<or> as = [CHR ''-'' # name @ CHR ''='' # v]
      \<or> as = [''--'' @ name @ CHR ''='' # v]"
    using assms(2) by (simp add: flag_forms_def)
  then show ?thesis
    using cut ch n assms(1,3) by (auto simp: Let_def simp del: strings_Cut.simps)
qed

lemma parse_flags_rendered:
  assumes "flags_ok fl pct" "set names \<subseteq> set flag_names"
    "list_all2 (\<lambda>name as. as \<in> set (flag_forms name (flag_text fl pct name))) names argss"
  shows "parse_flags ext (concat argss) (take_flags S fl g) = Inr (take_flags (set names \<union> S) fl g)"
  using assms(3,2)
proof (induction names argss arbitrary: S rule: list_all2_induct)
  case (Cons name names as argss)
  then have n: "name \<in> set flag_names" by simp
  have "set_flag ext name (flag_text fl pct name) (take_flags S fl g) = Some (take_flags (insert name S) fl g)"
    using set_flag_text [OF assms(1) n] by (simp only: take_flags_insert [symmetric])
  from parse_flags_one [OF n _ this, of as "concat argss"] show ?case
    using Cons.hyps(1) Cons.IH [of "insert name S"] Cons.prems by (simp del: parse_flags.simps)
qed simp

lemma parse_command_line:
  assumes "flags_ok fl pct" "command_line fl pct names args"
  shows "parse_flags ext args default_flags = Inr fl"
proof -
  obtain argss where a: "args = concat argss" "set names \<subseteq> set flag_names" "take_flags (set names) fl default_flags = fl"
    "list_all2 (\<lambda>name as. as \<in> set (flag_forms name (flag_text fl pct name))) names argss"
    using assms(2) by (auto simp: command_line_def)
  show ?thesis
    using parse_flags_rendered [OF assms(1) a(2,4), of ext "{}" default_flags] a(1,3) by (simp add: take_flags_none)
qed

section \<open>The sweep of a command\<close>

text \<open>Every level is measured in its own world, in the order of the list.\<close>

definition measured_levels :: "Target \<Rightarrow> load_config \<Rightarrow> (time \<times> (go_int \<Rightarrow> duration \<Rightarrow> worker_env)) list
    \<Rightarrow> go_int list \<Rightarrow> LevelResult list \<Rightarrow> bool" where
  "measured_levels t cfg envs levels results \<longleftrightarrow> length results = length levels \<and> map lv_Concurrency results = levels
     \<and> list_all2 (\<lambda>(w, n) r. runLevel t cfg (fst w) (snd w) n = Inr r) (zip envs levels) results"

lemma runLevel_concurrency: "0 \<le> n \<Longrightarrow> \<exists>r. runLevel t cfg st env n = Inr r \<and> lv_Concurrency r = n"
  by (simp add: runLevel_def summarizeLevel_def Let_def)

lemma sweep_levels_measured:
  assumes "length envs = length levels" "list_all (\<lambda>n. 0 \<le> n) levels"
  shows "\<exists>results. sweep_levels t cfg envs levels acc = Inr (acc @ results) \<and> measured_levels t cfg envs levels results"
  using assms
proof (induction envs levels arbitrary: acc rule: list_induct2)
  case (Cons w envs n levels)
  then obtain r where r: "runLevel t cfg (fst w) (snd w) n = Inr r" "lv_Concurrency r = n"
    using runLevel_concurrency [of n t cfg "fst w" "snd w"] by auto
  obtain results where "sweep_levels t cfg envs levels (acc @ [r]) = Inr ((acc @ [r]) @ results)"
    "measured_levels t cfg envs levels results"
    using Cons.IH [of "acc @ [r]"] Cons.prems by auto
  then show ?case using r by (intro exI [of _ "r # results"]) (cases w; simp add: measured_levels_def)
qed (simp add: measured_levels_def)

lemma Sweep_measured:
  assumes "splitNonEmpty (fl_endpoints fl) \<noteq> []" "length envs = length levels" "list_all (\<lambda>n. 0 \<le> n) levels"
  shows "\<exists>results. Sweep (cli_target fl) (cli_config fl levels) envs = Inr results
    \<and> measured_levels (cli_target fl) (cli_config fl levels) envs levels results"
  using sweep_levels_measured [OF assms(2,3), of "cli_target fl" "cli_config fl levels" "[]"] assms(1)
  by (simp add: Sweep_def cli_target_def cli_config_def)

section \<open>Properties\<close>

text \<open>
  the command line says what is run: the flags of any setting, written in any order, each in any
  of its four forms and those with their default value left out, are read back exactly; this
  rests on \<open>ParseDuration\<close> reading every duration as it is printed, fractions included.
\<close>

theorem command_line_roundtrip:
  assumes "flags_ok fl pct" "command_line fl pct names args"
  shows "parse_flags ext args default_flags = Inr fl"
  by (rule parse_command_line [OF assms])

definition demo_flags :: flags where
  "demo_flags = default_flags\<lparr>fl_url := ''http://x'', fl_hold := 1500000000, fl_inversion_drop_pct := Fin 20, fl_levels := ''50,100''\<rparr>"

definition demo_args :: "string list" where
  "demo_args = concat [[''-levels'', ''50,100''], [''--hold='' @ Duration_String 1500000000], [''-url=http://x''],
     [''--inversion-drop-pct'', FormatInt 20]]"

lemma demo_flags_ok: "flags_ok demo_flags 20"
  by (simp add: flags_ok_def demo_flags_def default_flags_def in_int64_def time_defs)

lemma demo_command_line: "command_line demo_flags 20 [''levels'', ''hold'', ''url'', ''inversion-drop-pct''] demo_args"
proof -
  let ?argss = "[[''-levels'', ''50,100''], [''--hold='' @ Duration_String 1500000000], [''-url=http://x''],
     [''--inversion-drop-pct'', FormatInt 20]]"
  have "list_all2 (\<lambda>name as. as \<in> set (flag_forms name (flag_text demo_flags 20 name)))
      [''levels'', ''hold'', ''url'', ''inversion-drop-pct''] ?argss"
    by (simp add: flag_forms_def flag_text_def demo_flags_def)
  moreover have "set [''levels'', ''hold'', ''url'', ''inversion-drop-pct''] \<subseteq> set flag_names" by (simp add: flag_names_def)
  moreover have "take_flags (set [''levels'', ''hold'', ''url'', ''inversion-drop-pct'']) demo_flags default_flags = demo_flags"
    by (simp add: take_flags_def demo_flags_def default_flags_def)
  ultimately show ?thesis unfolding command_line_def demo_args_def by blast
qed

theorem command_line_roundtrip_witness: "parse_flags (\<lambda>_. None) demo_args default_flags = Inr demo_flags"
  by (rule command_line_roundtrip [OF demo_flags_ok demo_command_line])

text \<open>
  C39: what a run of the command means: with a URL, at least one endpoint and a list of levels on its
  command line, it measures exactly those levels in their order and prints their report and
  then the verdict, whatever else fails; the exit status is 0 only if no throughput inversion
  of the given percentage was found, and without an error it is 1 exactly if one was; a JSON
  file that was asked for and reported without error holds the same results.
\<close>

theorem exit_status_reports_the_sweep:
  assumes "flags_ok fl pct" "command_line fl pct names args"
    "fl_url fl \<noteq> []" "splitNonEmpty (fl_endpoints fl) \<noteq> []" "fl_levels fl = join CHR '','' (map FormatInt levels)"
    "\<forall>n \<in> set levels. 0 \<le> n \<and> n < 2 ^ 63" "length (cw_levels W) = length levels"
  shows "\<exists>results. measured_levels (cli_target fl) (cli_config fl levels) (cw_levels W) levels results
    \<and> (let run = loadtest_main W args; found = DetectInversion results (fdiv (Fin (of_int pct)) (Fin 100)) in
       cr_stdout run = FormatReport results @ inversion_message found
       \<and> cr_exit run \<in> {0, 1} \<and> (cr_exit run = 0 \<longleftrightarrow> cr_error run = None \<and> \<not> iv_Inverted found)
       \<and> (cr_error run \<noteq> None \<or> fl_json fl = []
          \<or> (\<exists>text. json_results (cw_float_text W) results = Some text \<and> cr_json run = Some (fl_json fl, text))))"
proof -
  have "list_all (\<lambda>n. 0 \<le> n) levels" using assms(6) by (simp add: list_all_iff)
  then obtain results where r: "Sweep (cli_target fl) (cli_config fl levels) (cw_levels W) = Inr results"
    "measured_levels (cli_target fl) (cli_config fl levels) (cw_levels W) levels results"
    using Sweep_measured [OF assms(4,7)] by blast
  have l: "parseLevels (fl_levels fl) = Inr levels"
    unfolding assms(5) by (rule levels_roundtrip) (use assms(6) in \<open>auto simp: in_int64_def\<close>)
  have "loadtest_main W args = cli_report W fl results"
    by (simp add: loadtest_main_def parse_command_line [OF assms(1,2)] assms(3) l r(1))
  moreover have "fl_inversion_drop_pct fl = Fin (of_int pct)" using assms(1) by (simp add: flags_ok_def)
  ultimately show ?thesis using r(2)
    by (intro exI [of _ results]) (auto simp: cli_report_def Let_def split: option.split)
qed

text \<open>One worker gets three answers in the first level, the two of the second get none.\<close>

definition demo_load_flags :: flags where
  "demo_load_flags = demo_flags\<lparr>fl_levels := join CHR '','' (map FormatInt [1, 2]), fl_rampup := 0, fl_hold := second\<rparr>"

definition demo_world_of :: "attempt list \<Rightarrow> go_int \<Rightarrow> duration \<Rightarrow> worker_env" where
  "demo_world_of as i delay = \<lparr>we_cancelled = False, we_attempts = as\<rparr>"

definition demo_cli :: cli_world where
  "demo_cli = \<lparr>cw_ParseFloat = (\<lambda>_. None),
     cw_levels = [(0, demo_world_of [demo_attempt 10 20 (Responded 200), demo_attempt 30 50 (Responded 200)]), (0, demo_world_of [])],
     cw_float_text = (\<lambda>_. ''0''), cw_Create = (\<lambda>_. True), cw_Write = (\<lambda>_ _. True)\<rparr>"

definition demo_load_args :: "string list" where
  "demo_load_args = concat [[''-levels'', join CHR '','' (map FormatInt [1, 2])], [''-rampup'', Duration_String 0],
     [''-hold'', Duration_String second], [''-url=http://x''], [''-inversion-drop-pct'', FormatInt 20]]"

lemma demo_load_line:
  "flags_ok demo_load_flags 20"
  "command_line demo_load_flags 20 [''levels'', ''rampup'', ''hold'', ''url'', ''inversion-drop-pct''] demo_load_args"
proof -
  show "flags_ok demo_load_flags 20"
    by (simp add: flags_ok_def demo_load_flags_def demo_flags_def default_flags_def in_int64_def time_defs)
  let ?names = "[''levels'', ''rampup'', ''hold'', ''url'', ''inversion-drop-pct'']"
  let ?argss = "[[''-levels'', join CHR '','' (map FormatInt [1, 2])], [''-rampup'', Duration_String 0],
     [''-hold'', Duration_String second], [''-url=http://x''], [''-inversion-drop-pct'', FormatInt 20]]"
  have "list_all2 (\<lambda>name as. as \<in> set (flag_forms name (flag_text demo_load_flags 20 name))) ?names ?argss"
    by (simp add: flag_forms_def flag_text_def demo_load_flags_def demo_flags_def)
  moreover have "set ?names \<subseteq> set flag_names" by (simp add: flag_names_def)
  moreover have "take_flags (set ?names) demo_load_flags default_flags = demo_load_flags"
    by (simp add: take_flags_def demo_load_flags_def demo_flags_def default_flags_def)
  ultimately show "command_line demo_load_flags 20 ?names demo_load_args" unfolding command_line_def demo_load_args_def by blast
qed

lemma demo_load_levels:
  assumes "measured_levels (cli_target demo_load_flags) (cli_config demo_load_flags [1, 2]) (cw_levels demo_cli) [1, 2] results"
  obtains a b where "results = [a, b]" "lv_Concurrency a = 1" "lv_ThroughputRPS a = Fin 2" "lv_Concurrency b = 2" "lv_ThroughputRPS b = Fin 0"
proof -
  have e: "tg_Endpoints (cli_target demo_load_flags) = [''/'']" by code_simp
  have sec: "Seconds 1000000000 = Fin 1" "rnd 2 = Fin 2"
    using rnd_of_int [of 2] by (simp_all add: Seconds_def quot64_def wrap64_def time_defs f64_ops)
  have c: "lc_RampUp (cli_config demo_load_flags [1, 2]) = 0" "lc_Hold (cli_config demo_load_flags [1, 2]) = second"
    by (simp_all add: cli_config_def demo_load_flags_def)
  from assms obtain a b where r: "results = [a, b]" "lv_Concurrency a = 1" "lv_Concurrency b = 2"
    "runLevel (cli_target demo_load_flags) (cli_config demo_load_flags [1, 2]) 0
       (demo_world_of [demo_attempt 10 20 (Responded 200), demo_attempt 30 50 (Responded 200)]) 1 = Inr a"
    "runLevel (cli_target demo_load_flags) (cli_config demo_load_flags [1, 2]) 0 (demo_world_of []) 2 = Inr b"
    by (auto simp: measured_levels_def demo_cli_def list_all2_Cons1)
  have "lv_ThroughputRPS a = Fin 2"
    using r(4) sec by (auto simp: runLevel_def summarizeLevel_def Let_def c e run_worker_def demo_world_of_def demo_attempt_def
      count_attempt_def nextEndpoint_def no_latencies_def time_defs f64_ops attempt_failed_def)
  moreover have "lv_ThroughputRPS b = Fin 0"
    using r(5) sec by (auto simp: runLevel_def summarizeLevel_def Let_def c run_worker_def demo_world_of_def no_latencies_def
      time_defs f64_ops upto.simps)
  ultimately show thesis using that r by blast
qed

lemma demo_load_found:
  assumes "lv_Concurrency a = 1" "lv_ThroughputRPS a = Fin 2" "lv_Concurrency b = 2" "lv_ThroughputRPS b = Fin 0"
  shows "iv_Inverted (DetectInversion [a, b] (fdiv (Fin (of_int 20)) (Fin 100)))"
proof -
  have "rnd (1 / 5) \<le> rnd 1" by (rule rnd_mono) simp
  moreover have "rnd 2 = Fin 2" using rnd_of_int [of 2] by simp
  ultimately show ?thesis
    using assms by (simp add: DetectInversion_def inversion_peak_def throughput_drop_def f64_ops feq_def fle_def)
qed

theorem exit_status_reports_the_sweep_witness:
  "cr_exit (loadtest_main demo_cli demo_load_args) = 1"
proof -
  have h: "fl_url demo_load_flags \<noteq> []" "fl_levels demo_load_flags = join CHR '','' (map FormatInt [1, 2])"
    by (simp_all add: demo_load_flags_def demo_flags_def)
  have e: "splitNonEmpty (fl_endpoints demo_load_flags) \<noteq> []" by code_simp
  have l: "\<forall>n \<in> set [1, 2]. 0 \<le> n \<and> n < (2 :: int) ^ 63" "length (cw_levels demo_cli) = length [1, 2 :: int]"
    by (simp_all add: demo_cli_def)
  obtain results where r: "measured_levels (cli_target demo_load_flags) (cli_config demo_load_flags [1, 2]) (cw_levels demo_cli) [1, 2] results"
    "let run = loadtest_main demo_cli demo_load_args; found = DetectInversion results (fdiv (Fin (of_int 20)) (Fin 100)) in
       cr_exit run \<in> {0, 1} \<and> (cr_exit run = 0 \<longleftrightarrow> cr_error run = None \<and> \<not> iv_Inverted found)"
    using exit_status_reports_the_sweep [OF demo_load_line h(1) e h(2) l] unfolding Let_def by blast
  have "iv_Inverted (DetectInversion results (fdiv (Fin (of_int 20)) (Fin 100)))"
    by (rule demo_load_levels [OF r(1)]) (simp only: demo_load_found)
  then show ?thesis using r(2) by (auto simp: Let_def)
qed

end
