(* ===== verification/Background.thy ===== *)
theory Background imports Go_Base begin

text \<open>
  Background goroutines and how the code stops them: a channel that is closed to announce the
  stop, a \<^verbatim>\<open>sync.Once\<close> around the close, a \<^verbatim>\<open>sync.WaitGroup\<close> that counts the
  goroutines, and workers that repeat one action per tick of a \<^verbatim>\<open>time.Ticker\<close> until they
  see the channel closed. \<^verbatim>\<open>Controller\<close> and \<^verbatim>\<open>scoringState\<close> both use this scheme; what
  their workers do in one critical section is the parameter \<open>body\<close>.

  The runtime panics on closing a nil or closed channel, on a negative counter and on a ticker
  with a period that is not positive: these operations are partial here.
\<close>

section \<open>The pieces\<close>

datatype chan = NilChan | OpenChan | ClosedChan

record 'w bg =
  g_stopCh :: chan
  g_stopOnce :: bool
  g_wg :: int
  g_live :: "'w list"

fun close_chan :: "chan \<Rightarrow> chan option" where
  "close_chan OpenChan = Some ClosedChan"
| "close_chan NilChan = None"
| "close_chan ClosedChan = None"

definition wg_Add :: "int \<Rightarrow> 'w bg \<Rightarrow> 'w bg option" where
  "wg_Add n b = (if g_wg b + n < 0 then None else Some (b\<lparr>g_wg := g_wg b + n\<rparr>))"

definition NewTicker :: "duration \<Rightarrow> duration option" where
  "NewTicker d = (if d \<le> 0 then None else Some d)"

definition go_worker :: "'w \<Rightarrow> 'w bg \<Rightarrow> 'w bg" where
  "go_worker w b = b\<lparr>g_live := g_live b @ [w]\<rparr>"

text \<open>\<^verbatim>\<open>stopOnce.Do(func() { close(stopCh) })\<close>.\<close>

definition close_once :: "'w bg \<Rightarrow> 'w bg option" where
  "close_once b =
    (if g_stopOnce b then Some b
     else map_option (\<lambda>c. b\<lparr>g_stopOnce := True, g_stopCh := c\<rparr>) (close_chan (g_stopCh b)))"

text \<open>
  What a caller of \<open>Stop\<close> does before it waits for the workers: it returns at once when there is
  nothing to stop.
\<close>

datatype 'w stop_call = StopReturns | StopPanics | StopWaits "'w bg"

definition stop_call :: "bool \<Rightarrow> 'w bg \<Rightarrow> 'w stop_call" where
  "stop_call skip b =
    (if skip then StopReturns else case close_once b of None \<Rightarrow> StopPanics | Some b' \<Rightarrow> StopWaits b')"

text \<open>A worker returns when it receives from the closed channel; its deferred call is \<open>wg.Done\<close>.\<close>

definition worker_exit :: "'w \<Rightarrow> 'w bg \<Rightarrow> 'w bg option" where
  "worker_exit w b =
    (if w \<in> set (g_live b) \<and> g_stopCh b = ClosedChan
     then wg_Add (- 1) (b\<lparr>g_live := remove1 w (g_live b)\<rparr>) else None)"

section \<open>Workers, clients and calls of Stop\<close>

text \<open>
  \<open>r_calls\<close> counts the calls of \<open>Stop\<close> that are in \<open>wg.Wait\<close>, \<open>r_returned\<close> the ones that came
  back. A worker may still take a tick after the channel was closed: when both are ready
  \<^verbatim>\<open>select\<close> picks either. \<open>op\<close> is what the clients do to the shared state.
\<close>

record ('w, 'a) bgsys =
  r_bg :: "'w bg"
  r_state :: 'a
  r_calls :: nat
  r_returned :: nat

inductive bg_step :: "('w \<Rightarrow> 'i \<Rightarrow> 'a \<Rightarrow> 'a) \<Rightarrow> ('a \<Rightarrow> 'a \<Rightarrow> bool) \<Rightarrow> ('w, 'a) bgsys \<Rightarrow> ('w, 'a) bgsys \<Rightarrow> bool"
  for body op where
  bs_tick: "w \<in> set (g_live (r_bg s)) \<Longrightarrow> bg_step body op s (s\<lparr>r_state := body w i (r_state s)\<rparr>)"
| bs_exit: "worker_exit w (r_bg s) = Some b \<Longrightarrow> bg_step body op s (s\<lparr>r_bg := b\<rparr>)"
| bs_stop: "stop_call False (r_bg s) = StopWaits b \<Longrightarrow> bg_step body op s (s\<lparr>r_bg := b, r_calls := Suc (r_calls s)\<rparr>)"
| bs_return: "r_calls s = Suc n \<Longrightarrow> g_wg (r_bg s) = 0 \<Longrightarrow>
    bg_step body op s (s\<lparr>r_calls := n, r_returned := Suc (r_returned s)\<rparr>)"
| bs_client: "op (r_state s) st \<Longrightarrow> bg_step body op s (s\<lparr>r_state := st\<rparr>)"

inductive_cases bg_stepE: "bg_step body op s s'"

definition bg_start :: "'w bg \<Rightarrow> 'a \<Rightarrow> ('w, 'a) bgsys" where
  "bg_start b st = \<lparr>r_bg = b, r_state = st, r_calls = 0, r_returned = 0\<rparr>"

section \<open>Invariant\<close>

text \<open>
  The counter counts the live workers, the channel exists and is closed exactly by the one close
  under \<open>stopOnce\<close>, and a call of \<open>Stop\<close> returns only when no worker is left.
\<close>

definition bg_ok :: "'w bg \<Rightarrow> bool" where
  "bg_ok b \<longleftrightarrow> g_wg b = int (length (g_live b)) \<and> g_stopCh b \<noteq> NilChan
     \<and> (g_stopOnce b \<longleftrightarrow> g_stopCh b = ClosedChan)"

definition bg_inv :: "('w, 'a) bgsys \<Rightarrow> bool" where
  "bg_inv s \<longleftrightarrow> bg_ok (r_bg s)
     \<and> (0 < r_calls s + r_returned s \<longrightarrow> g_stopCh (r_bg s) = ClosedChan)
     \<and> (0 < r_returned s \<longrightarrow> g_live (r_bg s) = [])"

lemma close_once_ok: "bg_ok b \<Longrightarrow> \<exists>b'. close_once b = Some b' \<and> bg_ok b' \<and> g_live b' = g_live b \<and> g_stopCh b' = ClosedChan"
  by (cases "g_stopCh b") (auto simp: close_once_def bg_ok_def)

lemma worker_exit_SomeD:
  assumes "worker_exit w b = Some b'" "bg_ok b"
  shows "w \<in> set (g_live b) \<and> g_stopCh b = ClosedChan \<and> bg_ok b' \<and> g_live b' = remove1 w (g_live b) \<and> g_stopCh b' = ClosedChan"
proof -
  have *: "w \<in> set (g_live b)" "g_stopCh b = ClosedChan" "b' = b\<lparr>g_live := remove1 w (g_live b), g_wg := g_wg b - 1\<rparr>"
    using assms(1) by (auto simp: worker_exit_def wg_Add_def split: if_splits)
  moreover have "int (length (remove1 w (g_live b))) = int (length (g_live b)) - 1"
    using length_remove1_Suc [OF *(1)] by linarith
  ultimately show ?thesis using assms(2) by (simp add: bg_ok_def)
qed

text \<open>In a well-formed state a worker that sees the channel closed does leave, without a panic.\<close>

lemma worker_exit_defined:
  assumes "bg_ok b" "w \<in> set (g_live b)" "g_stopCh b = ClosedChan"
  shows "\<exists>b'. worker_exit w b = Some b'"
proof -
  have "0 < length (g_live b)" using assms(2) by (cases "g_live b") auto
  then show ?thesis using assms by (simp add: worker_exit_def wg_Add_def bg_ok_def)
qed

lemma bg_inv_step:
  assumes "bg_step body op s s'" "bg_inv s"
  shows "bg_inv s'"
  using assms(1)
proof cases
  case (bs_exit w b)
  then show ?thesis using assms(2) worker_exit_SomeD [OF bs_exit(2)] by (auto simp: bg_inv_def)
next
  case (bs_stop b)
  then have "close_once (r_bg s) = Some b" by (simp add: stop_call_def split: option.splits)
  then show ?thesis using bs_stop(1) assms(2) close_once_ok [of "r_bg s"] by (auto simp: bg_inv_def)
next
  case (bs_return n)
  then show ?thesis using assms(2) by (simp add: bg_inv_def bg_ok_def)
qed (use assms(2) in \<open>simp_all add: bg_inv_def\<close>)

lemma bg_inv_run: "(bg_step body op)\<^sup>*\<^sup>* s s' \<Longrightarrow> bg_inv s \<Longrightarrow> bg_inv s'"
  by (induction rule: rtranclp_induct) (auto intro: bg_inv_step)

lemma bg_inv_start: "bg_ok b \<Longrightarrow> bg_inv (bg_start b st)"
  by (simp add: bg_inv_def bg_start_def)

text \<open>After one call of \<open>Stop\<close> has returned the background is silent.\<close>

lemma bg_silent:
  assumes "(bg_step body op)\<^sup>*\<^sup>* s s'" "bg_inv s" "0 < r_returned s"
  shows "0 < r_returned s' \<and> g_live (r_bg s') = [] \<and> op\<^sup>*\<^sup>* (r_state s) (r_state s')"
  using assms(1)
proof (induction rule: rtranclp_induct)
  case base
  show ?case using assms(2,3) by (simp add: bg_inv_def)
next
  case (step t u)
  have inv: "bg_inv u" using step.hyps assms(2) by (meson bg_inv_run rtranclp.rtrancl_into_rtrancl)
  have "0 < r_returned u \<and> op\<^sup>*\<^sup>* (r_state s) (r_state u)"
    using step.hyps(2) by cases (use step.IH in \<open>auto intro: rtranclp.rtrancl_into_rtrancl\<close>)
  then show ?case using inv by (auto simp: bg_inv_def)
qed

section \<open>Stop returns\<close>

inductive wind_down :: "('w, 'a) bgsys \<Rightarrow> ('w, 'a) bgsys \<Rightarrow> bool" where
  wd_exit: "worker_exit w (r_bg s) = Some b \<Longrightarrow> wind_down s (s\<lparr>r_bg := b\<rparr>)"
| wd_return: "r_calls s = Suc n \<Longrightarrow> g_wg (r_bg s) = 0 \<Longrightarrow>
    wind_down s (s\<lparr>r_calls := n, r_returned := Suc (r_returned s)\<rparr>)"

lemma wind_down_step: "wind_down s s' \<Longrightarrow> bg_step body op s s'"
  by (induction rule: wind_down.induct) (auto intro: bg_step.intros)

lemma wind_down_steps: "(wind_down ^^ n) s s' \<Longrightarrow> (bg_step body op)\<^sup>*\<^sup>* s s'"
proof (induction n arbitrary: s')
  case (Suc n)
  then obtain t where t: "(wind_down ^^ n) s t" "wind_down t s'" by auto
  show ?case by (rule rtranclp.rtrancl_into_rtrancl [OF Suc.IH [OF t(1)] wind_down_step [OF t(2)]])
qed simp

lemma wind_down_frame:
  assumes "wind_down s s'" "bg_inv s"
  shows "Suc (length (g_live (r_bg s')) + r_calls s') = length (g_live (r_bg s)) + r_calls s
    \<and> bg_inv s' \<and> r_calls s' + r_returned s' = r_calls s + r_returned s \<and> r_state s' = r_state s"
proof -
  have inv: "bg_inv s'" using bg_inv_step [OF wind_down_step [OF assms(1), of "\<lambda>w t a. a" "\<lambda>a b. False"] assms(2)] .
  show ?thesis
    using assms(1)
  proof cases
    case (wd_exit w b)
    then have "w \<in> set (g_live (r_bg s))" "g_live b = remove1 w (g_live (r_bg s))"
      using worker_exit_SomeD [OF wd_exit(2)] assms(2) by (auto simp: bg_inv_def)
    then show ?thesis using wd_exit inv length_remove1_Suc [of w "g_live (r_bg s)"] by simp
  qed (use inv in simp)
qed

lemma wind_down_run:
  assumes "(wind_down ^^ n) s s'" "bg_inv s"
  shows "n + length (g_live (r_bg s')) + r_calls s' = length (g_live (r_bg s)) + r_calls s
    \<and> bg_inv s' \<and> r_calls s' + r_returned s' = r_calls s + r_returned s \<and> r_state s' = r_state s"
  using assms
proof (induction n arbitrary: s')
  case (Suc n)
  then obtain t where t: "(wind_down ^^ n) s t" "wind_down t s'" by auto
  show ?case using Suc.IH [OF t(1) Suc.prems(2)] wind_down_frame [OF t(2)] by auto
qed simp

text \<open>When nothing can wind down any more, every call of \<open>Stop\<close> has returned.\<close>

lemma wind_down_stuck:
  assumes "bg_inv s" "0 < r_calls s + r_returned s" "\<And>s'. \<not> wind_down s s'"
  shows "r_calls s = 0 \<and> g_live (r_bg s) = []"
proof -
  have ok: "bg_ok (r_bg s)" "g_stopCh (r_bg s) = ClosedChan" using assms(1,2) by (auto simp: bg_inv_def)
  have live: "g_live (r_bg s) = []"
  proof (rule ccontr)
    assume "g_live (r_bg s) \<noteq> []"
    then obtain w where "w \<in> set (g_live (r_bg s))" by (cases "g_live (r_bg s)") auto
    then show False using worker_exit_defined [OF ok(1) _ ok(2)] wd_exit [of w s] assms(3) by blast
  qed
  then have "g_wg (r_bg s) = 0" using ok by (simp add: bg_ok_def)
  then show ?thesis using live wd_return [of s] assms(3) by (cases "r_calls s") auto
qed

section \<open>Invariants of the shared state\<close>

text \<open>What the workers' actions and the clients' operations keep holds whatever the interleaving.\<close>

locale background =
  fixes body :: "'w \<Rightarrow> 'i \<Rightarrow> 'a \<Rightarrow> 'a" and op :: "'a \<Rightarrow> 'a \<Rightarrow> bool" and inv :: "'a \<Rightarrow> bool"
  assumes body_inv: "inv st \<Longrightarrow> inv (body w i st)"
    and op_inv: "inv st \<Longrightarrow> op st st' \<Longrightarrow> inv st'"
begin

lemma state_inv: "(bg_step body op)\<^sup>*\<^sup>* s s' \<Longrightarrow> inv (r_state s) \<Longrightarrow> inv (r_state s')"
proof (induction rule: rtranclp_induct)
  case (step t u)
  from step.hyps(2) show ?case by cases (use step in \<open>auto intro: body_inv op_inv\<close>)
qed simp

end

end
