(* ===== verification/Scheduler_Refinement.thy ===== *)
theory Scheduler_Refinement imports Scheduler begin

text \<open>
  What the scheduler promises its clients, as a machine without heap, indices, loop or
  controller, and the proof that the scheduler of \<^verbatim>\<open>adaptiveadmission/queue.go\<close>
  implements it; then what \<^verbatim>\<open>Stop\<close> (which waits for the loop) can and cannot rely on.
\<close>

section \<open>The priority server\<close>

text \<open>
  Clients join with a score and get the next number; a waiting client that no other waiting
  client outranks is served when a place is free; the server ends after it was closed and
  everybody was served. \<open>v_order\<close> records who was served, in that order.
\<close>

record server =
  v_joined :: nat
  v_waiting :: "(64 word \<times> f64) multiset"
  v_order :: "(64 word \<times> f64) list"
  v_busy :: nat
  v_closed :: bool
  v_ended :: bool

definition outranks :: "64 word \<times> f64 \<Rightarrow> 64 word \<times> f64 \<Rightarrow> bool" where
  "outranks k k' \<longleftrightarrow> snd k' < snd k \<or> (snd k = snd k' \<and> fst k < fst k')"

inductive server_step :: "int \<Rightarrow> int \<Rightarrow> server \<Rightarrow> server \<Rightarrow> bool" for places room where
  v_join: "x \<noteq> NaN \<Longrightarrow> 0 < room \<longrightarrow> int (size (v_waiting v)) < room \<Longrightarrow>
    server_step places room v (v\<lparr>v_joined := Suc (v_joined v),
      v_waiting := add_mset (of_nat (Suc (v_joined v)), x) (v_waiting v)\<rparr>)"
| v_serve: "v_waiting v = add_mset k rest \<Longrightarrow> \<forall>k' \<in># rest. \<not> outranks k' k \<Longrightarrow> int (v_busy v) < places \<Longrightarrow> \<not> v_ended v \<Longrightarrow>
    server_step places room v (v\<lparr>v_waiting := rest, v_order := v_order v @ [k], v_busy := Suc (v_busy v)\<rparr>)"
| v_leave: "v_busy v = Suc n \<Longrightarrow> server_step places room v (v\<lparr>v_busy := n\<rparr>)"
| v_close: "server_step places room v (v\<lparr>v_closed := True\<rparr>)"
| v_end: "v_closed v \<Longrightarrow> v_waiting v = {#} \<Longrightarrow> server_step places room v (v\<lparr>v_ended := True\<rparr>)"

definition server_init :: server where
  "server_init = \<lparr>v_joined = 0, v_waiting = {#}, v_order = [], v_busy = 0, v_closed = False, v_ended = False\<rparr>"

inductive_cases server_stepE: "server_step places room v v'"

text \<open>What the machine guarantees by itself: nobody is lost and the places are never exceeded.\<close>

definition server_inv :: "int \<Rightarrow> server \<Rightarrow> bool" where
  "server_inv places v \<longleftrightarrow> int (v_busy v) \<le> max 0 places
     \<and> image_mset fst (v_waiting v + mset (v_order v)) = mset (map of_nat [1..<Suc (v_joined v)])
     \<and> (v_ended v \<longrightarrow> v_closed v)"

lemma server_inv_step: "server_step places room v v' \<Longrightarrow> server_inv places v \<Longrightarrow> server_inv places v'"
  by (induction rule: server_step.induct) (auto simp: server_inv_def)

lemma server_inv_reachable: "(server_step places room)\<^sup>*\<^sup>* server_init v \<Longrightarrow> server_inv places v"
proof (induction rule: rtranclp_induct)
  case base
  show ?case by (simp add: server_inv_def server_init_def)
qed (rule server_inv_step)


section \<open>The abstraction\<close>

text \<open>
  A ticket counts as served from the moment the loop has taken it from the heap; a request that
  panicked keeps its place.
\<close>

definition abs_server :: "ssys \<Rightarrow> server" where
  "abs_server y = \<lparr>v_joined = length (y_accepted y), v_waiting = pq_keys (s_pq (y_s y)),
     v_order = map key (y_granted y @ closing (y_pc y)),
     v_busy = length (y_running y) + y_leaked y + length (closing (y_pc y)),
     v_closed = s_stopped (y_s y), v_ended = y_pc y \<in> {LReleaseUnused, LDone}\<rparr>"

lemma abs_server_init: "abs_server (sched_init cfg c) = server_init"
  by (simp add: abs_server_def sched_init_def NewScheduler_def server_init_def pq_keys_def)

text \<open>A pop of the heap serves a client nobody outranks.\<close>

lemma pop_serves_best:
  assumes "pq_ok q" "pq_Pop q = Some (t, h)"
  shows "pq_keys q = add_mset (key t) (pq_keys h) \<and> (\<forall>k' \<in># pq_keys h. \<not> outranks k' (key t))"
proof -
  have "\<not> outranks (key u) (key t)" if u: "u \<in> set h" for u
  proof -
    obtain v where "v \<in> set q" "key v = key t"
      using pq_Pop_keys [OF assms] pq_keys_set [of q] by (metis imageE union_single_eq_member)
    then have "score_ok t" using pq_ok_score [OF assms(1), of v] by (simp add: key_def score_ok_def)
    moreover have "score_ok u" using pq_ok_score [OF pq_Pop_ok [OF assms] u] .
    ultimately show ?thesis
      using pq_Pop_best [OF assms u] by (auto simp: ticket_less_iff outranks_def key_def)
  qed
  then show ?thesis using pq_Pop_keys [OF assms] by (auto simp: pq_keys_set)
qed

lemma abs_step:
  assumes "sched_step M (\<lambda>x. x \<noteq> NaN) y y'" "cap_inv B y" "queue_inv y" "loop_inv cfg y"
  shows "server_step B (qc_MaxSize cfg) (abs_server y) (abs_server y') \<or> abs_server y' = abs_server y"
  using assms(1)
proof cases
  case (st_enqueue score t r s)
  note e = Enqueue_SomeD [OF st_enqueue(3)]
  have ok: "pq_ok (s_pq (y_s y))" "score_ok t" using assms(3) e st_enqueue(2) by (simp_all add: queue_inv_def score_ok_def)
  have seq: "s_seq (y_s y) = of_nat (length (y_accepted y))" using assms(3) by (simp add: queue_inv_def)
  have pc: "signal_loop (y_pc y) \<in> {LReleaseUnused, LDone} \<longleftrightarrow> y_pc y \<in> {LReleaseUnused, LDone}" by simp
  have "server_step B (qc_MaxSize cfg) (abs_server y) ((abs_server y)\<lparr>v_joined := Suc (v_joined (abs_server y)),
      v_waiting := add_mset (of_nat (Suc (v_joined (abs_server y))), score) (v_waiting (abs_server y))\<rparr>)"
    using e st_enqueue(2) assms(4) by (intro v_join) (auto simp: abs_server_def loop_inv_def)
  moreover have "abs_server y' = (abs_server y)\<lparr>v_joined := Suc (v_joined (abs_server y)),
      v_waiting := add_mset (of_nat (Suc (v_joined (abs_server y))), score) (v_waiting (abs_server y))\<rparr>"
    using st_enqueue e ok seq by (simp add: abs_server_def pq_Push_keys key_def pc add.commute)
  ultimately show ?thesis by metis
next
  case (st_pop t s)
  then obtain h where h: "pq_Pop (s_pq (y_s y)) = Some (t, h)" "s = (y_s y)\<lparr>s_pq := h\<rparr>"
    by (auto simp: waitPopHead_cases)
  have ok: "pq_ok (s_pq (y_s y))" using assms(3) by (simp add: queue_inv_def)
  have "int (v_busy (abs_server y)) < B" using st_pop assms(2) by (simp add: abs_server_def cap_inv_def)
  then have "server_step B (qc_MaxSize cfg) (abs_server y) ((abs_server y)\<lparr>v_waiting := pq_keys h,
      v_order := v_order (abs_server y) @ [key t], v_busy := Suc (v_busy (abs_server y))\<rparr>)"
    using pop_serves_best [OF ok h(1)] st_pop by (intro v_serve) (auto simp: abs_server_def)
  moreover have "abs_server y' = (abs_server y)\<lparr>v_waiting := pq_keys h,
      v_order := v_order (abs_server y) @ [key t], v_busy := Suc (v_busy (abs_server y))\<rparr>"
    using st_pop h by (simp add: abs_server_def)
  ultimately show ?thesis by metis
next
  case st_stopped
  then have "abs_server y' = (abs_server y)\<lparr>v_ended := True\<rparr>" by (simp add: abs_server_def)
  moreover have "server_step B (qc_MaxSize cfg) (abs_server y) ((abs_server y)\<lparr>v_ended := True\<rparr>)"
    using st_stopped by (intro v_end) (simp_all add: abs_server_def waitPopHead_cases pq_keys_def)
  ultimately show ?thesis by metis
next
  case (st_finish n latency status timedOut)
  then obtain m where m: "length (y_running y) = Suc m" by (cases "y_running y") auto
  then have len: "length (remove1 n (y_running y)) = m" using st_finish by (simp add: length_remove1)
  have "server_step B (qc_MaxSize cfg) (abs_server y)
      ((abs_server y)\<lparr>v_busy := m + y_leaked y + length (closing (y_pc y))\<rparr>)"
    by (rule v_leave) (simp add: abs_server_def m)
  moreover have "abs_server y' = (abs_server y)\<lparr>v_busy := m + y_leaked y + length (closing (y_pc y))\<rparr>"
    using st_finish len by (simp add: abs_server_def)
  ultimately show ?thesis by metis
next
  case (st_panic n)
  then obtain m where "length (y_running y) = Suc m" by (cases "y_running y") auto
  then have "length (remove1 n (y_running y)) + Suc (y_leaked y) = length (y_running y) + y_leaked y"
    using st_panic by (simp add: length_remove1)
  then show ?thesis using st_panic by (simp add: abs_server_def)
next
  case st_stop
  then have "abs_server y' = (abs_server y)\<lparr>v_closed := True\<rparr>"
    by (simp add: abs_server_def)
  then show ?thesis using v_close [of B "qc_MaxSize cfg" "abs_server y"] by metis
qed (auto simp: abs_server_def)

section \<open>Stopping\<close>

text \<open>
  What still happens after \<^verbatim>\<open>Stop\<close> when no new request arrives: the loop moves, or a
  request that was granted returns.
\<close>

inductive drain_step :: "mathlib \<Rightarrow> ssys \<Rightarrow> ssys \<Rightarrow> bool" for M where
  dr_loop: "loop_act y = Some y' \<Longrightarrow> drain_step M y y'"
| dr_finish: "n \<in> set (y_running y) \<Longrightarrow>
    drain_step M y ((set_ctl (fst (Release M 1 l st t (y_ctl y))) y)\<lparr>y_running := remove1 n (y_running y)\<rparr>)"

lemma drain_step_sched: "drain_step M y y' \<Longrightarrow> sched_step M P y y'"
  by (induction rule: drain_step.induct) (rule loop_act_step, assumption, rule st_finish)

text \<open>How many drain steps are left at most: a queued ticket costs three moves of the loop and one return.\<close>

fun pc_rank :: "loop_pc \<Rightarrow> nat" where
  "pc_rank (LClose t) = 5"
| "pc_rank LAcquire = 3"
| "pc_rank LWait = 2"
| "pc_rank LReleaseUnused = 1"
| "pc_rank LBlocked = 1"
| "pc_rank LDone = 0"

definition drain_left :: "ssys \<Rightarrow> nat" where
  "drain_left y = 4 * length (s_pq (y_s y)) + length (y_running y) + pc_rank (y_pc y)"

definition drain_inv :: "int \<Rightarrow> QueueConfig \<Rightarrow> ssys \<Rightarrow> bool" where
  "drain_inv B cfg y \<longleftrightarrow> cap_inv B y \<and> queue_inv y \<and> loop_inv cfg y"

lemma drain_inv_reachable:
  assumes "sched_reachable M (\<lambda>x. x \<noteq> NaN) cfg c y" "limits_within B c" "c_inFlight c = 0"
  shows "drain_inv B cfg y"
  using cap_inv_reachable [OF assms] order_inv_reachable [OF assms(1)] loop_inv_reachable [OF assms(1)]
  by (simp add: drain_inv_def)

lemma drain_inv_step:
  assumes "drain_step M y y'" "drain_inv B cfg y"
  shows "drain_inv B cfg y'"
  using drain_step_sched [OF assms(1), of "\<lambda>x. x \<noteq> NaN"] assms(2) cap_inv_step queue_inv_step loop_inv_step
  unfolding drain_inv_def by blast

lemma drain_step_frame:
  assumes "drain_step M y y'" "drain_inv B cfg y" "s_stopped (y_s y)"
  shows "drain_left y' < drain_left y \<and> s_stopped (y_s y') \<and> y_leaked y' = y_leaked y
    \<and> c_limit (y_ctl y') = c_limit (y_ctl y) \<and> y_accepted y' = y_accepted y"
  using assms(1)
proof cases
  case dr_loop
  show ?thesis
  proof (cases "y_pc y")
    case LAcquire
    then obtain c where c: "Acquire 1 (y_ctl y) = Some c" "y' = (set_ctl c y)\<lparr>y_pc := LWait\<rparr>"
      using dr_loop by (auto split: option.splits)
    then have "c_limit c = c_limit (y_ctl y)" by (auto simp: Acquire_def split: if_splits)
    then show ?thesis using c LAcquire assms(3) by (simp add: drain_left_def)
  next
    case LWait
    show ?thesis
    proof (cases "pq_Pop (s_pq (y_s y))")
      case None
      then have "waitPopHead (y_s y) = PopStopped" using assms(3) by (simp add: waitPopHead_cases pq_Pop_None)
      then show ?thesis using dr_loop LWait assms(3) by (auto simp: drain_left_def)
    next
      case (Some th)
      obtain t h where th: "th = (t, h)" by (cases th)
      have "waitPopHead (y_s y) = PopTicket t ((y_s y)\<lparr>s_pq := h\<rparr>)" using Some th by (simp add: waitPopHead_cases)
      moreover have "length (s_pq (y_s y)) = Suc (length h)"
        using assms(2) Some th by (intro pq_Pop_length) (auto simp: drain_inv_def queue_inv_def)
      ultimately show ?thesis using dr_loop LWait assms(3) by (auto simp: drain_left_def)
    qed
  next
    case LReleaseUnused
    then show ?thesis using dr_loop assms(3) by (auto simp: drain_left_def)
  qed (use dr_loop assms(3) in \<open>auto simp: drain_left_def\<close>)
next
  case (dr_finish n l st t)
  then obtain m where "length (y_running y) = Suc m" by (cases "y_running y") auto
  then show ?thesis using dr_finish assms(3) by (simp add: drain_left_def length_remove1)
qed

text \<open>When the drain can go no further and at least one unit is not lost, the loop has returned.\<close>

lemma drain_stuck:
  assumes "drain_inv B cfg y" "s_stopped (y_s y)" "int (y_leaked y) < c_limit (y_ctl y)" "\<And>y'. \<not> drain_step M y y'"
  shows "y_pc y = LDone \<and> y_running y = []"
proof -
  have run: "y_running y = []"
    using assms(4) dr_finish [of _ y M] by (metis list.set_intros(1) neq_Nil_conv)
  have none: "loop_act y = None" using assms(4) dr_loop [of y] by (cases "loop_act y") auto
  have "y_pc y \<noteq> LBlocked" using assms(1,2) by (auto simp: drain_inv_def loop_inv_def)
  moreover have "y_pc y \<noteq> LAcquire"
  proof
    assume a: "y_pc y = LAcquire"
    then have "c_inFlight (y_ctl y) < c_limit (y_ctl y)" "limits_within B (y_ctl y)" "0 \<le> c_inFlight (y_ctl y)" "c_inFlight (y_ctl y) \<le> B"
      using run assms(1,3) by (simp_all add: drain_inv_def cap_inv_def)
    then have "Acquire 1 (y_ctl y) \<noteq> None" using Acquire_1 [of B "y_ctl y"] by simp
    then show False using none a by auto
  qed
  ultimately show ?thesis using none run by (cases "y_pc y") (auto split: pop_result.splits)
qed


lemma drain_run:
  assumes "(drain_step M ^^ n) y y'" "drain_inv B cfg y" "s_stopped (y_s y)"
  shows "n + drain_left y' \<le> drain_left y \<and> drain_inv B cfg y' \<and> s_stopped (y_s y') \<and> y_leaked y' = y_leaked y
    \<and> c_limit (y_ctl y') = c_limit (y_ctl y) \<and> y_accepted y' = y_accepted y"
  using assms
proof (induction n arbitrary: y')
  case (Suc n)
  then obtain z where z: "(drain_step M ^^ n) y z" "drain_step M z y'" by auto
  note ih = Suc.IH [OF z(1) Suc.prems(2,3)]
  show ?case using ih drain_step_frame [OF z(2), of B cfg] drain_inv_step [OF z(2), of B cfg] by auto
qed simp

text \<open>While nobody joins, the loop decides to exit only over an empty queue.\<close>

lemma drain_ended_empty:
  assumes "(drain_step M ^^ n) y y'" "y_pc y \<in> {LReleaseUnused, LDone} \<longrightarrow> s_pq (y_s y) = []"
  shows "y_pc y' \<in> {LReleaseUnused, LDone} \<longrightarrow> s_pq (y_s y') = []"
  using assms
proof (induction n arbitrary: y')
  case (Suc n)
  then obtain z where z: "drain_step M z y'" "y_pc z \<in> {LReleaseUnused, LDone} \<longrightarrow> s_pq (y_s z) = []" by auto
  from z(1) show ?case
  proof cases
    case dr_loop
    then show ?thesis using z(2) by (cases "y_pc z") (auto simp: waitPopHead_cases split: option.splits pop_result.splits)
  qed (use z(2) in auto)
qed simp

text \<open>Once every unit of a fixed limit is lost while the loop waits for one, the loop waits for ever.\<close>

lemma exhausted_step:
  assumes "sched_step M P y y'" "cap_inv n y" "c_limit (y_ctl y) = n" "c_kind (y_ctl y) = ControllerFixed"
    "n \<le> int (y_leaked y)" "y_pc y = LAcquire"
  shows "cap_inv n y' \<and> c_limit (y_ctl y') = n \<and> c_kind (y_ctl y') = ControllerFixed
    \<and> n \<le> int (y_leaked y') \<and> y_pc y' = LAcquire"
proof -
  have inv: "limits_within n (y_ctl y)" "c_inFlight (y_ctl y) = int (length (y_running y)) + int (y_leaked y)"
    "c_inFlight (y_ctl y) \<le> n" using assms(2,6) by (simp_all add: cap_inv_def)
  then have "int (length (y_running y)) = 0" using assms(5) by linarith
  then have run: "y_running y = []" by simp
  have none: "Acquire 1 (y_ctl y) = None" using Acquire_1 [of n "y_ctl y"] inv assms(3,5) by auto
  have "c_limit (y_ctl y') = n \<and> c_kind (y_ctl y') = ControllerFixed \<and> n \<le> int (y_leaked y') \<and> y_pc y' = LAcquire"
    using assms(1) by cases (use assms(3-6) run none in \<open>auto simp: signal_loop_def dest!: Enqueue_SomeD\<close>)
  then show ?thesis using cap_inv_step [OF assms(1,2)] by blast
qed

section \<open>Properties\<close>

text \<open>
  C2: the scheduler implements the priority server: whatever the interleaving of requests,
  dispatch loop, completions, panics, adjustments and \<open>Stop\<close>, every step is a step of the
  abstract machine or invisible to it, so every reachable state abstracts to a reachable
  state of the server with as many places as the largest limit; in particular tickets are
  served by score and then arrival, nobody is lost and the places are never exceeded.
\<close>

theorem scheduler_refines_priority_server:
  assumes "sched_reachable M (\<lambda>x. x \<noteq> NaN) cfg c y" "limits_within B c" "c_inFlight c = 0"
  shows "(server_step B (qc_MaxSize cfg))\<^sup>*\<^sup>* server_init (abs_server y)
    \<and> (\<forall>y'. sched_step M (\<lambda>x. x \<noteq> NaN) y y' \<longrightarrow>
         server_step B (qc_MaxSize cfg) (abs_server y) (abs_server y') \<or> abs_server y' = abs_server y)"
proof -
  have sim: "server_step B (qc_MaxSize cfg) (abs_server z) (abs_server z') \<or> abs_server z' = abs_server z"
    if "sched_reachable M (\<lambda>x. x \<noteq> NaN) cfg c z" "sched_step M (\<lambda>x. x \<noteq> NaN) z z'" for z z'
    using abs_step [OF that(2)] drain_inv_reachable [OF that(1) assms(2,3)] by (simp add: drain_inv_def)
  have "(server_step B (qc_MaxSize cfg))\<^sup>*\<^sup>* server_init (abs_server y)"
    using assms(1) unfolding sched_reachable_def
  proof (induction rule: rtranclp_induct)
    case base
    show ?case by (simp add: abs_server_init)
  next
    case (step z z')
    then show ?case using sim [of z z'] unfolding sched_reachable_def by (metis rtranclp.rtrancl_into_rtrancl)
  qed
  then show ?thesis using sim assms(1) by blast
qed

theorem scheduler_refines_priority_server_witness:
  "(server_step 3 4)\<^sup>*\<^sup>* server_init (abs_server demo_y)
    \<and> map fst (v_order (abs_server demo_y)) = [2, 4] \<and> v_busy (abs_server demo_y) = 2"
proof -
  have "map fst (v_order (abs_server demo_y)) = [2, 4]" "v_busy (abs_server demo_y) = 2" by code_simp+
  then show ?thesis
    using scheduler_refines_priority_server [OF demo_y_reachable fixed_within [of 3]]
    by (simp add: NewFixedController_def demo_cfg_def)
qed

text \<open>
  C12: \<open>Stop\<close> returns when no request arrives any more and at least one unit of capacity is not
  lost: from any reachable stopped state whose loop has not decided to exit, the moves of the
  loop and the returns of granted requests are finitely many, in whatever order they come, and
  when none is left the loop has returned, every accepted ticket has been granted and no
  request is running.
\<close>

theorem stop_returns:
  assumes "sched_reachable M (\<lambda>x. x \<noteq> NaN) cfg c y" "limits_within B c" "c_inFlight c = 0"
    "s_stopped (y_s y)" "y_pc y \<notin> {LReleaseUnused, LDone}" "int (y_leaked y) < c_limit (y_ctl y)"
    "(drain_step M ^^ n) y y'"
  shows "n \<le> drain_left y
    \<and> ((\<forall>z. \<not> drain_step M y' z) \<longrightarrow> y_pc y' = LDone \<and> y_running y' = []
          \<and> mset (map key (y_granted y')) = mset (map key (y_accepted y)))"
proof -
  note run = drain_run [OF assms(7) drain_inv_reachable [OF assms(1-3)] assms(4)]
  have "y_pc y' = LDone \<and> y_running y' = [] \<and> s_pq (y_s y') = []" if "\<forall>z. \<not> drain_step M y' z"
    using drain_stuck [of B cfg y' M] drain_ended_empty [OF assms(7)] run assms(5,6) that by auto
  moreover have "pq_keys (s_pq (y_s y')) + mset (map key (y_granted y' @ closing (y_pc y'))) = mset (map key (y_accepted y))"
    using run by (simp add: drain_inv_def queue_inv_def)
  ultimately show ?thesis using run by (auto simp: pq_keys_def)
qed

text \<open>A queue of two behind one unit of capacity, stopped: seven loop moves and two returns.\<close>

definition stopping_y :: ssys where
  "stopping_y = the (exec_acts log2lib [AEnqueue (Fin 1), AEnqueue (Fin 2), AStop] (sched_init demo_cfg (NewFixedController 1)))"

definition ended_y :: ssys where
  "ended_y = the (exec_acts log2lib (replicate 3 ALoop @ [AFinish 2 5 200 False] @ replicate 3 ALoop
     @ [AFinish 1 5 200 False] @ replicate 3 ALoop) stopping_y)"

lemma stopping_exec:
  "exec_acts log2lib [AEnqueue (Fin 1), AEnqueue (Fin 2), AStop] (sched_init demo_cfg (NewFixedController 1)) = Some stopping_y"
proof -
  have "exec_acts log2lib [AEnqueue (Fin 1), AEnqueue (Fin 2), AStop] (sched_init demo_cfg (NewFixedController 1)) \<noteq> None" by code_simp
  then show ?thesis by (auto simp: stopping_y_def)
qed

lemma stopping_facts:
  "y_pc stopping_y = LAcquire" "s_stopped (y_s stopping_y)" "y_leaked stopping_y = 0" "c_limit (y_ctl stopping_y) = 1"
  "drain_left stopping_y = 11" "length (y_accepted stopping_y) = 2"
  "y_pc ended_y = LDone" "map t_seq (y_granted ended_y) = [2, 1]" "y_running ended_y = []"
  by code_simp+

fun drain_act :: "act \<Rightarrow> bool" where
  "drain_act ALoop = True"
| "drain_act (AFinish n l st t) = True"
| "drain_act a = False"

lemma drain_exec_step: "exec_act M a y = Some y' \<Longrightarrow> drain_act a \<Longrightarrow> drain_step M y y'"
  by (cases a) (auto simp del: loop_act.simps split: if_splits intro: drain_step.intros)

lemma drain_exec_steps:
  "exec_acts M as y = Some y' \<Longrightarrow> list_all drain_act as \<Longrightarrow>
    (drain_step M ^^ length as) y y'"
proof (induction as arbitrary: y)
  case (Cons a as)
  then obtain z where z: "exec_act M a y = Some z" "exec_acts M as z = Some y'" by (auto split: option.splits)
  have "drain_step M y z" using drain_exec_step [OF z(1)] Cons.prems(2) by simp
  moreover have "(drain_step M ^^ length as) z y'" using Cons.IH [OF z(2)] Cons.prems(2) by simp
  ultimately show ?case by (metis length_Cons relpowp_Suc_I2)
qed simp

lemma ended_run: "(drain_step log2lib ^^ 11) stopping_y ended_y" "\<not> drain_step log2lib ended_y z"
proof -
  let ?as = "replicate 3 ALoop @ [AFinish 2 5 200 False] @ replicate 3 ALoop @ [AFinish 1 5 200 False] @ replicate 3 ALoop"
  have "exec_acts log2lib ?as stopping_y \<noteq> None" by code_simp
  then have "exec_acts log2lib ?as stopping_y = Some ended_y" by (auto simp: ended_y_def)
  then have "(drain_step log2lib ^^ length ?as) stopping_y ended_y" by (rule drain_exec_steps) (simp add: numeral_eq_Suc)
  then show "(drain_step log2lib ^^ 11) stopping_y ended_y" by simp
  show "\<not> drain_step log2lib ended_y z"
    using stopping_facts by (auto elim!: drain_step.cases)
qed

theorem stop_returns_witness:
  "y_pc ended_y = LDone \<and> mset (map key (y_granted ended_y)) = mset (map key (y_accepted stopping_y))
    \<and> map t_seq (y_granted ended_y) = [2, 1] \<and> 11 \<le> drain_left stopping_y"
proof -
  have "sched_reachable log2lib (\<lambda>x. x \<noteq> NaN) demo_cfg (NewFixedController 1) stopping_y"
    by (rule exec_reachable [OF stopping_exec]) (simp add: act_ok_def)
  then show ?thesis
    using stop_returns [of log2lib demo_cfg "NewFixedController 1" stopping_y 1 11 ended_y] ended_run stopping_facts
      fixed_within [of 1] by (auto simp: NewFixedController_def)
qed

text \<open>
  C22: \<open>Stop\<close> does not return once panics in the wrapped handler have used up a fixed limit: with
  \<open>n\<close> units lost and the loop not finished, the loop is and stays in \<open>Acquire\<close> whatever happens,
  so \<open>wg.Wait\<close> in \<open>Stop\<close> (and the clean-up of the handler that calls it) waits for ever.
\<close>

theorem stop_hangs_after_panics:
  assumes "0 \<le> n" "n \<le> 2 ^ 62" "sched_reachable M P cfg (NewFixedController n) y" "n \<le> int (y_leaked y)"
    "y_pc y \<noteq> LDone" "(sched_step M P)\<^sup>*\<^sup>* y y'"
  shows "y_pc y' = LAcquire \<and> n \<le> int (y_leaked y')"
proof -
  let ?I = "\<lambda>z. cap_inv n z \<and> c_limit (y_ctl z) = n \<and> c_kind (y_ctl z) = ControllerFixed"
  have inv: "?I y"
    using assms(3)
  proof (rule sched_invariant)
    show "?I (sched_init cfg (NewFixedController n))"
      using fixed_within [OF assms(1,2)]
      by (simp add: sched_init_def NewScheduler_def cap_inv_def) (simp add: NewFixedController_def assms(1))
    show "?I z'" if "sched_step M P z z'" "?I z" for z z'
      using that(1) cap_inv_step [OF that(1), of n] that(2)
      by cases (use that(2) Acquire_frame in \<open>auto dest!: Enqueue_SomeD simp: waitPopHead_cases\<close>)
  qed
  moreover have "y_pc y = LAcquire"
  proof -
    have "held (y_pc y) = 0" using inv assms(4) held_range [of "y_pc y"] unfolding cap_inv_def by linarith
    then show ?thesis using assms(5) by (cases "y_pc y") auto
  qed
  ultimately have start: "?I y \<and> n \<le> int (y_leaked y) \<and> y_pc y = LAcquire" using assms(4) by blast
  have "?I y' \<and> n \<le> int (y_leaked y') \<and> y_pc y' = LAcquire"
    using assms(6)
  proof (induction rule: rtranclp_induct)
    case base
    show ?case by (rule start)
  next
    case (step z z')
    then show ?case using exhausted_step [of M P z z' n] by blast
  qed
  then show ?thesis by blast
qed

definition hung_y :: ssys where
  "hung_y = the (exec_acts log2lib [AStop] leaked_y)"

theorem stop_hangs_after_panics_witness:
  "y_pc hung_y = LAcquire \<and> s_stopped (y_s hung_y) \<and> length (s_pq (y_s hung_y)) = 1"
proof -
  have "exec_acts log2lib [AStop] leaked_y \<noteq> None" by code_simp
  then have "exec_acts log2lib [AStop] leaked_y = Some hung_y" by (auto simp: hung_y_def)
  then have run: "(sched_step log2lib (\<lambda>x. x \<noteq> NaN))\<^sup>*\<^sup>* leaked_y hung_y" by (rule exec_acts_steps) (simp add: act_ok_def)
  have "sched_reachable log2lib (\<lambda>x. x \<noteq> NaN) demo_cfg (NewFixedController 1) leaked_y"
    by (rule exec_reachable [OF leaked_exec]) (simp add: leak_acts_def act_ok_def)
  moreover have "y_pc leaked_y \<noteq> LDone" "s_stopped (y_s hung_y)" "length (s_pq (y_s hung_y)) = 1" by code_simp+
  ultimately show ?thesis
    using stop_hangs_after_panics [of 1 log2lib "\<lambda>x. x \<noteq> NaN" demo_cfg leaked_y hung_y] run leaked_facts by simp
qed

end
