(* ===== verification/Admission_Lifecycle.thy ===== *)
theory Admission_Lifecycle imports Admission Background Scheduler_Refinement begin

text \<open>
  A handler from \<open>Provision\<close> to the end of \<open>Cleanup\<close> (\<^verbatim>\<open>adaptiveadmission/module.go\<close>) with its
  goroutines: the dispatch loop of the scheduler, the adjustment loop of an adaptive controller
  (\<open>Start\<close> and \<open>Stop\<close> of \<^verbatim>\<open>capacity.go\<close>), the requests, and the goroutine that runs
  \<open>Cleanup\<close>, which stops the scheduler, then the controller, then unregisters.
\<close>

section \<open>The goroutine of a controller\<close>

datatype ctl_worker = AdjustLoop

text \<open>Before \<open>Start\<close> the channel is nil.\<close>

definition controller_bg :: "ctl_worker bg" where
  "controller_bg = \<lparr>g_stopCh = NilChan, g_stopOnce = False, g_wg = 0, g_live = []\<rparr>"

definition Controller_Start :: "Controller \<Rightarrow> ctl_worker bg \<Rightarrow> ctl_worker bg option" where
  "Controller_Start c b =
    (if c_kind c \<noteq> ControllerAdaptive then Some b
     else map_option (go_worker AdjustLoop) (wg_Add 1 (b\<lparr>g_stopCh := OpenChan\<rparr>)))"

definition Controller_Stop :: "Controller \<Rightarrow> ctl_worker bg \<Rightarrow> ctl_worker stop_call" where
  "Controller_Stop c b = stop_call (c_kind c \<noteq> ControllerAdaptive \<or> g_stopCh b = NilChan) b"

definition adjust_ticker :: "Controller \<Rightarrow> duration option" where
  "adjust_ticker c = NewTicker (ac_AdjustInterval (c_cfg c))"

text \<open>The readers, and the callback field with what \<open>adjust\<close> does with it.\<close>

definition Kind :: "Controller \<Rightarrow> ControllerKind" where "Kind c = c_kind c"
definition Limit :: "Controller \<Rightarrow> go_int" where "Limit c = c_limit c"
definition InFlight :: "Controller \<Rightarrow> go_int" where "InFlight c = c_inFlight c"

type_synonym limit_callback = "(go_int \<times> go_int \<Rightarrow> metric list) option"

definition SetOnLimitChange :: "(go_int \<times> go_int \<Rightarrow> metric list) \<Rightarrow> limit_callback \<Rightarrow> limit_callback" where
  "SetOnLimitChange f cb = Some f"

definition notify_limit :: "limit_callback \<Rightarrow> go_int \<times> go_int \<Rightarrow> metric list" where
  "notify_limit cb ol = (case cb of None \<Rightarrow> [] | Some f \<Rightarrow> f ol)"

section \<open>Starting\<close>

text \<open>\<^verbatim>\<open>Scheduler.Start\<close>: the dispatch loop begins by acquiring.\<close>

definition Scheduler_Start :: "Scheduler \<Rightarrow> ssys" where
  "Scheduler_Start s = \<lparr>y_s = s, y_pc = LAcquire, y_granted = [], y_running = [], y_leaked = 0, y_accepted = []\<rparr>"

lemma Scheduler_Start_init: "Scheduler_Start (NewScheduler cfg c) = sched_init cfg c"
  by (simp add: Scheduler_Start_def sched_init_def)

datatype cleanup_pc = CRunning | CWaitScheduler | CStopController | CWaitController | CUnregister | CDone

text \<open>
  \<open>al_pending\<close> is a change of the limit that the adjustment loop has published, having released the
  mutex, and not yet reported to the callback.
\<close>

record admission_life =
  al_sched :: ssys
  al_bg :: "ctl_worker bg"
  al_notify :: limit_callback
  al_pending :: "(go_int \<times> go_int) option"
  al_metrics :: "metric list"
  al_cleanup :: cleanup_pc
  al_app :: "AdmissionApp option"

text \<open>
  The state when \<open>Provision\<close> has returned: the callback is set before the controller starts, the
  controller before the scheduler.
\<close>

definition provisioned :: "AdmissionHandler \<Rightarrow> AdmissionApp option \<Rightarrow> metric list \<Rightarrow> admission_life option" where
  "provisioned handler app ms =
    (let cb = SetOnLimitChange (on_limit_change (ah_backend handler)) None in
     map_option (\<lambda>b. \<lparr>al_sched = Scheduler_Start (ah_scheduler handler), al_bg = b, al_notify = cb,
       al_pending = None, al_metrics = ms, al_cleanup = CRunning, al_app = app\<rparr>)
       (Controller_Start (s_controller (ah_scheduler handler)) controller_bg))"

section \<open>Running and cleaning up\<close>

abbreviation al_ctl :: "admission_life \<Rightarrow> Controller" where
  "al_ctl x \<equiv> y_ctl (al_sched x)"

text \<open>The goroutine that runs \<open>Cleanup\<close>, after it has called \<open>Stop\<close> of the scheduler.\<close>

inductive cleanup_move :: "handler_ptr \<Rightarrow> AdmissionHandler \<Rightarrow> admission_life \<Rightarrow> admission_life \<Rightarrow> bool"
  for h handler where
  cm_scheduler_stopped: "al_cleanup x = CWaitScheduler \<Longrightarrow> y_pc (al_sched x) = LDone \<Longrightarrow>
    cleanup_move h handler x (x\<lparr>al_cleanup := CStopController\<rparr>)"
| cm_nothing_to_stop: "al_cleanup x = CStopController \<Longrightarrow> Controller_Stop (al_ctl x) (al_bg x) = StopReturns \<Longrightarrow>
    cleanup_move h handler x (x\<lparr>al_cleanup := CUnregister\<rparr>)"
| cm_stop_controller: "al_cleanup x = CStopController \<Longrightarrow> Controller_Stop (al_ctl x) (al_bg x) = StopWaits b \<Longrightarrow>
    cleanup_move h handler x (x\<lparr>al_bg := b, al_cleanup := CWaitController\<rparr>)"
| cm_controller_stopped: "al_cleanup x = CWaitController \<Longrightarrow> g_wg (al_bg x) = 0 \<Longrightarrow>
    cleanup_move h handler x (x\<lparr>al_cleanup := CUnregister\<rparr>)"
| cm_unregister: "al_cleanup x = CUnregister \<Longrightarrow>
    cleanup_move h handler x (x\<lparr>al_cleanup := CDone,
      al_app := map_option (unregisterHandler (backendLabel (ah_Config handler)) h) (al_app x)\<rparr>)"

text \<open>
  An adjustment takes two steps: under the mutex it publishes the new limit, then it calls the
  callback. The loop looks at its channels only in between two adjustments.
\<close>

inductive life_step :: "mathlib \<Rightarrow> handler_ptr \<Rightarrow> AdmissionHandler \<Rightarrow> admission_life \<Rightarrow> admission_life \<Rightarrow> bool"
  for M h handler where
  lf_sched: "exec_act M a (al_sched x) = Some y \<Longrightarrow> act_ok (\<lambda>s. s \<noteq> NaN) a \<Longrightarrow> a \<noteq> AStop \<Longrightarrow>
    life_step M h handler x (x\<lparr>al_sched := y\<rparr>)"
| lf_adjust: "AdjustLoop \<in> set (g_live (al_bg x)) \<Longrightarrow> al_pending x = None \<Longrightarrow> adjust M now (al_ctl x) = (c, ch, sig) \<Longrightarrow>
    life_step M h handler x (x\<lparr>al_sched := set_ctl c (al_sched x), al_pending := ch\<rparr>)"
| lf_notify: "al_pending x = Some ol \<Longrightarrow>
    life_step M h handler x (x\<lparr>al_metrics := al_metrics x @ notify_limit (al_notify x) ol, al_pending := None\<rparr>)"
| lf_exit: "al_pending x = None \<Longrightarrow> worker_exit AdjustLoop (al_bg x) = Some b \<Longrightarrow> life_step M h handler x (x\<lparr>al_bg := b\<rparr>)"
| lf_cleanup: "al_cleanup x = CRunning \<Longrightarrow> exec_act M AStop (al_sched x) = Some y \<Longrightarrow>
    life_step M h handler x (x\<lparr>al_sched := y, al_cleanup := CWaitScheduler\<rparr>)"
| lf_move: "cleanup_move h handler x x' \<Longrightarrow> life_step M h handler x x'"

text \<open>The last value a run set the \<^verbatim>\<open>concurrency_limit\<close> gauge to.\<close>

definition limit_gauge :: "metric list \<Rightarrow> go_int option" where
  "limit_gauge ms = fold (\<lambda>m g. case m of MConcurrencyLimit b v \<Rightarrow> Some v | _ \<Rightarrow> g) ms None"

lemma limit_gauge_append: "limit_gauge (ms @ [MLimitChanges b d, MConcurrencyLimit b v]) = Some v"
  by (simp_all add: limit_gauge_def)

section \<open>Invariant\<close>

text \<open>Where each goroutine can be, relative to how far \<open>Cleanup\<close> has come.\<close>

definition ctl_bg_ok :: "Controller \<Rightarrow> ctl_worker bg \<Rightarrow> bool" where
  "ctl_bg_ok c b \<longleftrightarrow> (if c_kind c = ControllerAdaptive then bg_ok b else b = controller_bg)"

definition cleanup_order :: "admission_life \<Rightarrow> bool" where
  "cleanup_order x \<longleftrightarrow>
     (al_cleanup x \<notin> {CRunning, CWaitScheduler} \<longrightarrow> y_pc (al_sched x) = LDone)
     \<and> (g_stopCh (al_bg x) = ClosedChan \<longrightarrow> al_cleanup x \<in> {CWaitController, CUnregister, CDone})
     \<and> (al_cleanup x = CWaitController \<longrightarrow> g_stopCh (al_bg x) = ClosedChan)
     \<and> (al_cleanup x \<in> {CUnregister, CDone} \<longrightarrow> g_live (al_bg x) = [])
     \<and> (al_cleanup x \<noteq> CRunning \<longrightarrow> s_stopped (y_s (al_sched x)))"

definition gauge_ok :: "admission_life \<Rightarrow> bool" where
  "gauge_ok x \<longleftrightarrow> (\<exists>b. al_notify x = Some (on_limit_change b))
     \<and> (case al_pending x of
          None \<Rightarrow> limit_gauge (al_metrics x) = Some (c_limit (al_ctl x))
        | Some (old, new) \<Rightarrow> limit_gauge (al_metrics x) = Some old \<and> new = c_limit (al_ctl x) \<and> old \<noteq> new
            \<and> AdjustLoop \<in> set (g_live (al_bg x)))"

lemma exec_ctl_frame:
  assumes "exec_act M a y = Some y'"
  shows "c_kind (y_ctl y') = c_kind (y_ctl y)" "c_cfg (y_ctl y') = c_cfg (y_ctl y)" "c_limit (y_ctl y') = c_limit (y_ctl y)"
    "y_pc y = LDone \<Longrightarrow> y_pc y' = LDone" "s_stopped (y_s y) \<Longrightarrow> s_stopped (y_s y')"
proof -
  have "c_kind (y_ctl y') = c_kind (y_ctl y) \<and> c_cfg (y_ctl y') = c_cfg (y_ctl y) \<and> c_limit (y_ctl y') = c_limit (y_ctl y)
      \<and> (y_pc y = LDone \<longrightarrow> y_pc y' = LDone) \<and> (s_stopped (y_s y) \<longrightarrow> s_stopped (y_s y'))"
  proof (cases a)
    case (AEnqueue x)
    then show ?thesis using assms by (auto dest!: Enqueue_SomeD split: prod.splits option.splits)
  next
    case ALoop
    then show ?thesis using assms
      by (auto simp: waitPopHead_cases dest: Acquire_frame split: loop_pc.splits option.splits pop_result.splits)
  qed (use assms in \<open>auto split: if_splits\<close>)
  then show "c_kind (y_ctl y') = c_kind (y_ctl y)" "c_cfg (y_ctl y') = c_cfg (y_ctl y)" "c_limit (y_ctl y') = c_limit (y_ctl y)"
    "y_pc y = LDone \<Longrightarrow> y_pc y' = LDone" "s_stopped (y_s y) \<Longrightarrow> s_stopped (y_s y')" by blast+
qed

lemma life_step_ctl:
  assumes "life_step M h handler x x'"
  shows "c_kind (al_ctl x') = c_kind (al_ctl x) \<and> c_cfg (al_ctl x') = c_cfg (al_ctl x)"
  using assms
proof cases
  case (lf_adjust now c ch sig)
  then have "c = fst (adjust M now (al_ctl x))" by simp
  then show ?thesis using lf_adjust(1) by simp
qed (auto dest: exec_ctl_frame elim: cleanup_move.cases)

text \<open>Seen from the scheduler a life is a run of the step relation.\<close>

lemma life_step_sched:
  assumes "life_step M h handler x x'" "ctl_bg_ok (al_ctl x) (al_bg x)"
  shows "(sched_step M (\<lambda>s. s \<noteq> NaN))\<^sup>*\<^sup>* (al_sched x) (al_sched x')"
  using assms(1)
proof cases
  case (lf_sched a y)
  then show ?thesis using exec_act_step [of M a "al_sched x" y "\<lambda>s. s \<noteq> NaN"] by auto
next
  case (lf_adjust now c ch sig)
  then have "c_kind (al_ctl x) = ControllerAdaptive" using assms(2) by (auto simp: ctl_bg_ok_def controller_bg_def split: if_splits)
  then have "sched_step M (\<lambda>s. s \<noteq> NaN) (al_sched x) (set_ctl (fst (adjust M now (al_ctl x))) (al_sched x))" by (rule st_adjust)
  then show ?thesis using lf_adjust by auto
next
  case (lf_cleanup y)
  then show ?thesis using exec_act_step [of M AStop "al_sched x" y "\<lambda>s. s \<noteq> NaN"] by (auto simp: act_ok_def)
qed (auto elim: cleanup_move.cases)

lemma ctl_bg_ok_step:
  assumes "life_step M h handler x x'" "ctl_bg_ok (al_ctl x) (al_bg x)"
  shows "ctl_bg_ok (al_ctl x') (al_bg x')"
proof -
  have k: "c_kind (al_ctl x') = c_kind (al_ctl x)" using life_step_ctl [OF assms(1)] by simp
  from assms(1) have "ctl_bg_ok (al_ctl x) (al_bg x')"
  proof cases
    case (lf_exit b)
    then show ?thesis
      using assms(2) worker_exit_SomeD [OF lf_exit(3)]
      by (auto simp: ctl_bg_ok_def controller_bg_def worker_exit_def split: if_splits)
  next
    case lf_move
    then show ?thesis
    proof cases
      case (cm_stop_controller b)
      then have "close_once (al_bg x) = Some b" "c_kind (al_ctl x) = ControllerAdaptive"
        by (auto simp: Controller_Stop_def stop_call_def split: option.splits if_splits)
      then show ?thesis using cm_stop_controller(1) assms(2) close_once_ok [of "al_bg x"] by (auto simp: ctl_bg_ok_def)
    qed (use assms(2) in auto)
  qed (use assms(2) in auto)
  then show ?thesis using k by (simp add: ctl_bg_ok_def)
qed

lemma cleanup_move_order:
  assumes "cleanup_move h handler x x'" "cleanup_order x" "ctl_bg_ok (al_ctl x) (al_bg x)"
  shows "cleanup_order x'"
  using assms(1)
proof cases
  case (cm_stop_controller b)
  then have "g_stopCh b = ClosedChan"
    by (auto simp: Controller_Stop_def stop_call_def close_once_def split: if_splits option.splits elim!: close_chan.elims)
      (use assms(3) in \<open>auto simp: ctl_bg_ok_def bg_ok_def split: if_splits\<close>)
  then show ?thesis using cm_stop_controller(1,2) assms(2) by (auto simp: cleanup_order_def)
next
  case (cm_nothing_to_stop)
  have "g_live (al_bg x) = []"
    using cm_nothing_to_stop(3) assms(3)
    by (auto simp: Controller_Stop_def stop_call_def ctl_bg_ok_def controller_bg_def bg_ok_def split: if_splits option.splits)
  then show ?thesis using cm_nothing_to_stop assms(2) by (auto simp: cleanup_order_def)
next
  case (cm_controller_stopped)
  have "g_live (al_bg x) = []"
    using cm_controller_stopped(3) assms(3) by (auto simp: ctl_bg_ok_def controller_bg_def bg_ok_def split: if_splits)
  then show ?thesis using cm_controller_stopped assms(2) by (auto simp: cleanup_order_def)
qed (use assms(2) in \<open>auto simp: cleanup_order_def\<close>)

lemma cleanup_order_step:
  assumes "life_step M h handler x x'" "cleanup_order x" "ctl_bg_ok (al_ctl x) (al_bg x)"
  shows "cleanup_order x'"
  using assms(1)
proof cases
  case (lf_sched a y)
  then show ?thesis using assms(2) exec_ctl_frame(4,5) [OF lf_sched(2)] by (auto simp: cleanup_order_def)
next
  case (lf_exit b)
  then have "g_stopCh (al_bg x) = ClosedChan" "g_stopCh b = ClosedChan" "g_live b = remove1 AdjustLoop (g_live (al_bg x))"
    by (auto simp: worker_exit_def wg_Add_def split: if_splits)
  then show ?thesis using lf_exit(1) assms(2) by (auto simp: cleanup_order_def)
qed (use assms(2) cleanup_move_order [OF _ assms(2,3)] in \<open>auto simp: cleanup_order_def\<close>)

text \<open>What \<open>adjust\<close> reports: a limit that really changed, with the one it left in force.\<close>

lemma adjust_reports:
  assumes "limits_within B c" "c_kind c = ControllerAdaptive" "adjust M now c = (c', ch, sig)"
  shows "ch = (if c_limit c' = c_limit c then None else Some (c_limit c, c_limit c'))"
proof -
  let ?l = "c_limit c" and ?l' = "adjusted_limit M now c"
  have c: "c' = fst (adjust M now c)" "ch = fst (snd (adjust M now c))" using assms(3) by simp_all
  have "limits_within B c'" using limits_within_adjust(1) [OF assms(1,2), of M now] c by simp
  then have "0 \<le> ?l'" "?l' \<le> B" "0 \<le> ?l" "?l \<le> B" "B \<le> 2 ^ 62" using assms(1) c by (simp_all add: limits_within_def)
  then have w: "wrap64 (?l' - ?l) = ?l' - ?l" by (intro wrap64_id) (simp add: in_int64_def)
  show ?thesis
  proof (cases "ow_total (c_window c) = 0")
    case True
    then show ?thesis using c by (simp add: adjust_simps adjusted_limit_def)
  next
    case False
    then show ?thesis using c w by (simp add: adjust_simps)
  qed
qed

lemma gauge_ok_step:
  assumes "life_step M h handler x x'" "gauge_ok x" "limits_within B (al_ctl x)" "ctl_bg_ok (al_ctl x) (al_bg x)"
  shows "gauge_ok x'"
  using assms(1)
proof cases
  case (lf_sched a y)
  then show ?thesis using assms(2) exec_ctl_frame(3) [OF lf_sched(2)] by (simp add: gauge_ok_def split: option.splits prod.splits)
next
  case (lf_adjust now c ch sig)
  have kind: "c_kind (al_ctl x) = ControllerAdaptive" using lf_adjust(2) assms(4) by (auto simp: ctl_bg_ok_def controller_bg_def split: if_splits)
  show ?thesis
    using adjust_reports [OF assms(3) kind lf_adjust(4)] lf_adjust(1-3) assms(2) by (auto simp: gauge_ok_def)
next
  case (lf_notify ol)
  then show ?thesis
    using assms(2) by (cases ol) (auto simp: gauge_ok_def notify_limit_def on_limit_change_def limit_gauge_append)
next
  case (lf_exit b)
  then show ?thesis using assms(2) by (simp add: gauge_ok_def)
next
  case (lf_cleanup y)
  then show ?thesis using assms(2) exec_ctl_frame(3) [OF lf_cleanup(3)] by (simp add: gauge_ok_def split: option.splits prod.splits)
next
  case lf_move
  then show ?thesis
  proof cases
    case (cm_stop_controller b)
    then have "g_live b = g_live (al_bg x)"
      by (auto simp: Controller_Stop_def stop_call_def close_once_def split: if_splits option.splits)
    then show ?thesis using cm_stop_controller(1) assms(2) by (auto simp: gauge_ok_def split: option.splits)
  qed (use assms(2) in \<open>auto simp: gauge_ok_def split: option.splits\<close>)
qed

text \<open>All of it, along a run that starts with a successful \<open>Provision\<close>.\<close>

definition life_inv :: "mathlib \<Rightarrow> int \<Rightarrow> QueueConfig \<Rightarrow> Controller \<Rightarrow> admission_life \<Rightarrow> bool" where
  "life_inv M B cfg c x \<longleftrightarrow> sched_reachable M (\<lambda>s. s \<noteq> NaN) cfg c (al_sched x)
     \<and> ctl_bg_ok (al_ctl x) (al_bg x) \<and> cleanup_order x \<and> gauge_ok x
     \<and> c_kind (al_ctl x) = c_kind c \<and> c_cfg (al_ctl x) = c_cfg c"

lemma life_inv_step:
  assumes "life_step M h handler x x'" "life_inv M B cfg c x" "limits_within B c" "c_inFlight c = 0"
  shows "life_inv M B cfg c x'"
proof -
  have x: "sched_reachable M (\<lambda>s. s \<noteq> NaN) cfg c (al_sched x)" "ctl_bg_ok (al_ctl x) (al_bg x)" "cleanup_order x" "gauge_ok x"
    using assms(2) by (simp_all add: life_inv_def)
  have "limits_within B (al_ctl x)" using cap_inv_reachable [OF x(1) assms(3,4)] by (simp add: cap_inv_def)
  moreover have "sched_reachable M (\<lambda>s. s \<noteq> NaN) cfg c (al_sched x')"
    using x(1) life_step_sched [OF assms(1) x(2)] unfolding sched_reachable_def by (rule rtranclp_trans)
  ultimately show ?thesis
    using assms(2) ctl_bg_ok_step [OF assms(1) x(2)] cleanup_order_step [OF assms(1) x(3,2)]
      gauge_ok_step [OF assms(1) x(4) _ x(2)] life_step_ctl [OF assms(1)]
    by (simp add: life_inv_def)
qed

lemma buildController_ticker: "buildController cc = Inr c \<Longrightarrow> c_kind c = ControllerAdaptive \<Longrightarrow> 0 < ac_AdjustInterval (c_cfg c)"
  by (auto simp: buildController_def NewFixedController_def NewAdaptiveController_def Let_def defaultAdjustInterval_def
      second_def split: if_splits)

lemma Provision_metrics:
  assumes "Provision h cfg app = Inr (handler, app', ms)"
  shows "ms = [MConcurrencyLimit (backendLabel cfg) (c_limit (s_controller (ah_scheduler handler)))]"
    "ah_Config handler = cfg"
  using assms by (auto simp: Provision_def NewScheduler_def Let_def split: sum.splits option.splits app_lookup.splits)

lemma provisioned_start:
  assumes "Provision h cfg app = Inr (handler, app', ms)"
  obtains x where "provisioned handler app' ms = Some x" "al_app x = app'" "al_cleanup x = CRunning"
    "life_inv M B (queueConfig cfg) (s_controller (ah_scheduler handler)) x"
proof -
  let ?c = "s_controller (ah_scheduler handler)"
  let ?b = "if c_kind ?c = ControllerAdaptive then \<lparr>g_stopCh = OpenChan, g_stopOnce = False, g_wg = 1, g_live = [AdjustLoop]\<rparr> else controller_bg"
  let ?x = "\<lparr>al_sched = Scheduler_Start (ah_scheduler handler), al_bg = ?b,
    al_notify = Some (on_limit_change (ah_backend handler)), al_pending = None, al_metrics = ms, al_cleanup = CRunning, al_app = app'\<rparr>"
  have "Controller_Start ?c controller_bg = Some ?b"
    by (auto simp: Controller_Start_def controller_bg_def wg_Add_def go_worker_def)
  then have p: "provisioned handler app' ms = Some ?x" by (simp add: provisioned_def SetOnLimitChange_def)
  have "Scheduler_Start (ah_scheduler handler) = sched_init (queueConfig cfg) ?c"
    using Provision_Inr(2) [OF assms] Scheduler_Start_init by metis
  then have "life_inv M B (queueConfig cfg) ?c ?x"
    using Provision_metrics(1) [OF assms]
    by (auto simp: life_inv_def sched_reachable_def ctl_bg_ok_def bg_ok_def cleanup_order_def gauge_ok_def limit_gauge_def
        sched_init_def NewScheduler_def controller_bg_def)
  then show thesis using that [OF p] by simp
qed

lemma life_run:
  assumes "Provision h cfg app = Inr (handler, app', ms)"
    "cc_Kind (ad_Controller cfg) = controllerKindAdaptive \<longrightarrow> cc_MinConcurrency (ad_Controller cfg) \<le> cc_MaxConcurrency (ad_Controller cfg)"
    "configured_bound (ad_Controller cfg) \<le> 2 ^ 62"
    "provisioned handler app' ms = Some x0" "(life_step M h handler)\<^sup>*\<^sup>* x0 x"
  shows "life_inv M (configured_bound (ad_Controller cfg)) (queueConfig cfg) (s_controller (ah_scheduler handler)) x"
  using assms(5)
proof (induction rule: rtranclp_induct)
  case base
  show ?case using provisioned_start [OF assms(1)] assms(4) by (metis option.inject)
next
  case (step y z)
  then show ?case
    using life_inv_step [OF step.hyps(2)] buildController_within [OF Provision_Inr(1) [OF assms(1)]] assms(2,3) by blast
qed

text \<open>After the controller was stopped nothing moves any more but requests that are refused or wait.\<close>

lemma life_after:
  assumes "(life_step M h handler)\<^sup>*\<^sup>* x z" "life_inv M B cfg c x" "limits_within B c" "c_inFlight c = 0"
    "al_cleanup x \<in> {CUnregister, CDone}"
  shows "al_cleanup z \<in> {CUnregister, CDone} \<and> life_inv M B cfg c z \<and> c_limit (al_ctl z) = c_limit (al_ctl x)
    \<and> al_metrics z = al_metrics x \<and> y_granted (al_sched z) = y_granted (al_sched x)"
  using assms(1)
proof (induction rule: rtranclp_induct)
  case base
  show ?case using assms(2,5) by simp
next
  case (step y z)
  have ih: "al_cleanup y \<in> {CUnregister, CDone}" "cleanup_order y" "life_inv M B cfg c y" using step.IH by (simp_all add: life_inv_def)
  then have idle: "y_pc (al_sched y) = LDone" "g_live (al_bg y) = []" by (auto simp: cleanup_order_def)
  have grants: "y_granted w = y_granted (al_sched y)" if "exec_act M a (al_sched y) = Some w" for a w
    using that idle(1) by (cases a) (auto split: prod.splits option.splits if_splits)
  have "al_cleanup z \<in> {CUnregister, CDone} \<and> c_limit (al_ctl z) = c_limit (al_ctl y) \<and> al_metrics z = al_metrics y
      \<and> y_granted (al_sched z) = y_granted (al_sched y)"
    using step.hyps(2)
    by cases (use ih idle in \<open>auto simp: grants life_inv_def gauge_ok_def dest: exec_ctl_frame(3) elim: cleanup_move.cases\<close>)
  then show ?case using step.IH life_inv_step [OF step.hyps(2) ih(3) assms(3,4)] by simp
qed

section \<open>What is left to do after \<open>Cleanup\<close> was called\<close>

text \<open>
  When no request arrives any more and the adjustment loop does not begin another adjustment:
  the dispatch loop moves or a granted request returns (\<open>drain_step\<close>), the adjustment loop reports
  or leaves, \<open>Cleanup\<close> goes on.
\<close>

inductive closing_step :: "mathlib \<Rightarrow> handler_ptr \<Rightarrow> AdmissionHandler \<Rightarrow> admission_life \<Rightarrow> admission_life \<Rightarrow> bool"
  for M h handler where
  cl_drain: "drain_step M (al_sched x) y \<Longrightarrow> closing_step M h handler x (x\<lparr>al_sched := y\<rparr>)"
| cl_notify: "al_pending x = Some ol \<Longrightarrow>
    closing_step M h handler x (x\<lparr>al_metrics := al_metrics x @ notify_limit (al_notify x) ol, al_pending := None\<rparr>)"
| cl_exit: "al_pending x = None \<Longrightarrow> worker_exit AdjustLoop (al_bg x) = Some b \<Longrightarrow> closing_step M h handler x (x\<lparr>al_bg := b\<rparr>)"
| cl_move: "cleanup_move h handler x x' \<Longrightarrow> closing_step M h handler x x'"

lemma closing_step_life:
  assumes "closing_step M h handler x x'"
  shows "life_step M h handler x x'"
  using assms
proof cases
  case (cl_drain y)
  from cl_drain(2) obtain a where "exec_act M a (al_sched x) = Some y" "drain_act a"
  proof cases
    case dr_loop
    then show thesis using that [of ALoop] by simp
  next
    case (dr_finish k l st t)
    then show thesis using that [of "AFinish k l st t"] by simp
  qed
  then show ?thesis unfolding cl_drain(1) by (intro lf_sched) (auto simp: act_ok_def elim: drain_act.elims)
qed (auto intro: life_step.intros)

text \<open>How many such steps there can be.\<close>

fun phase_rank :: "cleanup_pc \<Rightarrow> nat" where
  "phase_rank CRunning = 5"
| "phase_rank CWaitScheduler = 4"
| "phase_rank CStopController = 3"
| "phase_rank CWaitController = 2"
| "phase_rank CUnregister = 1"
| "phase_rank CDone = 0"

definition closing_left :: "admission_life \<Rightarrow> nat" where
  "closing_left x = drain_left (al_sched x) + phase_rank (al_cleanup x) + length (g_live (al_bg x))
     + (if al_pending x = None then 0 else 1)"

lemma closing_step_frame:
  assumes "closing_step M h handler x x'" "life_inv M B cfg c x" "limits_within B c" "c_inFlight c = 0" "al_cleanup x \<noteq> CRunning"
  shows "closing_left x' < closing_left x \<and> al_cleanup x' \<noteq> CRunning \<and> life_inv M B cfg c x'
    \<and> y_leaked (al_sched x') = y_leaked (al_sched x) \<and> c_limit (al_ctl x') = c_limit (al_ctl x)"
proof -
  have inv: "life_inv M B cfg c x'" by (rule life_inv_step [OF closing_step_life [OF assms(1)] assms(2-4)])
  have x: "cleanup_order x" "ctl_bg_ok (al_ctl x) (al_bg x)" "drain_inv B cfg (al_sched x)"
    using assms(2) drain_inv_reachable [OF _ assms(3,4)] by (auto simp: life_inv_def)
  have stop: "s_stopped (y_s (al_sched x))" using x(1) assms(5) by (simp add: cleanup_order_def)
  from assms(1) have "closing_left x' < closing_left x \<and> al_cleanup x' \<noteq> CRunning
    \<and> y_leaked (al_sched x') = y_leaked (al_sched x) \<and> c_limit (al_ctl x') = c_limit (al_ctl x)"
  proof cases
    case (cl_drain y)
    then show ?thesis using drain_step_frame [OF cl_drain(2) x(3) stop] assms(5) by (simp add: closing_left_def)
  next
    case (cl_exit b)
    then have "AdjustLoop \<in> set (g_live (al_bg x))" "g_live b = remove1 AdjustLoop (g_live (al_bg x))"
      by (auto simp: worker_exit_def wg_Add_def split: if_splits)
    then show ?thesis using length_remove1_Suc [of AdjustLoop "g_live (al_bg x)"] cl_exit(1) assms(5)
      by (simp add: closing_left_def)
  next
    case cl_move
    then show ?thesis
    proof cases
      case (cm_stop_controller b)
      then have "g_live b = g_live (al_bg x)"
        by (auto simp: Controller_Stop_def stop_call_def close_once_def split: if_splits option.splits)
      then show ?thesis using cm_stop_controller(1,2) by (simp add: closing_left_def)
    qed (simp_all add: closing_left_def)
  qed (use assms(5) in \<open>simp_all add: closing_left_def\<close>)
  then show ?thesis using inv by simp
qed

lemma closing_run:
  assumes "(closing_step M h handler ^^ n) x x'" "life_inv M B cfg c x" "limits_within B c" "c_inFlight c = 0" "al_cleanup x \<noteq> CRunning"
  shows "n + closing_left x' \<le> closing_left x \<and> al_cleanup x' \<noteq> CRunning \<and> life_inv M B cfg c x'
    \<and> y_leaked (al_sched x') = y_leaked (al_sched x) \<and> c_limit (al_ctl x') = c_limit (al_ctl x)"
  using assms(1)
proof (induction n arbitrary: x')
  case (Suc n)
  then obtain z where z: "(closing_step M h handler ^^ n) x z" "closing_step M h handler z x'" by auto
  show ?case using Suc.IH [OF z(1)] closing_step_frame [OF z(2) _ assms(3,4)] by fastforce
qed (use assms in auto)

text \<open>With a unit of capacity that is not lost, nothing but the end of \<open>Cleanup\<close> is stuck.\<close>

lemma closing_stuck:
  assumes "life_inv M B cfg c x" "limits_within B c" "c_inFlight c = 0" "al_cleanup x \<noteq> CRunning"
    "int (y_leaked (al_sched x)) < c_limit (al_ctl x)" "\<And>z. \<not> closing_step M h handler x z"
  shows "al_cleanup x = CDone \<and> y_pc (al_sched x) = LDone \<and> y_running (al_sched x) = []"
proof -
  have x: "cleanup_order x" "ctl_bg_ok (al_ctl x) (al_bg x)" "drain_inv B cfg (al_sched x)"
    using assms(1) drain_inv_reachable [OF _ assms(2,3)] by (auto simp: life_inv_def)
  have "s_stopped (y_s (al_sched x))" using x(1) assms(4) by (simp add: cleanup_order_def)
  moreover have "\<not> drain_step M (al_sched x) y" for y using assms(6) cl_drain by blast
  ultimately have done_loop: "y_pc (al_sched x) = LDone" "y_running (al_sched x) = []" using drain_stuck [OF x(3)] assms(5) by auto
  have still: "\<not> cleanup_move h handler x z" for z using assms(6) cl_move by blast
  have pend: "al_pending x = None" using assms(6) cl_notify [of x] by (cases "al_pending x") blast+
  have "al_cleanup x \<noteq> CStopController"
  proof
    assume s: "al_cleanup x = CStopController"
    have "Controller_Stop (al_ctl x) (al_bg x) \<noteq> StopPanics"
      using x(2) close_once_ok [of "al_bg x"]
      by (auto simp: Controller_Stop_def stop_call_def ctl_bg_ok_def split: if_splits option.splits)
    then show False
      using still cm_nothing_to_stop [OF s] cm_stop_controller [OF s] by (cases "Controller_Stop (al_ctl x) (al_bg x)") blast+
  qed
  moreover have "al_cleanup x \<noteq> CWaitController"
  proof
    assume s: "al_cleanup x = CWaitController"
    then have b: "bg_ok (al_bg x)" "g_stopCh (al_bg x) = ClosedChan"
      using x by (auto simp: cleanup_order_def ctl_bg_ok_def controller_bg_def split: if_splits)
    have "AdjustLoop \<notin> set (g_live (al_bg x))"
      using worker_exit_defined [OF b(1) _ b(2)] cl_exit [OF pend] assms(6) by metis
    then have "g_live (al_bg x) = []" using ctl_worker.exhaust by (metis list.set_intros(1) neq_Nil_conv)
    then have "g_wg (al_bg x) = 0" using b(1) by (simp add: bg_ok_def)
    then show False using still cm_controller_stopped [OF s] by blast
  qed
  moreover have "al_cleanup x \<noteq> CWaitScheduler" using still cm_scheduler_stopped done_loop(1) by blast
  moreover have "al_cleanup x \<noteq> CUnregister" using still cm_unregister by blast
  ultimately show ?thesis using assms(4) done_loop by (cases "al_cleanup x") auto
qed

text \<open>What the theorems ask of a configuration: a minimum that is not above the maximum, and no limit beyond 2 to the 62.\<close>

definition bounds_ok :: "ControllerConfig \<Rightarrow> bool" where
  "bounds_ok cc \<longleftrightarrow> (cc_Kind cc = controllerKindAdaptive \<longrightarrow> cc_MinConcurrency cc \<le> cc_MaxConcurrency cc)
     \<and> configured_bound cc \<le> 2 ^ 62"

section \<open>A concrete life\<close>

text \<open>A deterministic driver: every action it takes is a step.\<close>

datatype life_act = LSched act | LAdjust time | LNotify | LExit | LCleanup

fun exec_life :: "mathlib \<Rightarrow> handler_ptr \<Rightarrow> AdmissionHandler \<Rightarrow> life_act \<Rightarrow> admission_life \<Rightarrow> admission_life option" where
  "exec_life M h handler (LSched a) x =
    (if a = AStop \<or> \<not> act_ok (\<lambda>s. s \<noteq> NaN) a then None
     else map_option (\<lambda>y. x\<lparr>al_sched := y\<rparr>) (exec_act M a (al_sched x)))"
| "exec_life M h handler (LAdjust now) x =
    (if AdjustLoop \<in> set (g_live (al_bg x)) \<and> al_pending x = None then
       (case adjust M now (al_ctl x) of (c, ch, sig) \<Rightarrow> Some (x\<lparr>al_sched := set_ctl c (al_sched x), al_pending := ch\<rparr>))
     else None)"
| "exec_life M h handler LNotify x = (case al_pending x of
      None \<Rightarrow> None
    | Some ol \<Rightarrow> Some (x\<lparr>al_metrics := al_metrics x @ notify_limit (al_notify x) ol, al_pending := None\<rparr>))"
| "exec_life M h handler LExit x =
    (if al_pending x = None then map_option (\<lambda>b. x\<lparr>al_bg := b\<rparr>) (worker_exit AdjustLoop (al_bg x)) else None)"
| "exec_life M h handler LCleanup x = (case al_cleanup x of
      CRunning \<Rightarrow> map_option (\<lambda>y. x\<lparr>al_sched := y, al_cleanup := CWaitScheduler\<rparr>) (exec_act M AStop (al_sched x))
    | CWaitScheduler \<Rightarrow> if y_pc (al_sched x) = LDone then Some (x\<lparr>al_cleanup := CStopController\<rparr>) else None
    | CStopController \<Rightarrow> (case Controller_Stop (al_ctl x) (al_bg x) of
          StopReturns \<Rightarrow> Some (x\<lparr>al_cleanup := CUnregister\<rparr>)
        | StopPanics \<Rightarrow> None
        | StopWaits b \<Rightarrow> Some (x\<lparr>al_bg := b, al_cleanup := CWaitController\<rparr>))
    | CWaitController \<Rightarrow> if g_wg (al_bg x) = 0 then Some (x\<lparr>al_cleanup := CUnregister\<rparr>) else None
    | CUnregister \<Rightarrow> Some (x\<lparr>al_cleanup := CDone,
        al_app := map_option (unregisterHandler (backendLabel (ah_Config handler)) h) (al_app x)\<rparr>)
    | CDone \<Rightarrow> None)"

lemma exec_life_step: "exec_life M h handler a x = Some x' \<Longrightarrow> life_step M h handler x x'"
  by (cases a)
    (auto simp del: exec_act.simps split: if_splits prod.splits option.splits cleanup_pc.splits stop_call.splits
      intro: life_step.intros cleanup_move.intros)

fun exec_lives :: "mathlib \<Rightarrow> handler_ptr \<Rightarrow> AdmissionHandler \<Rightarrow> life_act list \<Rightarrow> admission_life \<Rightarrow> admission_life option" where
  "exec_lives M h handler [] x = Some x"
| "exec_lives M h handler (a # as) x =
    (case exec_life M h handler a x of None \<Rightarrow> None | Some x' \<Rightarrow> exec_lives M h handler as x')"

lemma exec_lives_steps: "exec_lives M h handler as x = Some x' \<Longrightarrow> (life_step M h handler)\<^sup>*\<^sup>* x x'"
proof (induction as arbitrary: x)
  case (Cons a as)
  then obtain z where z: "exec_life M h handler a x = Some z" "exec_lives M h handler as z = Some x'" by (auto split: option.splits)
  show ?case by (rule converse_rtranclp_into_rtranclp [OF exec_life_step [OF z(1)] Cons.IH [OF z(2)]])
qed simp

text \<open>
  An adaptive handler serves one request that fails, shrinks its limit from 4 to 3, and is
  cleaned up.
\<close>

definition demo_adaptive :: AdmissionConfig where
  "demo_adaptive = \<lparr>ad_Backend = ''api'',
     ad_Controller = \<lparr>cc_Kind = ''adaptive'', cc_Limit = 0, cc_MinConcurrency = 2, cc_InitialConcurrency = 4,
       cc_MaxConcurrency = 10, cc_TargetP95 = 0, cc_TimeoutRateThreshold = Fin 0, cc_ErrorRateThreshold = Fin 0,
       cc_AdjustInterval = 0\<rparr>,
     ad_QueueMaxSize = 4, ad_QueueTimeout = 0\<rparr>"

definition demo_handler :: AdmissionHandler where
  "demo_handler = (case Provision 1 demo_adaptive None of Inr (handler, _, _) \<Rightarrow> handler)"

definition demo_life :: "life_act list \<Rightarrow> admission_life" where
  "demo_life as = the (exec_lives log2lib 1 demo_handler as
     (the (provisioned demo_handler None [MConcurrencyLimit ''api'' 4])))"

definition serving_acts :: "life_act list" where
  "serving_acts = map LSched [AEnqueue (Fin 5), ALoop, ALoop, ALoop, AFinish 1 5 500 False] @ [LAdjust 0, LNotify]"

definition closing_acts :: "life_act list" where
  "closing_acts = LCleanup # map LSched [ALoop, ALoop, ALoop] @ [LCleanup, LCleanup, LExit, LCleanup, LCleanup]"

lemma demo_handler_provisioned: "Provision 1 demo_adaptive None = Inr (demo_handler, None, [MConcurrencyLimit ''api'' 4])"
  by (simp add: demo_handler_def Provision_def buildController_def demo_adaptive_def controllerKindFixed_def
      controllerKindAdaptive_def backendLabel_def NewAdaptiveController_def Let_def)

lemma demo_life_runs:
  assumes "map_option f (exec_lives log2lib 1 demo_handler as (the (provisioned demo_handler None [MConcurrencyLimit ''api'' 4]))) = Some v"
  obtains x0 where "provisioned demo_handler None [MConcurrencyLimit ''api'' 4] = Some x0"
    "(life_step log2lib 1 demo_handler)\<^sup>*\<^sup>* x0 (demo_life as)" "f (demo_life as) = v"
proof -
  obtain x0 where x0: "provisioned demo_handler None [MConcurrencyLimit ''api'' 4] = Some x0"
    using provisioned_start [OF demo_handler_provisioned] by metis
  then have "exec_lives log2lib 1 demo_handler as x0 = Some (demo_life as)" using assms by (auto simp: demo_life_def)
  then show thesis using that [OF x0] exec_lives_steps assms x0 by auto
qed

lemma demo_serving: "map_option (\<lambda>x. (al_pending x, Limit (al_ctl x))) (exec_lives log2lib 1 demo_handler serving_acts
    (the (provisioned demo_handler None [MConcurrencyLimit ''api'' 4]))) = Some (None, 3)"
  by code_simp

lemma demo_waiting: "map_option (\<lambda>x. (al_cleanup x, y_leaked (al_sched x), Limit (al_ctl x)))
    (exec_lives log2lib 1 demo_handler [LCleanup] (the (provisioned demo_handler None [MConcurrencyLimit ''api'' 4])))
    = Some (CWaitScheduler, 0, 4)"
  by code_simp

lemma demo_closing: "map_option al_cleanup (exec_lives log2lib 1 demo_handler closing_acts
    (the (provisioned demo_handler None [MConcurrencyLimit ''api'' 4]))) = Some CDone"
  by code_simp

lemma demo_bounds: "bounds_ok (ad_Controller demo_adaptive)"
  by code_simp

section \<open>Properties\<close>

text \<open>
  C20: the \<open>concurrency_limit\<close> gauge follows the limit: from \<open>Provision\<close> on, at every moment of a
  handler's life, the value this handler last set the gauge to is the limit its controller
  enforces, except while the adjustment loop is between publishing a new limit and reporting it;
  then the gauge shows the limit that was replaced, the report due carries the old and the new one,
  and they differ. Once \<open>Cleanup\<close> has stopped the controller no report is due, so the last value
  is exact. (Handlers of one backend share the series, so what is shown is the value of whichever
  reported last.)
\<close>

theorem limit_gauge_lags_one_report:
  assumes "Provision h cfg app = Inr (handler, app', ms)" "bounds_ok (ad_Controller cfg)"
    "provisioned handler app' ms = Some x0" "(life_step M h handler)\<^sup>*\<^sup>* x0 x"
  shows "(case al_pending x of
        None \<Rightarrow> limit_gauge (al_metrics x) = Some (Limit (al_ctl x))
      | Some (old, new) \<Rightarrow> limit_gauge (al_metrics x) = Some old \<and> new = Limit (al_ctl x) \<and> old \<noteq> new
          \<and> AdjustLoop \<in> set (g_live (al_bg x)))
    \<and> (al_cleanup x \<in> {CUnregister, CDone} \<longrightarrow> al_pending x = None)"
proof -
  have "life_inv M (configured_bound (ad_Controller cfg)) (queueConfig cfg) (s_controller (ah_scheduler handler)) x"
    using life_run [OF assms(1) _ _ assms(3,4)] assms(2) by (simp add: bounds_ok_def)
  then show ?thesis
    by (auto simp: life_inv_def gauge_ok_def cleanup_order_def Limit_def split: option.splits)
qed

lemma demo_published: "map_option (\<lambda>x. al_pending x) (exec_lives log2lib 1 demo_handler (butlast serving_acts)
    (the (provisioned demo_handler None [MConcurrencyLimit ''api'' 4]))) = Some (Some (4, 3))"
  by code_simp

theorem limit_gauge_lags_one_report_witness:
  "limit_gauge (al_metrics (demo_life (butlast serving_acts))) = Some 4 \<and> Limit (al_ctl (demo_life (butlast serving_acts))) = 3
    \<and> limit_gauge (al_metrics (demo_life serving_acts)) = Some 3"
proof -
  obtain x0 where x0: "provisioned demo_handler None [MConcurrencyLimit ''api'' 4] = Some x0"
    "(life_step log2lib 1 demo_handler)\<^sup>*\<^sup>* x0 (demo_life (butlast serving_acts))"
    "al_pending (demo_life (butlast serving_acts)) = Some (4, 3)"
    using demo_life_runs [OF demo_published] by blast
  obtain x1 where x1: "provisioned demo_handler None [MConcurrencyLimit ''api'' 4] = Some x1"
    "(life_step log2lib 1 demo_handler)\<^sup>*\<^sup>* x1 (demo_life serving_acts)"
    "(al_pending (demo_life serving_acts), Limit (al_ctl (demo_life serving_acts))) = (None, 3)"
    using demo_life_runs [OF demo_serving] by blast
  show ?thesis
    using limit_gauge_lags_one_report [OF demo_handler_provisioned demo_bounds x0(1,2)] x0(3)
      limit_gauge_lags_one_report [OF demo_handler_provisioned demo_bounds x1(1,2)] x1(3) by simp
qed

text \<open>
  C9: \<open>Cleanup\<close> tears a handler down in order and completely: starting never panics, the controller
  is stopped only after the dispatch loop has returned, its channel is never closed twice, and
  from the moment \<open>Cleanup\<close> goes on to unregister no goroutine of the handler is left: the
  limit, the metrics of the adjustment loop and the sequence of grants never change again.
\<close>

theorem cleanup_leaves_no_goroutine:
  assumes "Provision h cfg app = Inr (handler, app', ms)" "bounds_ok (ad_Controller cfg)"
    "provisioned handler app' ms = Some x0" "(life_step M h handler)\<^sup>*\<^sup>* x0 x"
  shows "(Kind (al_ctl x) = ControllerAdaptive \<longrightarrow> adjust_ticker (al_ctl x) \<noteq> None)
    \<and> Controller_Stop (al_ctl x) (al_bg x) \<noteq> StopPanics
    \<and> (g_stopCh (al_bg x) = ClosedChan \<longrightarrow> y_pc (al_sched x) = LDone)
    \<and> (al_cleanup x \<in> {CUnregister, CDone} \<longrightarrow> y_pc (al_sched x) = LDone \<and> g_live (al_bg x) = []
        \<and> (\<forall>z. (life_step M h handler)\<^sup>*\<^sup>* x z \<longrightarrow> Limit (al_ctl z) = Limit (al_ctl x) \<and> al_metrics z = al_metrics x
            \<and> y_granted (al_sched z) = y_granted (al_sched x)))"
proof -
  let ?c = "s_controller (ah_scheduler handler)" and ?B = "configured_bound (ad_Controller cfg)"
  have inv: "life_inv M ?B (queueConfig cfg) ?c x"
    using life_run [OF assms(1) _ _ assms(3,4)] assms(2) by (simp add: bounds_ok_def)
  have b: "buildController (ad_Controller cfg) = Inr ?c" by (rule Provision_Inr(1) [OF assms(1)])
  have w: "limits_within ?B ?c" "c_inFlight ?c = 0"
    using buildController_within [OF b] assms(2) by (simp_all add: bounds_ok_def)
  have o: "cleanup_order x" "ctl_bg_ok (al_ctl x) (al_bg x)" using inv by (simp_all add: life_inv_def)
  have "adjust_ticker (al_ctl x) \<noteq> None" if "Kind (al_ctl x) = ControllerAdaptive"
    using that inv buildController_ticker [OF b] by (auto simp: adjust_ticker_def NewTicker_def life_inv_def Kind_def)
  moreover have "Controller_Stop (al_ctl x) (al_bg x) \<noteq> StopPanics"
    using o(2) close_once_ok [of "al_bg x"]
    by (auto simp: Controller_Stop_def stop_call_def ctl_bg_ok_def split: if_splits option.splits)
  moreover have "g_stopCh (al_bg x) = ClosedChan \<Longrightarrow> y_pc (al_sched x) = LDone" using o(1) by (auto simp: cleanup_order_def)
  moreover have "y_pc (al_sched x) = LDone \<and> g_live (al_bg x) = []" if "al_cleanup x \<in> {CUnregister, CDone}"
    using that o(1) by (auto simp: cleanup_order_def)
  moreover have "Limit (al_ctl z) = Limit (al_ctl x) \<and> al_metrics z = al_metrics x \<and> y_granted (al_sched z) = y_granted (al_sched x)"
    if "al_cleanup x \<in> {CUnregister, CDone}" "(life_step M h handler)\<^sup>*\<^sup>* x z" for z
    using life_after [OF that(2) inv w that(1)] by (simp add: Limit_def)
  ultimately show ?thesis by blast
qed

theorem cleanup_leaves_no_goroutine_witness:
  "y_pc (al_sched (demo_life closing_acts)) = LDone \<and> g_live (al_bg (demo_life closing_acts)) = []
    \<and> al_cleanup (demo_life closing_acts) = CDone"
proof -
  obtain x0 where x0: "provisioned demo_handler None [MConcurrencyLimit ''api'' 4] = Some x0"
    "(life_step log2lib 1 demo_handler)\<^sup>*\<^sup>* x0 (demo_life closing_acts)" "al_cleanup (demo_life closing_acts) = CDone"
    using demo_life_runs [OF demo_closing] by blast
  then have "al_cleanup (demo_life closing_acts) \<in> {CUnregister, CDone}" by simp
  then show ?thesis using cleanup_leaves_no_goroutine [OF demo_handler_provisioned demo_bounds x0(1,2)] x0(3) by blast
qed

text \<open>
  C21: \<open>Cleanup\<close> returns, unless panics have eaten the capacity: once it has been called, and with
  more units of capacity than panics have lost, the steps of the handler's own goroutines and the
  returns of the requests that were granted (no new request, no new adjustment) are at most
  \<open>closing_left\<close> many, in whatever order they come, and when none is possible any more
  \<open>Cleanup\<close> is at its end, the dispatch loop has returned and no request is running.
\<close>

theorem cleanup_returns:
  assumes "Provision h cfg app = Inr (handler, app', ms)" "bounds_ok (ad_Controller cfg)"
    "provisioned handler app' ms = Some x0" "(life_step M h handler)\<^sup>*\<^sup>* x0 x"
    "al_cleanup x \<noteq> CRunning" "int (y_leaked (al_sched x)) < Limit (al_ctl x)"
    "(closing_step M h handler ^^ n) x z"
  shows "n \<le> closing_left x
    \<and> ((\<forall>z'. \<not> closing_step M h handler z z') \<longrightarrow>
        al_cleanup z = CDone \<and> y_pc (al_sched z) = LDone \<and> y_running (al_sched z) = [])"
proof -
  let ?c = "s_controller (ah_scheduler handler)" and ?B = "configured_bound (ad_Controller cfg)"
  have inv: "life_inv M ?B (queueConfig cfg) ?c x"
    using life_run [OF assms(1) _ _ assms(3,4)] assms(2) by (simp add: bounds_ok_def)
  have w: "limits_within ?B ?c" "c_inFlight ?c = 0"
    using buildController_within [OF Provision_Inr(1) [OF assms(1)]] assms(2) by (simp_all add: bounds_ok_def)
  note run = closing_run [OF assms(7) inv w assms(5)]
  then show ?thesis using closing_stuck [OF _ w, of M "queueConfig cfg" z h handler] assms(6) by (auto simp: Limit_def)
qed

text \<open>The run of the witness: everything after the call is a closing step.\<close>

fun closing_act :: "life_act \<Rightarrow> bool" where
  "closing_act (LSched a) = drain_act a"
| "closing_act (LAdjust now) = False"
| "closing_act LNotify = True"
| "closing_act LExit = True"
| "closing_act LCleanup = True"

lemma exec_closing_step:
  assumes "exec_life M h handler a x = Some x'" "closing_act a" "al_cleanup x \<noteq> CRunning"
  shows "closing_step M h handler x x' \<and> al_cleanup x' \<noteq> CRunning"
proof (cases a)
  case (LSched b)
  then obtain y where y: "exec_act M b (al_sched x) = Some y" "x' = x\<lparr>al_sched := y\<rparr>" "drain_act b"
    using assms(1,2) by (auto simp del: exec_act.simps split: if_splits)
  then show ?thesis using cl_drain [OF drain_exec_step [OF y(1,3)]] assms(3) by simp
next
  case LCleanup
  then have "cleanup_move h handler x x' \<and> al_cleanup x' \<noteq> CRunning"
    using assms(1,3) by (auto split: cleanup_pc.splits stop_call.splits if_splits intro: cleanup_move.intros)
  then show ?thesis using cl_move by blast
qed (use assms in \<open>auto split: if_splits option.splits intro: closing_step.intros\<close>)

lemma exec_closing_steps:
  "exec_lives M h handler as x = Some x' \<Longrightarrow> list_all closing_act as \<Longrightarrow> al_cleanup x \<noteq> CRunning \<Longrightarrow>
    (closing_step M h handler ^^ length as) x x'"
proof (induction as arbitrary: x)
  case (Cons a as)
  then obtain z where z: "exec_life M h handler a x = Some z" "exec_lives M h handler as z = Some x'" by (auto split: option.splits)
  have "closing_step M h handler x z" "(closing_step M h handler ^^ length as) z x'"
    using exec_closing_step [OF z(1)] Cons.IH [OF z(2)] Cons.prems(2,3) by simp_all
  then show ?case by (metis length_Cons relpowp_Suc_I2)
qed simp

lemma demo_closed: "map_option (\<lambda>x. (al_cleanup x, y_pc (al_sched x), y_running (al_sched x), al_pending x, g_live (al_bg x)))
    (exec_lives log2lib 1 demo_handler (tl closing_acts) (demo_life [LCleanup])) = Some (CDone, LDone, [], None, [])"
  "closing_left (demo_life [LCleanup]) = 8" "list_all closing_act (tl closing_acts)" "length (tl closing_acts) = 8"
  by code_simp+

theorem cleanup_returns_witness:
  "\<exists>z. (closing_step log2lib 1 demo_handler ^^ 8) (demo_life [LCleanup]) z \<and> al_cleanup z = CDone"
proof -
  obtain x0 where x0: "provisioned demo_handler None [MConcurrencyLimit ''api'' 4] = Some x0"
    "(life_step log2lib 1 demo_handler)\<^sup>*\<^sup>* x0 (demo_life [LCleanup])"
    "(al_cleanup (demo_life [LCleanup]), y_leaked (al_sched (demo_life [LCleanup])), Limit (al_ctl (demo_life [LCleanup])))
      = (CWaitScheduler, 0, 4)"
    using demo_life_runs [OF demo_waiting] by blast
  obtain z where z: "exec_lives log2lib 1 demo_handler (tl closing_acts) (demo_life [LCleanup]) = Some z"
    "y_pc (al_sched z) = LDone" "y_running (al_sched z) = []" "al_pending z = None" "g_live (al_bg z) = []" "al_cleanup z = CDone"
    using demo_closed(1) by auto
  have run: "(closing_step log2lib 1 demo_handler ^^ 8) (demo_life [LCleanup]) z"
    using exec_closing_steps [OF z(1) demo_closed(3)] x0(3) demo_closed(4) by simp
  have "\<not> closing_step log2lib 1 demo_handler z z'" for z'
    using z(2-6) by (auto elim!: closing_step.cases cleanup_move.cases drain_step.cases simp: worker_exit_def)
  then show ?thesis
    using cleanup_returns [OF demo_handler_provisioned demo_bounds x0(1,2) _ _ run] x0(3) run by auto
qed

end
