(* ===== verification/Scoring_Lifecycle.thy ===== *)
theory Scoring_Lifecycle imports Background Scoring_Properties begin

text \<open>
  The concurrent life of the scoring state (\<^verbatim>\<open>fairness/scoring.go\<close>): \<open>track\<close>, \<open>tick\<close> and \<open>gc\<close>
  lock one dimension at a time, so what interleaves are their critical sections, one per
  dimension; the two ticker goroutines are started by \<open>start\<close> and stopped by \<open>stop\<close>.
\<close>

section \<open>Critical sections\<close>

text \<open>\<open>sweep_dim\<close> is the body of the loop of \<open>gc\<close>.\<close>

definition sweep_dim :: "time \<Rightarrow> string \<Rightarrow> scoringState \<Rightarrow> scoringState" where
  "sweep_dim now dm s = s\<lparr>ss_dims :=
     map_put dm (filter (\<lambda>(key, e). \<not> ss_idleTTL s < time_Sub now (cs_LastSeen e)) (dim_entries s dm)) (ss_dims s)\<rparr>"

datatype scoring_cs = CsTrack Classification time string | CsTick string PenaltyConfig | CsSweep time string

fun run_cs :: "scoring_cs \<Rightarrow> scoringState \<Rightarrow> scoringState" where
  "run_cs (CsTrack c now dm) s = track_dim c now dm s"
| "run_cs (CsTick dm pc) s = tick_dim dm pc s"
| "run_cs (CsSweep now dm) s = sweep_dim now dm s"

lemma track_sections: "track c now (Some s) = Some (fold run_cs (map (\<lambda>(dm, _). CsTrack c now dm) (sc_Dimensions (ss_cfg s))) s)"
proof -
  have "fold (\<lambda>(dm, _). track_dim c now dm) ds t = fold run_cs (map (\<lambda>(dm, _). CsTrack c now dm) ds) t"
    for ds :: "(string \<times> PenaltyConfig) list" and t
    by (induction ds arbitrary: t) auto
  then show ?thesis by (simp add: track_def)
qed

lemma tick_sections: "tick now (Some s) = Some (fold run_cs (map (\<lambda>(dm, pc). CsTick dm pc) (sc_Dimensions (ss_cfg s))) s)"
proof -
  have "fold (\<lambda>(dm, pc). tick_dim dm pc) ds t = fold run_cs (map (\<lambda>(dm, pc). CsTick dm pc) ds) t" for ds t
    by (induction ds arbitrary: t) auto
  then show ?thesis by (simp add: tick_def)
qed

lemma sweep_dim_simps:
  "dim_entries (sweep_dim now d s) dm =
    (if dm = d then filter (\<lambda>(key, e). \<not> ss_idleTTL s < time_Sub now (cs_LastSeen e)) (dim_entries s d) else dim_entries s dm)"
  "ss_cfg (sweep_dim now d s) = ss_cfg s" "ss_idleTTL (sweep_dim now d s) = ss_idleTTL s"
  "ss_tickInterval (sweep_dim now d s) = ss_tickInterval s"
  by (simp_all add: sweep_dim_def)

lemma run_cs_frame [simp]:
  "ss_cfg (run_cs a s) = ss_cfg s" "ss_idleTTL (run_cs a s) = ss_idleTTL s" "ss_tickInterval (run_cs a s) = ss_tickInterval s"
  by (cases a; simp add: sweep_dim_simps track_dim_touch split: option.split)+

lemma run_cs_wf:
  assumes "ss_wf s"
  shows "ss_wf (run_cs a s)"
proof (cases a)
  case (CsTrack c now d)
  then show ?thesis using assms by (simp add: track_dim_touch ss_wf_touch split: option.split)
next
  case (CsTick dm pc)
  then show ?thesis using assms by (auto simp: ss_wf_def tick_dim_entries wf_map_def comp_def case_prod_beta)
next
  case (CsSweep now d)
  then show ?thesis using assms by (simp add: ss_wf_def sweep_dim_simps)
qed

text \<open>The sections of one pass of \<open>gc\<close> give the same entries as the pass.\<close>

lemma sweep_sections:
  assumes "wf_map (ss_dims s)"
  shows "dim_entries (fold run_cs (map (\<lambda>(dm, _). CsSweep now dm) (ss_dims s)) s) dm = dim_entries (the (gc now (Some s))) dm"
proof -
  have "dim_entries (fold run_cs (map (\<lambda>(dm, _). CsSweep now dm) ds) t) dm =
      (if dm \<in> fst ` set ds then filter (\<lambda>(key, e). \<not> ss_idleTTL t < time_Sub now (cs_LastSeen e)) (dim_entries t dm) else dim_entries t dm)"
    if "wf_map ds" for ds :: "(string \<times> dimensionMap) list" and t
    using that
  proof (induction ds arbitrary: t)
    case (Cons d ds)
    obtain d' m where d: "d = (d', m)" by (cases d)
    have "wf_map ds" "d' \<notin> fst ` set ds" using Cons.prems by (auto simp: wf_map_def d)
    then show ?case using Cons.IH [of "run_cs (CsSweep now d') t"] by (simp add: sweep_dim_simps d)
  qed simp
  moreover have "dim_entries s dm = []" if "dm \<notin> fst ` set (ss_dims s)"
    using that by (force simp: dim_entries_def dest: map_of_SomeD split: option.split)
  ultimately show ?thesis using assms by (simp add: gc_entries)
qed

section \<open>What a run of critical sections amounts to\<close>

text \<open>
  The history of one entity, read off the sections alone: when it was seen last, how many of its
  requests fell into each finished tick period (with the weight the tick used) since it is known,
  and how many came since the last tick; beside it the requests of earlier lives that ended by
  more than \<open>idle\<close> without a request.
\<close>

record life_history =
  lh_seen :: time
  lh_periods :: "(f64 \<times> int) list"
  lh_open :: int

definition requests_of :: "life_history option \<Rightarrow> int" where
  "requests_of h = (case h of None \<Rightarrow> 0 | Some h \<Rightarrow> sum_list (map snd (lh_periods h)) + lh_open h)"

definition counts_for :: "string \<Rightarrow> string \<Rightarrow> scoring_cs \<Rightarrow> bool" where
  "counts_for dm key a = (case a of CsTrack c now d \<Rightarrow> d = dm \<and> dimensionKey dm c = Some key | _ \<Rightarrow> False)"

fun note_section :: "duration \<Rightarrow> string \<Rightarrow> string \<Rightarrow> scoring_cs \<Rightarrow> int \<times> life_history option \<Rightarrow> int \<times> life_history option" where
  "note_section idle dm key (CsTrack c now d) (gone, h) =
    (if d = dm \<and> dimensionKey dm c = Some key
     then (gone, Some (case h of None \<Rightarrow> \<lparr>lh_seen = now, lh_periods = [], lh_open = 1\<rparr>
       | Some l \<Rightarrow> l\<lparr>lh_seen := now, lh_open := lh_open l + 1\<rparr>))
     else (gone, h))"
| "note_section idle dm key (CsTick d pc) (gone, h) =
    (if d = dm then (gone, map_option (\<lambda>l. l\<lparr>lh_periods := lh_periods l @ [(pc_Alpha pc, lh_open l)], lh_open := 0\<rparr>) h)
     else (gone, h))"
| "note_section idle dm key (CsSweep now d) (gone, h) =
    (if d = dm \<and> (case h of None \<Rightarrow> False | Some l \<Rightarrow> idle < time_Sub now (lh_seen l))
     then (gone + requests_of h, None) else (gone, h))"

definition history_of :: "duration \<Rightarrow> string \<Rightarrow> string \<Rightarrow> scoring_cs list \<Rightarrow> int \<times> life_history option" where
  "history_of idle dm key as = fold (note_section idle dm key) as (0, None)"

text \<open>The exponentially weighted average of the rates of some periods, oldest first.\<close>

definition ewma :: "f64 \<Rightarrow> (f64 \<times> int) list \<Rightarrow> f64" where
  "ewma seconds ps =
    fold (\<lambda>(alpha, n) avg. fadd (fmul alpha (fdiv (f64_of_int n) seconds)) (fmul (fsub (Fin 1) alpha) avg)) ps (Fin 0)"

text \<open>What an entry says and what its history says.\<close>

definition agrees :: "f64 \<Rightarrow> ClientStats option \<Rightarrow> life_history option \<Rightarrow> bool" where
  "agrees seconds e h \<longleftrightarrow> (case e of None \<Rightarrow> h = None
     | Some e \<Rightarrow> (case h of None \<Rightarrow> False
        | Some l \<Rightarrow> cs_LastSeen e = lh_seen l \<and> cs_pending e = lh_open l \<and> cs_EWMARPS e = ewma seconds (lh_periods l)))"

lemma entry_track_dim:
  "entry (track_dim c now d s) dm key =
    (if d = dm \<and> dimensionKey dm c = Some key
     then Some (let e = (case entry s dm key of None \<Rightarrow> zeroClientStats | Some e \<Rightarrow> e)
       in e\<lparr>cs_LastSeen := now, cs_pending := wrap64 (cs_pending e + 1)\<rparr>)
     else entry s dm key)"
  by (auto simp: track_dim_touch stats.look_touch seen_def Let_def split: option.split)

lemma entry_tick_dim:
  "entry (tick_dim d pc s) dm key =
    (if d = dm then map_option (tick_entry (Seconds (ss_tickInterval s)) (pc_Alpha pc)) (entry s dm key) else entry s dm key)"
  by (simp add: entry_def tick_dim_entries map_get_map)

lemma entry_sweep_dim:
  assumes "ss_wf s"
  shows "entry (sweep_dim now d s) dm key =
    (if d = dm \<and> (\<exists>e. entry s dm key = Some e \<and> ss_idleTTL s < time_Sub now (cs_LastSeen e)) then None else entry s dm key)"
proof -
  have "wf_map (dim_entries s d)" using assms by (simp add: ss_wf_def)
  then show ?thesis
    using map_get_filter [of "dim_entries s d" "\<lambda>e. \<not> ss_idleTTL s < time_Sub now (cs_LastSeen e)" key]
    by (auto simp: entry_def sweep_dim_simps split: option.splits)
qed

text \<open>One section: the history keeps agreeing with the entry, and gains the requests that were counted.\<close>

definition history_inv :: "string \<Rightarrow> string \<Rightarrow> scoringState \<Rightarrow> int \<Rightarrow> int \<times> life_history option \<Rightarrow> bool" where
  "history_inv dm key s k p \<longleftrightarrow> (case p of (gone, h) \<Rightarrow>
     ss_wf s \<and> agrees (Seconds (ss_tickInterval s)) (entry s dm key) h \<and> gone + requests_of h = k \<and> 0 \<le> gone
     \<and> (case h of None \<Rightarrow> True | Some l \<Rightarrow> 0 \<le> lh_open l \<and> list_all (\<lambda>p. 0 \<le> snd p) (lh_periods l)))"

lemma ewma_snoc: "ewma seconds (ps @ [(alpha, n)]) =
    fadd (fmul alpha (fdiv (f64_of_int n) seconds)) (fmul (fsub (Fin 1) alpha) (ewma seconds ps))"
  by (simp add: ewma_def)

lemma open_le_requests: "list_all (\<lambda>p. 0 \<le> snd p) (lh_periods l) \<Longrightarrow> lh_open l \<le> requests_of (Some l)"
  by (auto simp: requests_of_def list_all_iff intro!: sum_list_nonneg)

lemma history_inv_step:
  assumes "history_inv dm key s k p" "k < 2 ^ 63 - 1"
  shows "history_inv dm key (run_cs a s) (k + (if counts_for dm key a then 1 else 0)) (note_section (ss_idleTTL s) dm key a p)"
proof -
  obtain gone h where p: "p = (gone, h)" by (cases p)
  have inv: "ss_wf s" "agrees (Seconds (ss_tickInterval s)) (entry s dm key) h" "gone + requests_of h = k" "0 \<le> gone"
    "case h of None \<Rightarrow> True | Some l \<Rightarrow> 0 \<le> lh_open l \<and> list_all (\<lambda>p. 0 \<le> snd p) (lh_periods l)"
    using assms(1) by (simp_all add: history_inv_def p)
  have w: "wrap64 (lh_open l + 1) = lh_open l + 1" if "h = Some l" for l
    using inv(3-5) open_le_requests [of l] assms(2) that by (intro wrap64_id) (auto simp: in_int64_def)
  note wf = run_cs_wf [OF inv(1), of a]
  show ?thesis
  proof (cases a)
    case (CsTrack c now d)
    have iv: "ss_tickInterval (track_dim c now d s) = ss_tickInterval s" using run_cs_frame(3) [of "CsTrack c now d" s] by simp
    show ?thesis
    proof (cases "entry s dm key")
      case None
      then have "h = None" using inv(2) by (simp add: agrees_def)
      then show ?thesis
        using CsTrack None inv wf iv by (auto simp: history_inv_def p agrees_def entry_track_dim counts_for_def requests_of_def
            zeroClientStats_def ewma_def wrap64_id in_int64_def split: option.splits)
    next
      case (Some e)
      then obtain l where "h = Some l" using inv(2) by (auto simp: agrees_def split: option.splits)
      then show ?thesis
        using CsTrack Some inv w wf iv by (auto simp: history_inv_def p agrees_def entry_track_dim counts_for_def requests_of_def)
    qed
  next
    case (CsTick d pc)
    then show ?thesis
      using inv wf by (auto simp: history_inv_def p agrees_def entry_tick_dim counts_for_def requests_of_def tick_entry_def
          ewma_snoc Let_def split: option.splits)
  next
    case (CsSweep now d)
    then show ?thesis
      using inv wf open_le_requests by (auto simp: history_inv_def p agrees_def entry_sweep_dim [OF inv(1)] counts_for_def
          requests_of_def sweep_dim_simps split: option.splits)
  qed
qed

lemma history_inv_run:
  assumes "history_inv dm key s k p" "k + int (length as) < 2 ^ 63"
  shows "history_inv dm key (fold run_cs as s) (k + int (length (filter (counts_for dm key) as)))
    (fold (note_section (ss_idleTTL s) dm key) as p)"
  using assms
proof (induction as arbitrary: s k p)
  case (Cons a as)
  have "k < 2 ^ 63 - 1" using Cons.prems(2) by simp
  from Cons.IH [OF history_inv_step [OF Cons.prems(1) this, of a]] Cons.prems(2) show ?case
    by (cases "counts_for dm key a") (simp_all del: run_cs.simps add: ac_simps)
qed simp

section \<open>Starting and stopping\<close>

datatype scoring_worker = EWMATicker | GCTicker

definition gcSweepInterval :: duration where "gcSweepInterval = minute"

text \<open>\<open>newScoringState\<close> makes the channel; nothing runs before \<open>start\<close>.\<close>

definition scoring_bg :: "scoring_worker bg" where
  "scoring_bg = \<lparr>g_stopCh = OpenChan, g_stopOnce = False, g_wg = 0, g_live = []\<rparr>"

definition scoring_start :: "scoringState option \<Rightarrow> scoring_worker bg \<Rightarrow> scoring_worker bg option" where
  "scoring_start s b =
    (case s of None \<Rightarrow> Some b
     | Some _ \<Rightarrow> map_option (\<lambda>b. go_worker GCTicker (go_worker EWMATicker b)) (wg_Add 2 b))"

text \<open>
  The tickers the two goroutines make, and one critical section of the pass of a tick: a pass of
  \<open>runEWMATicker\<close> ticks the configured dimensions in the order of the map, one of
  \<open>runGCTicker\<close> sweeps the dimensions that have a map.
\<close>

fun worker_ticker :: "scoringState \<Rightarrow> scoring_worker \<Rightarrow> duration option" where
  "worker_ticker s EWMATicker = NewTicker (ss_tickInterval s)"
| "worker_ticker s GCTicker = NewTicker gcSweepInterval"

fun worker_section :: "scoring_worker \<Rightarrow> time \<times> string \<Rightarrow> scoringState \<Rightarrow> scoringState" where
  "worker_section EWMATicker (now, dm) s =
    (case map_get (sc_Dimensions (ss_cfg s)) dm of None \<Rightarrow> s | Some pc \<Rightarrow> run_cs (CsTick dm pc) s)"
| "worker_section GCTicker (now, dm) s =
    (case map_get (ss_dims s) dm of None \<Rightarrow> s | Some _ \<Rightarrow> run_cs (CsSweep now dm) s)"

text \<open>What the caller of \<open>stop\<close> does before it waits; a nil receiver returns at once.\<close>

definition scoring_stop :: "scoringState option \<Rightarrow> scoring_worker bg \<Rightarrow> scoring_worker stop_call" where
  "scoring_stop s b = stop_call (s = None) b"

text \<open>The requests: one critical section of \<open>track\<close>.\<close>

definition track_op :: "scoringState \<Rightarrow> scoringState \<Rightarrow> bool" where
  "track_op s s' \<longleftrightarrow> (\<exists>c now dm. map_get (sc_Dimensions (ss_cfg s)) dm \<noteq> None \<and> s' = run_cs (CsTrack c now dm) s)"

abbreviation scoring_system :: "(scoring_worker, scoringState) bgsys \<Rightarrow> (scoring_worker, scoringState) bgsys \<Rightarrow> bool" where
  "scoring_system \<equiv> (bg_step worker_section track_op)\<^sup>*\<^sup>*"

definition scoring_inv :: "ScoringConfig \<Rightarrow> scoringState \<Rightarrow> bool" where
  "scoring_inv cfg s \<longleftrightarrow> ss_wf s \<and> ss_cfg s = cfg \<and> 0 < ss_tickInterval s"

lemma scoring_inv_cs: "scoring_inv cfg s \<Longrightarrow> scoring_inv cfg (run_cs a s)"
  by (simp add: scoring_inv_def run_cs_wf)

interpretation scbg: background worker_section track_op "scoring_inv cfg"
proof
  show "scoring_inv cfg (worker_section w i st)" if "scoring_inv cfg st" for st w i
    using that by (cases "(w, i, st)" rule: worker_section.cases)
      (auto simp: scoring_inv_cs simp del: run_cs.simps split: option.split)
  show "scoring_inv cfg st'" if "scoring_inv cfg st" "track_op st st'" for st st'
    using that scoring_inv_cs by (auto simp: track_op_def simp del: run_cs.simps)
qed

lemma scoring_start_ok:
  "scoring_start (Some s) scoring_bg = Some \<lparr>g_stopCh = OpenChan, g_stopOnce = False, g_wg = 2, g_live = [EWMATicker, GCTicker]\<rparr>"
  by (simp add: scoring_start_def scoring_bg_def wg_Add_def go_worker_def)

lemma scoring_run:
  assumes "wf_map (sc_Dimensions cfg)" "scoring_start (Some (newScoringState cfg ti ttl)) scoring_bg = Some b"
    "scoring_system (bg_start b (newScoringState cfg ti ttl)) y"
  shows "bg_inv y" "scoring_inv cfg (r_state y)"
proof -
  have "bg_ok b" using assms(2) by (auto simp: scoring_start_ok bg_ok_def)
  then show "bg_inv y" by (rule bg_inv_run [OF assms(3) bg_inv_start])
  have "scoring_inv cfg (newScoringState cfg ti ttl)"
    using ss_wf_new [OF assms(1)] by (simp add: scoring_inv_def newScoringState_def defaultEWMATickInterval_def second_def)
  then show "scoring_inv cfg (r_state y)"
    using scbg.state_inv [OF assms(3), of cfg] by (simp add: bg_start_def)
qed

section \<open>Properties\<close>

text \<open>
  C8: the tracked rate of an entity is the weighted average of all its requests, whatever the
  interleaving: after any sequence of critical sections of requests, ticks and sweeps, the entry
  of an entity and the rate the score reads are what its history says, the exponentially weighted
  average of the number of its requests in each finished tick period since it became known, with
  the ones since the last tick still open; every request counted is in exactly one period, in the
  open count, or in an earlier life that a sweep ended after more than the idle limit without a
  request. (\<open>history_of\<close> reads the sections only, never the statistics.)
\<close>

theorem rates_average_every_request:
  assumes "wf_map (sc_Dimensions cfg)" "int (length as) < 2 ^ 63"
  shows "let s0 = newScoringState cfg ti ttl; s = fold run_cs as s0; (gone, h) = history_of (ss_idleTTL s0) dm key as in
    agrees (Seconds (ss_tickInterval s0)) (entry s dm key) h
    \<and> entryEWMARPS dm key (Some s) = (case h of None \<Rightarrow> Fin 0 | Some l \<Rightarrow> ewma (Seconds (ss_tickInterval s0)) (lh_periods l))
    \<and> gone + requests_of h = int (length (filter (counts_for dm key) as))"
proof -
  define s0 where "s0 = newScoringState cfg ti ttl"
  define s where "s = fold run_cs as s0"
  obtain gone h where h: "history_of (ss_idleTTL s0) dm key as = (gone, h)" by fastforce
  have frame: "ss_tickInterval (fold run_cs bs t) = ss_tickInterval t" for bs t
    by (induction bs arbitrary: t) (simp_all del: run_cs.simps)
  have "entry s0 dm key = None"
    by (auto simp: s0_def entry_def newScoringState_def dim_entries_def split: option.split dest: map_get_const_Nil)
  then have "history_inv dm key s0 0 (0, None)"
    using ss_wf_new [OF assms(1)] by (simp add: s0_def history_inv_def agrees_def requests_of_def)
  then have inv: "history_inv dm key s (int (length (filter (counts_for dm key) as))) (gone, h)"
    using history_inv_run [of dm key s0 0 "(0, None)" as] assms(2) h by (simp add: history_of_def s_def)
  then have "agrees (Seconds (ss_tickInterval s0)) (entry s dm key) h" by (simp add: history_inv_def s_def frame)
  moreover from this have "entryEWMARPS dm key (Some s) =
      (case h of None \<Rightarrow> Fin 0 | Some l \<Rightarrow> ewma (Seconds (ss_tickInterval s0)) (lh_periods l))"
    by (auto simp: entryEWMARPS_entry agrees_def split: option.splits)
  ultimately show ?thesis
    using inv h unfolding Let_def s0_def [symmetric] s_def [symmetric] by (simp add: history_inv_def)
qed

definition demo_sections :: "scoring_cs list" where
  "demo_sections = [CsTrack demo_client 5 ''ip'', CsTrack demo_client 6 ''ip'', CsTick ''ip'' (default_tuning 20 100),
     CsTrack demo_client 7 ''ip'']"

lemma demo_history:
  "history_of (ss_idleTTL (newScoringState demo_scoring 0 0)) ''ip'' ''192.0.2.7'' demo_sections
    = (0, Some \<lparr>lh_seen = 7, lh_periods = [(pc_Alpha (default_tuning 20 100), 2)], lh_open = 1\<rparr>)"
  "length demo_sections = 4" "length (filter (counts_for ''ip'' ''192.0.2.7'') demo_sections) = 3"
  by code_simp+

theorem rates_average_every_request_witness:
  "entryEWMARPS ''ip'' ''192.0.2.7'' (Some (fold run_cs demo_sections (newScoringState demo_scoring 0 0)))
    = ewma (Fin 1) [(rnd (2 / 10), 2)]"
proof -
  have "Seconds (ss_tickInterval (newScoringState demo_scoring 0 0)) = Fin 1" by code_simp
  then show ?thesis
    using rates_average_every_request [of demo_scoring demo_sections 0 0 "''ip''" "''192.0.2.7''"] demo_history
      demo_scoring_penalties by (simp add: Let_def default_tuning_def)
qed

text \<open>
  C35: the background of the scoring state stops for good: with the two goroutines of \<open>start\<close>
  running, whatever requests, ticks, sweeps and calls of \<open>stop\<close> interleave, neither ticker can
  be made with a period that panics, no call of \<open>stop\<close> closes the channel twice, and once one
  of them has returned both goroutines are gone and only requests change the statistics.
\<close>

theorem scoring_stop_is_final:
  assumes "wf_map (sc_Dimensions cfg)" "scoring_start (Some (newScoringState cfg ti ttl)) scoring_bg = Some b"
    "scoring_system (bg_start b (newScoringState cfg ti ttl)) y"
  shows "(\<forall>w. worker_ticker (r_state y) w \<noteq> None)
    \<and> scoring_stop (Some (r_state y)) (r_bg y) \<noteq> StopPanics
    \<and> (0 < r_returned y \<longrightarrow> g_live (r_bg y) = [] \<and> (\<forall>z. scoring_system y z \<longrightarrow> track_op\<^sup>*\<^sup>* (r_state y) (r_state z)))"
proof (intro conjI impI allI)
  note inv = scoring_run [OF assms]
  show "worker_ticker (r_state y) w \<noteq> None" for w
    using inv(2) by (cases w) (simp_all add: scoring_inv_def NewTicker_def gcSweepInterval_def minute_def)
  show "scoring_stop (Some (r_state y)) (r_bg y) \<noteq> StopPanics"
    using close_once_ok [of "r_bg y"] inv(1) by (auto simp: scoring_stop_def stop_call_def bg_inv_def)
  show "g_live (r_bg y) = []" if "0 < r_returned y" using that inv(1) by (simp add: bg_inv_def)
  show "track_op\<^sup>*\<^sup>* (r_state y) (r_state z)" if "0 < r_returned y" "scoring_system y z" for z
    using bg_silent [OF that(2) inv(1) that(1)] by blast
qed

text \<open>Both goroutines run, \<open>stop\<close> is called, they leave and the call returns.\<close>

definition demo_background :: "scoring_worker bg" where
  "demo_background = the (scoring_start (Some (newScoringState demo_scoring 0 0)) scoring_bg)"

lemma demo_start: "scoring_start (Some (newScoringState demo_scoring 0 0)) scoring_bg = Some demo_background"
  by (simp add: demo_background_def scoring_start_ok)

definition demo_called :: "(scoring_worker, scoringState) bgsys" where
  "demo_called = (bg_start demo_background (newScoringState demo_scoring 0 0))
     \<lparr>r_bg := demo_background\<lparr>g_stopOnce := True, g_stopCh := ClosedChan\<rparr>, r_calls := 1\<rparr>"

definition demo_stopped :: "(scoring_worker, scoringState) bgsys" where
  "demo_stopped = demo_called\<lparr>r_bg := (r_bg demo_called)\<lparr>g_wg := 0, g_live := []\<rparr>, r_calls := 0, r_returned := 1\<rparr>"

lemma demo_called_run: "scoring_system (bg_start demo_background (newScoringState demo_scoring 0 0)) demo_called"
proof -
  let ?s = "bg_start demo_background (newScoringState demo_scoring 0 0)"
  have "stop_call False (r_bg ?s) = StopWaits (demo_background\<lparr>g_stopOnce := True, g_stopCh := ClosedChan\<rparr>)"
    by (simp add: stop_call_def close_once_def bg_start_def demo_background_def scoring_start_ok)
  from bs_stop [OF this, of worker_section track_op] show ?thesis by (simp add: demo_called_def bg_start_def)
qed

lemma demo_stopped_run: "(wind_down ^^ 3) demo_called demo_stopped"
proof -
  let ?b = "r_bg demo_called" and ?b1 = "(r_bg demo_called)\<lparr>g_wg := 1, g_live := [GCTicker]\<rparr>"
    and ?b2 = "(r_bg demo_called)\<lparr>g_wg := 0, g_live := []\<rparr>"
  have e: "worker_exit EWMATicker ?b = Some ?b1" "worker_exit GCTicker ?b1 = Some ?b2"
    by (simp_all add: worker_exit_def wg_Add_def demo_called_def demo_background_def scoring_start_ok)
  have "wind_down demo_called (demo_called\<lparr>r_bg := ?b1\<rparr>)" using wd_exit [OF e(1)] by simp
  moreover have "wind_down (demo_called\<lparr>r_bg := ?b1\<rparr>) (demo_called\<lparr>r_bg := ?b2\<rparr>)"
    using wd_exit [of GCTicker "demo_called\<lparr>r_bg := ?b1\<rparr>" ?b2] e(2) by simp
  moreover have "wind_down (demo_called\<lparr>r_bg := ?b2\<rparr>) demo_stopped"
    using wd_return [of "demo_called\<lparr>r_bg := ?b2\<rparr>" 0] by (simp add: demo_stopped_def demo_called_def bg_start_def)
  ultimately show ?thesis by (simp add: numeral_3_eq_3) blast
qed

theorem scoring_stop_is_final_witness:
  "g_live (r_bg demo_stopped) = [] \<and> scoring_stop (Some (r_state demo_stopped)) (r_bg demo_stopped) \<noteq> StopPanics"
proof -
  have "(bg_step worker_section track_op)\<^sup>*\<^sup>* demo_called demo_stopped"
    by (rule wind_down_steps [OF demo_stopped_run])
  then have "scoring_system (bg_start demo_background (newScoringState demo_scoring 0 0)) demo_stopped"
    by (rule rtranclp_trans [OF demo_called_run])
  moreover have "r_returned demo_stopped = 1" by (simp add: demo_stopped_def)
  ultimately show ?thesis
    using scoring_stop_is_final [OF _ demo_start, of demo_stopped] demo_scoring_penalties by simp
qed

text \<open>
  \<open>stop\<close> returns: after a call only the exits of the two goroutines and the return itself are
  left to happen, at most once each.
\<close>

theorem scoring_stop_returns:
  assumes "wf_map (sc_Dimensions cfg)" "scoring_start (Some (newScoringState cfg ti ttl)) scoring_bg = Some b"
    "scoring_system (bg_start b (newScoringState cfg ti ttl)) y" "0 < r_calls y" "(wind_down ^^ n) y z"
  shows "n \<le> length (g_live (r_bg y)) + r_calls y
    \<and> ((\<forall>z'. \<not> wind_down z z') \<longrightarrow> g_live (r_bg z) = [] \<and> r_returned z = r_calls y + r_returned y)"
  using wind_down_run [OF assms(5) scoring_run(1) [OF assms(1-3)]] wind_down_stuck [of z] assms(4) by auto

theorem scoring_stop_returns_witness:
  "3 \<le> length (g_live (r_bg demo_called)) + r_calls demo_called \<and> length (g_live (r_bg demo_called)) = 2"
proof -
  have "r_calls demo_called = 1" "length (g_live (r_bg demo_called)) = 2"
    by (simp_all add: demo_called_def demo_background_def scoring_start_ok)
  then show ?thesis
    using scoring_stop_returns [OF _ demo_start demo_called_run _ demo_stopped_run] demo_scoring_penalties by simp
qed

end
