(* ===== verification/Metrics.thy ===== *)
theory Metrics imports Admission Fairness_Handler "HOL-Library.Multiset" begin

text \<open>
  The Prometheus collectors of the two handlers (\<^verbatim>\<open>adaptiveadmission/metrics.go\<close> and
  \<^verbatim>\<open>fairness/metrics.go\<close>): built once, registered with the registry of every
  configuration, and updated by the events that \<open>ServeHTTP\<close>, \<open>Provision\<close> and \<open>fServeHTTP\<close> list.

  The Prometheus library is not part of the repository. A collector is what the code says about
  it; the registry is a parameter with its operation \<open>Register\<close>, whose documented behaviour is
  \<open>registry_laws\<close>. A vector panics when it is given another number of label values than it has
  labels, and only the operations of its kind exist.
\<close>

section \<open>Collectors\<close>

datatype buckets = NoBuckets | DefBuckets | LinearBuckets f64 f64 go_int

datatype vec_kind = GaugeVec | CounterVec | HistogramVec

record collector =
  co_kind :: vec_kind
  co_Namespace :: string
  co_Name :: string
  co_Help :: string
  co_Buckets :: buckets
  co_labels :: "string list"

text \<open>The name a collector is known by in the registry.\<close>

definition fq_name :: "collector \<Rightarrow> string" where
  "fq_name c = co_Namespace c @ ''_'' @ co_Name c"

definition admission_vec :: "vec_kind \<Rightarrow> string \<Rightarrow> string \<Rightarrow> string list \<Rightarrow> collector" where
  "admission_vec k name help labels =
    \<lparr>co_kind = k, co_Namespace = ''adaptive_admission'', co_Name = name, co_Help = help,
     co_Buckets = (if k = HistogramVec then DefBuckets else NoBuckets), co_labels = labels\<rparr>"

text \<open>The fields of \<^verbatim>\<open>admissionMetricsSet\<close>, and what the constructor puts into each.\<close>

datatype admission_field = FRequestsInFlight | FConcurrencyLimit | FQueueSize | FRequestsTotal | FRequestsAdmitted
  | FRequestsRejected | FBackendErrors | FBackendTimeouts | FLimitChanges | FRequestDuration | FQueueWaitDuration

fun new_admission_vec :: "admission_field \<Rightarrow> collector" where
  "new_admission_vec FRequestsInFlight = admission_vec GaugeVec ''requests_in_flight''
     ''Requests currently admitted and in flight.'' [''backend'']"
| "new_admission_vec FConcurrencyLimit = admission_vec GaugeVec ''concurrency_limit''
     ''Current controller concurrency limit.'' [''backend'']"
| "new_admission_vec FQueueSize = admission_vec GaugeVec ''queue_size''
     ''Current number of queued (not yet admitted) requests.'' [''backend'']"
| "new_admission_vec FRequestsTotal = admission_vec CounterVec ''requests_total'' ''Total requests seen.'' [''backend'']"
| "new_admission_vec FRequestsAdmitted = admission_vec CounterVec ''requests_admitted_total''
     ''Total requests admitted (dispatched to next handler).'' [''backend'']"
| "new_admission_vec FRequestsRejected = admission_vec CounterVec ''requests_rejected_total''
     ''Total requests rejected, by reason.'' [''backend'', ''reason'']"
| "new_admission_vec FBackendErrors = admission_vec CounterVec ''backend_errors_total''
     ''Total dispatched requests whose outcome was a 5xx/error.'' [''backend'']"
| "new_admission_vec FBackendTimeouts = admission_vec CounterVec ''backend_timeouts_total''
     ''Total dispatched requests whose outcome was a timeout.'' [''backend'']"
| "new_admission_vec FLimitChanges = admission_vec CounterVec ''adaptive_limit_changes_total''
     ''Total adaptive-controller limit changes, by direction.'' [''backend'', ''direction'']"
| "new_admission_vec FRequestDuration = admission_vec HistogramVec ''backend_request_duration_seconds''
     ''Dispatched request duration.'' [''backend'']"
| "new_admission_vec FQueueWaitDuration = admission_vec HistogramVec ''queue_wait_duration_seconds''
     ''Time an admitted request spent queued before admission.'' [''backend'']"

definition admission_fields :: "admission_field list" where
  "admission_fields = [FRequestsInFlight, FConcurrencyLimit, FQueueSize, FRequestsTotal, FRequestsAdmitted,
     FRequestsRejected, FBackendErrors, FBackendTimeouts, FLimitChanges, FRequestDuration, FQueueWaitDuration]"

datatype fairness_field = FScoreDistribution | FSessionCookies

fun new_fairness_vec :: "fairness_field \<Rightarrow> collector" where
  "new_fairness_vec FScoreDistribution =
    \<lparr>co_kind = HistogramVec, co_Namespace = ''fairness'', co_Name = ''score_distribution'',
     co_Help = ''Distribution of computed fairness scores.'', co_Buckets = LinearBuckets (Fin 0) (Fin 10) 11,
     co_labels = [''backend'', ''user_class'']\<rparr>"
| "new_fairness_vec FSessionCookies =
    \<lparr>co_kind = CounterVec, co_Namespace = ''fairness'', co_Name = ''session_cookies_total'',
     co_Help = ''Session cookies seen on checking blocks (valid/invalid/expired) and set on issuing blocks (issued/renewed).'',
     co_Buckets = NoBuckets, co_labels = [''backend'', ''result'']\<rparr>"

definition fairness_fields :: "fairness_field list" where
  "fairness_fields = [FScoreDistribution, FSessionCookies]"

section \<open>Construction and registration\<close>

text \<open>
  The package variable: a \<^verbatim>\<open>sync.Once\<close> and the fields, nil until the first call. The first
  call is the one of the package's \<open>init\<close>, without a registry.
\<close>

record 'f metrics_set =
  ms_init :: bool
  ms_vec :: "'f \<Rightarrow> collector option"

definition zero_set :: "'f metrics_set" where
  "zero_set = \<lparr>ms_init = False, ms_vec = (\<lambda>_. None)\<rparr>"

definition construct_once :: "('f \<Rightarrow> collector) \<Rightarrow> 'f metrics_set \<Rightarrow> 'f metrics_set" where
  "construct_once new s = (if ms_init s then s else \<lparr>ms_init = True, ms_vec = (\<lambda>f. Some (new f))\<rparr>)"

datatype register_result = Registered | AlreadyRegisteredError | RegisterError string

text \<open>The loop over the collectors: \<open>Inl\<close> is the message of the panic.\<close>

fun register_all :: "string \<Rightarrow> (collector \<Rightarrow> 'r \<Rightarrow> register_result \<times> 'r) \<Rightarrow> collector option list \<Rightarrow> 'r \<Rightarrow> string + 'r" where
  "register_all prefix Register [] r = Inr r"
| "register_all prefix Register (None # cs) r = Inl ''nil collector''"
| "register_all prefix Register (Some c # cs) r = (case Register c r of
     (RegisterError e, r') \<Rightarrow> Inl (prefix @ '': registering metric: '' @ e)
   | (_, r') \<Rightarrow> register_all prefix Register cs r')"

definition initAdmissionMetrics :: "(collector \<Rightarrow> 'r \<Rightarrow> register_result \<times> 'r) \<Rightarrow> 'r option \<Rightarrow> admission_field metrics_set
    \<Rightarrow> string + ('r option \<times> admission_field metrics_set)" where
  "initAdmissionMetrics Register registry s =
    (let s = construct_once new_admission_vec s in
     case registry of
       None \<Rightarrow> Inr (None, s)
     | Some r \<Rightarrow> (case register_all ''adaptive_admission'' Register (map (ms_vec s) admission_fields) r of
         Inl e \<Rightarrow> Inl e | Inr r \<Rightarrow> Inr (Some r, s)))"

definition initFairnessMetrics :: "(collector \<Rightarrow> 'r \<Rightarrow> register_result \<times> 'r) \<Rightarrow> 'r option \<Rightarrow> fairness_field metrics_set
    \<Rightarrow> string + ('r option \<times> fairness_field metrics_set)" where
  "initFairnessMetrics Register registry s =
    (let s = construct_once new_fairness_vec s in
     case registry of
       None \<Rightarrow> Inr (None, s)
     | Some r \<Rightarrow> (case register_all ''fairness'' Register (map (ms_vec s) fairness_fields) r of
         Inl e \<Rightarrow> Inl e | Inr r \<Rightarrow> Inr (Some r, s)))"

section \<open>Updates\<close>

datatype vec_op = SetTo f64 | IncBy1 | Observe f64

text \<open>What each event does: the field, the label values and the operation.\<close>

fun admission_update :: "metric \<Rightarrow> admission_field \<times> string list \<times> vec_op" where
  "admission_update (MRequestsTotal b) = (FRequestsTotal, [b], IncBy1)"
| "admission_update (MQueueSize b n) = (FQueueSize, [b], SetTo (f64_of_int n))"
| "admission_update (MRequestsRejected b reason) = (FRequestsRejected, [b, reason], IncBy1)"
| "admission_update (MQueueWait b d) = (FQueueWaitDuration, [b], Observe (Seconds d))"
| "admission_update (MRequestsAdmitted b) = (FRequestsAdmitted, [b], IncBy1)"
| "admission_update (MRequestsInFlight b n) = (FRequestsInFlight, [b], SetTo (f64_of_int n))"
| "admission_update (MRequestDuration b d) = (FRequestDuration, [b], Observe (Seconds d))"
| "admission_update (MBackendTimeouts b) = (FBackendTimeouts, [b], IncBy1)"
| "admission_update (MBackendErrors b) = (FBackendErrors, [b], IncBy1)"
| "admission_update (MLimitChanges b direction) = (FLimitChanges, [b, direction], IncBy1)"
| "admission_update (MConcurrencyLimit b n) = (FConcurrencyLimit, [b], SetTo (f64_of_int n))"

fun fairness_update :: "fairness_metric \<Rightarrow> fairness_field \<times> string list \<times> vec_op" where
  "fairness_update (MSessionCookies b result) = (FSessionCookies, [b, result], IncBy1)"
| "fairness_update (MScoreDistribution b class score) = (FScoreDistribution, [b, class], Observe score)"

fun op_allowed :: "vec_kind \<Rightarrow> vec_op \<Rightarrow> bool" where
  "op_allowed GaugeVec (SetTo v) = True"
| "op_allowed CounterVec IncBy1 = True"
| "op_allowed HistogramVec (Observe v) = True"
| "op_allowed k opn = False"

text \<open>\<open>WithLabelValues(...)\<close> on the field and the operation: \<open>None\<close> is a panic.\<close>

definition apply_update :: "'f metrics_set \<Rightarrow> 'f \<times> string list \<times> vec_op \<Rightarrow> (string \<times> string list \<times> vec_op) option" where
  "apply_update s u = (case u of (f, vals, opn) \<Rightarrow>
    (case ms_vec s f of
       None \<Rightarrow> None
     | Some c \<Rightarrow> if length vals = length (co_labels c) \<and> op_allowed (co_kind c) opn
                then Some (fq_name c, vals, opn) else None))"

text \<open>The value of a counter after a log of updates.\<close>

definition counter_value :: "(string \<times> string list \<times> vec_op) list \<Rightarrow> string \<Rightarrow> string list \<Rightarrow> nat" where
  "counter_value us name vals = length (filter (\<lambda>u. u = (name, vals, IncBy1)) us)"

text \<open>A whole log of updates: \<open>None\<close> if one of them panics.\<close>

fun apply_all :: "'f metrics_set \<Rightarrow> ('f \<times> string list \<times> vec_op) list \<Rightarrow> (string \<times> string list \<times> vec_op) list option" where
  "apply_all s [] = Some []"
| "apply_all s (u # us) = (case apply_update s u of None \<Rightarrow> None | Some v \<Rightarrow> map_option (\<lambda>vs. v # vs) (apply_all s us))"

section \<open>The registry\<close>

text \<open>
  \<^verbatim>\<open>Registry.Register\<close> as documented: a collector that is already there is reported as such, one
  whose name is free is added. \<open>regd\<close> reads the registered collectors.
\<close>

definition registry_laws :: "(collector \<Rightarrow> 'r \<Rightarrow> register_result \<times> 'r) \<Rightarrow> ('r \<Rightarrow> collector set) \<Rightarrow> bool" where
  "registry_laws Register regd \<longleftrightarrow> (\<forall>c r.
     (c \<in> regd r \<longrightarrow> Register c r = (AlreadyRegisteredError, r))
     \<and> ((\<forall>d \<in> regd r. fq_name d \<noteq> fq_name c) \<longrightarrow> (\<exists>r'. Register c r = (Registered, r') \<and> regd r' = insert c (regd r))))"

definition our_collectors :: "collector set" where
  "our_collectors = set (map new_admission_vec admission_fields) \<union> set (map new_fairness_vec fairness_fields)"

text \<open>Nobody else uses one of our names.\<close>

definition names_free :: "('r \<Rightarrow> collector set) \<Rightarrow> 'r \<Rightarrow> bool" where
  "names_free regd r \<longleftrightarrow> (\<forall>d \<in> regd r. d \<in> our_collectors \<or> (\<forall>c \<in> our_collectors. fq_name d \<noteq> fq_name c))"

lemma our_names_distinct:
  assumes "c \<in> our_collectors" "d \<in> our_collectors" "fq_name c = fq_name d"
  shows "c = d"
proof -
  let ?cs = "map new_admission_vec admission_fields @ map new_fairness_vec fairness_fields"
  have "distinct (map fq_name ?cs)" by code_simp
  moreover have "our_collectors = set ?cs" unfolding our_collectors_def by (simp only: set_append)
  ultimately show ?thesis using assms by (metis distinct_map inj_onD)
qed

lemma register_all_ok:
  assumes "registry_laws Register regd" "names_free regd r" "set cs \<subseteq> our_collectors"
  shows "\<exists>r'. register_all prefix Register (map Some cs) r = Inr r' \<and> regd r' = regd r \<union> set cs \<and> names_free regd r'
    \<and> (set cs \<subseteq> regd r \<longrightarrow> r' = r)"
  using assms(2,3)
proof (induction cs arbitrary: r)
  case (Cons c cs)
  show ?case
  proof (cases "c \<in> regd r")
    case True
    then have "Register c r = (AlreadyRegisteredError, r)" using assms(1) by (simp add: registry_laws_def)
    then show ?thesis using Cons.IH [OF Cons.prems(1)] Cons.prems(2) True by auto
  next
    case False
    then have "\<forall>d \<in> regd r. fq_name d \<noteq> fq_name c"
      using Cons.prems our_names_distinct unfolding names_free_def by (metis insert_subset list.simps(15))
    then obtain r1 where r1: "Register c r = (Registered, r1)" "regd r1 = insert c (regd r)"
      using assms(1) unfolding registry_laws_def by blast
    have "names_free regd r1" using Cons.prems r1(2) by (auto simp: names_free_def)
    then obtain r' where "register_all prefix Register (map Some cs) r1 = Inr r'" "regd r' = regd r1 \<union> set cs" "names_free regd r'"
      using Cons.IH [of r1] Cons.prems(2) by auto
    then show ?thesis using r1 False by auto
  qed
qed simp

text \<open>The package variables after the package's own \<open>init\<close>.\<close>

definition admissionMetrics :: "admission_field metrics_set" where
  "admissionMetrics = construct_once new_admission_vec zero_set"

definition fairnessMetrics :: "fairness_field metrics_set" where
  "fairnessMetrics = construct_once new_fairness_vec zero_set"

text \<open>The calls a configuration makes: one per provisioned admission block, one for the fairness app.\<close>

datatype plugin = PAdmission | PFairness

fun plugin_init :: "(collector \<Rightarrow> 'r \<Rightarrow> register_result \<times> 'r) \<Rightarrow> plugin \<Rightarrow> 'r \<Rightarrow> string + 'r" where
  "plugin_init Register PAdmission r = (case initAdmissionMetrics Register (Some r) admissionMetrics of
     Inl e \<Rightarrow> Inl e | Inr (r', s) \<Rightarrow> Inr (the r'))"
| "plugin_init Register PFairness r = (case initFairnessMetrics Register (Some r) fairnessMetrics of
     Inl e \<Rightarrow> Inl e | Inr (r', s) \<Rightarrow> Inr (the r'))"

fun plugin_inits :: "(collector \<Rightarrow> 'r \<Rightarrow> register_result \<times> 'r) \<Rightarrow> plugin list \<Rightarrow> 'r \<Rightarrow> string + 'r" where
  "plugin_inits Register [] r = Inr r"
| "plugin_inits Register (p # ps) r = (case plugin_init Register p r of Inl e \<Rightarrow> Inl e | Inr r' \<Rightarrow> plugin_inits Register ps r')"

fun plugin_collectors :: "plugin \<Rightarrow> collector list" where
  "plugin_collectors PAdmission = map new_admission_vec admission_fields"
| "plugin_collectors PFairness = map new_fairness_vec fairness_fields"

lemma sets_constructed:
  "construct_once new_admission_vec admissionMetrics = admissionMetrics" "ms_vec admissionMetrics f = Some (new_admission_vec f)"
  "construct_once new_fairness_vec fairnessMetrics = fairnessMetrics" "ms_vec fairnessMetrics g = Some (new_fairness_vec g)"
  by (simp_all add: construct_once_def admissionMetrics_def fairnessMetrics_def zero_set_def)

lemma plugin_init_ok:
  assumes "registry_laws Register regd" "names_free regd r"
  shows "\<exists>r'. plugin_init Register p r = Inr r' \<and> regd r' = regd r \<union> set (plugin_collectors p) \<and> names_free regd r'
    \<and> (set (plugin_collectors p) \<subseteq> regd r \<longrightarrow> r' = r)"
proof -
  let ?cs = "plugin_collectors p"
  have sub: "set ?cs \<subseteq> our_collectors" by (cases p) (auto simp: our_collectors_def)
  have init: "plugin_init Register p r = register_all (case p of PAdmission \<Rightarrow> ''adaptive_admission'' | PFairness \<Rightarrow> ''fairness'')
      Register (map Some ?cs) r"
  proof (cases p)
    case PAdmission
    have "map (ms_vec admissionMetrics) admission_fields = map Some ?cs" by (simp add: sets_constructed PAdmission)
    then show ?thesis
      by (simp add: initAdmissionMetrics_def sets_constructed(1) Let_def PAdmission del: map_map split: sum.split)
  next
    case PFairness
    have "map (ms_vec fairnessMetrics) fairness_fields = map Some ?cs" by (simp add: sets_constructed PFairness)
    then show ?thesis
      by (simp add: initFairnessMetrics_def sets_constructed(3) Let_def PFairness del: map_map split: sum.split)
  qed
  show ?thesis unfolding init by (rule register_all_ok [OF assms sub])
qed

lemma counter_value_perm: "mset us = mset vs \<Longrightarrow> counter_value us name vals = counter_value vs name vals"
  unfolding counter_value_def by (metis mset_filter size_mset)

lemma admission_update_defined:
  "apply_update admissionMetrics (admission_update m) =
    Some (fq_name (new_admission_vec (fst (admission_update m))), snd (admission_update m))"
  by (cases m) (simp_all add: apply_update_def sets_constructed admission_vec_def)

lemma fairness_update_defined:
  "apply_update fairnessMetrics (fairness_update m) =
    Some (fq_name (new_fairness_vec (fst (fairness_update m))), snd (fairness_update m))"
  by (cases m) (simp_all add: apply_update_def sets_constructed)

lemma apply_all_admission:
  "apply_all admissionMetrics (map admission_update ms) =
    Some (map (\<lambda>m. (fq_name (new_admission_vec (fst (admission_update m))), snd (admission_update m))) ms)"
  by (induction ms) (simp_all add: admission_update_defined)

section \<open>Counting the requests\<close>

abbreviation occurs :: "metric \<Rightarrow> metric list \<Rightarrow> nat" where
  "occurs m ms \<equiv> count (mset ms) m"

text \<open>What one request contributes, for every backend label.\<close>

definition balanced :: "metric list \<Rightarrow> bool" where
  "balanced ms \<longleftrightarrow> (\<forall>b.
     occurs (MRequestsTotal b) ms = occurs (MRequestsAdmitted b) ms
       + occurs (MRequestsRejected b ''queue_full'') ms + occurs (MRequestsRejected b ''queue_wait_exceeded'') ms
     \<and> occurs (MBackendErrors b) ms \<le> occurs (MRequestsAdmitted b) ms
     \<and> occurs (MBackendTimeouts b) ms \<le> occurs (MRequestsAdmitted b) ms)"

lemma balanced_concat: "(\<And>ms. ms \<in> set mss \<Longrightarrow> balanced ms) \<Longrightarrow> balanced (concat mss)"
proof (induction mss)
  case (Cons ms mss)
  then have "balanced ms" "balanced (concat mss)" by simp_all
  then show ?case unfolding balanced_def by (auto simp: add_mono)
qed (simp add: balanced_def)

lemma balanced_perm: "mset ms = mset ms' \<Longrightarrow> balanced ms \<longleftrightarrow> balanced ms'"
  by (simp add: balanced_def)

lemma dispatch_counts:
  assumes "dispatch M b run c = Some d"
  shows "occurs (MRequestsTotal b') (dp_metrics d) = 0" "occurs (MRequestsAdmitted b') (dp_metrics d) = 0"
    "occurs (MRequestsRejected b' r) (dp_metrics d) = 0"
    "occurs (MBackendErrors b') (dp_metrics d) \<le> (if b' = b then 1 else 0)"
    "occurs (MBackendTimeouts b') (dp_metrics d) \<le> (if b' = b then 1 else 0)"
  using assms by (auto simp: dispatch_def Let_def split: next_result.splits prod.splits if_splits)

lemma ServeHTTP_balanced: "balanced (sv_metrics (ServeHTTP M logger cfg vs wait qw run s))"
proof -
  obtain t r s1 where e: "Enqueue (score_of_vars vs) s = ((t, r), s1)" by (metis prod.exhaust)
  show ?thesis
  proof (cases t)
    case None
    then have "r = RejectQueueFull \<or> r = RejectQueueWaitExceeded" using e by (auto simp: Enqueue_def Let_def split: if_splits)
    then show ?thesis using e None by (auto simp: ServeHTTP_def Let_def balanced_def)
  next
    case (Some t')
    show ?thesis
    proof (cases "dispatch M (backendLabel cfg) run (s_controller (wait t' s1))")
      case None
      then show ?thesis using e Some by (simp add: ServeHTTP_def Let_def balanced_def)
    next
      case d: (Some d)
      then show ?thesis
        unfolding balanced_def
      proof (intro allI)
        fix b
        show "occurs (MRequestsTotal b) (sv_metrics (ServeHTTP M logger cfg vs wait qw run s)) =
            occurs (MRequestsAdmitted b) (sv_metrics (ServeHTTP M logger cfg vs wait qw run s))
            + occurs (MRequestsRejected b ''queue_full'') (sv_metrics (ServeHTTP M logger cfg vs wait qw run s))
            + occurs (MRequestsRejected b ''queue_wait_exceeded'') (sv_metrics (ServeHTTP M logger cfg vs wait qw run s))
          \<and> occurs (MBackendErrors b) (sv_metrics (ServeHTTP M logger cfg vs wait qw run s))
            \<le> occurs (MRequestsAdmitted b) (sv_metrics (ServeHTTP M logger cfg vs wait qw run s))
          \<and> occurs (MBackendTimeouts b) (sv_metrics (ServeHTTP M logger cfg vs wait qw run s))
            \<le> occurs (MRequestsAdmitted b) (sv_metrics (ServeHTTP M logger cfg vs wait qw run s))"
          using e Some d dispatch_counts(4,5) [OF d, of b]
          by (simp add: ServeHTTP_def Let_def dispatch_counts(1-3) [OF d] split: if_splits)
      qed
    qed
  qed
qed

text \<open>What one call of \<open>ServeHTTP\<close> left behind, whatever it was called with.\<close>

definition is_served :: "served \<Rightarrow> bool" where
  "is_served v \<longleftrightarrow> (\<exists>M logger cfg vs wait qw run s. v = ServeHTTP M logger cfg vs wait qw run s)"

lemma is_servedI: "is_served (ServeHTTP M logger cfg vs wait qw run s)"
  unfolding is_served_def by (intro exI) (rule refl)

lemma served_balanced: "is_served v \<Longrightarrow> balanced (sv_metrics v)"
  unfolding is_served_def by (elim exE) (simp only: ServeHTTP_balanced)

lemma served_all_balanced: "list_all is_served svs \<Longrightarrow> balanced (concat (map sv_metrics svs))"
  by (rule balanced_concat) (auto simp: list_all_iff served_balanced)

text \<open>Counting updates of a counter is counting the events that make them.\<close>

lemma counter_value_events:
  assumes "\<And>m'. (fq_name (new_admission_vec (fst (admission_update m'))), snd (admission_update m')) = (name, vals, IncBy1) \<longleftrightarrow> m' = m"
  shows "counter_value (map (\<lambda>m. (fq_name (new_admission_vec (fst (admission_update m))), snd (admission_update m))) ms) name vals
    = occurs m ms"
proof -
  let ?g = "\<lambda>m. (fq_name (new_admission_vec (fst (admission_update m))), snd (admission_update m))"
  have "counter_value (map ?g ms) name vals = length (filter (\<lambda>m'. ?g m' = (name, vals, IncBy1)) ms)"
    by (simp only: counter_value_def filter_map length_map comp_def)
  also have "\<dots> = length (filter (\<lambda>m'. m' = m) ms)" by (simp only: assms)
  also have "\<dots> = occurs m ms" by (induction ms) auto
  finally show ?thesis .
qed

lemma counter_of:
  "counter_value (map (\<lambda>m. (fq_name (new_admission_vec (fst (admission_update m))), snd (admission_update m))) ms)
     ''adaptive_admission_requests_total'' [b] = occurs (MRequestsTotal b) ms"
  "counter_value (map (\<lambda>m. (fq_name (new_admission_vec (fst (admission_update m))), snd (admission_update m))) ms)
     ''adaptive_admission_requests_admitted_total'' [b] = occurs (MRequestsAdmitted b) ms"
  "counter_value (map (\<lambda>m. (fq_name (new_admission_vec (fst (admission_update m))), snd (admission_update m))) ms)
     ''adaptive_admission_requests_rejected_total'' [b, r] = occurs (MRequestsRejected b r) ms"
  "counter_value (map (\<lambda>m. (fq_name (new_admission_vec (fst (admission_update m))), snd (admission_update m))) ms)
     ''adaptive_admission_backend_errors_total'' [b] = occurs (MBackendErrors b) ms"
  subgoal by (rule counter_value_events, case_tac m') (auto simp: fq_name_def admission_vec_def)
  subgoal by (rule counter_value_events, case_tac m') (auto simp: fq_name_def admission_vec_def)
  subgoal by (rule counter_value_events, case_tac m') (auto simp: fq_name_def admission_vec_def)
  subgoal by (rule counter_value_events, case_tac m') (auto simp: fq_name_def admission_vec_def)
  done

section \<open>Properties\<close>

text \<open>
  registering the collectors never panics and can be repeated: with a registry in which nobody
  else uses their names, any number of provisioned modules of both kinds, in any order, register
  exactly the collectors of the kinds that occur, and provisioning the same kinds again changes
  nothing.
\<close>

theorem metrics_registration_is_idempotent:
  assumes "registry_laws Register regd" "names_free regd r"
  shows "\<exists>r'. plugin_inits Register ps r = Inr r' \<and> regd r' = regd r \<union> (\<Union>p \<in> set ps. set (plugin_collectors p))
    \<and> (\<forall>qs. set qs \<subseteq> set ps \<longrightarrow> plugin_inits Register qs r' = Inr r')"
proof -
  have run: "\<exists>r'. plugin_inits Register ps r = Inr r' \<and> regd r' = regd r \<union> (\<Union>p \<in> set ps. set (plugin_collectors p)) \<and> names_free regd r'"
    using assms(2)
  proof (induction ps arbitrary: r)
    case (Cons p ps)
    obtain r1 where r1: "plugin_init Register p r = Inr r1" "regd r1 = regd r \<union> set (plugin_collectors p)" "names_free regd r1"
      using plugin_init_ok [OF assms(1) Cons.prems, of p] by blast
    obtain r2 where "plugin_inits Register ps r1 = Inr r2" "regd r2 = regd r1 \<union> (\<Union>p \<in> set ps. set (plugin_collectors p))" "names_free regd r2"
      using Cons.IH [OF r1(3)] by blast
    then show ?case using r1 by (intro exI [of _ r2]) (auto simp del: plugin_init.simps plugin_collectors.simps)
  qed simp
  then obtain r' where r': "plugin_inits Register ps r = Inr r'" "regd r' = regd r \<union> (\<Union>p \<in> set ps. set (plugin_collectors p))"
    "names_free regd r'" by blast
  have "plugin_inits Register qs r' = Inr r'" if "set qs \<subseteq> set ps" for qs
    using that
  proof (induction qs)
    case (Cons q qs)
    then have "set (plugin_collectors q) \<subseteq> regd r'" using r'(2) by auto
    then have "plugin_init Register q r' = Inr r'" using plugin_init_ok [OF assms(1) r'(3), of q] by blast
    then show ?case using Cons by (simp del: plugin_init.simps)
  qed simp
  then show ?thesis using r' by blast
qed

text \<open>A registry that is the list of its collectors.\<close>

definition list_register :: "collector \<Rightarrow> collector list \<Rightarrow> register_result \<times> collector list" where
  "list_register c r =
    (if c \<in> set r then (AlreadyRegisteredError, r)
     else if \<exists>d \<in> set r. fq_name d = fq_name c then (RegisterError ''duplicate'', r)
     else (Registered, r @ [c]))"

lemma list_register_laws: "registry_laws list_register set"
  by (auto simp: registry_laws_def list_register_def)

theorem metrics_registration_is_idempotent_witness:
  "\<exists>r. plugin_inits list_register [PFairness, PAdmission] [] = Inr r \<and> set r = our_collectors
    \<and> plugin_inits list_register [PAdmission, PAdmission, PFairness] r = Inr r"
proof -
  have free: "names_free set []" by (simp add: names_free_def)
  obtain r where r: "plugin_inits list_register [PFairness, PAdmission] [] = Inr r"
    "set r = set [] \<union> (\<Union>p \<in> set [PFairness, PAdmission]. set (plugin_collectors p))"
    "\<forall>qs. set qs \<subseteq> set [PFairness, PAdmission] \<longrightarrow> plugin_inits list_register qs r = Inr r"
    using metrics_registration_is_idempotent [OF list_register_laws free, of "[PFairness, PAdmission]"] by blast
  have "set r = our_collectors" using r(2) by (simp add: our_collectors_def Un_commute)
  moreover have "plugin_inits list_register [PAdmission, PAdmission, PFairness] r = Inr r"
    by (rule r(3) [rule_format]) auto
  ultimately show ?thesis using r(1) by blast
qed

text \<open>
  C13: the counters reconcile: when any requests have been served, by any handlers and with their
  updates interleaved in any way, no update panics, and for every backend \<open>requests_total\<close> is
  \<open>requests_admitted_total\<close> plus the two reasons of \<open>requests_rejected_total\<close>, and at most the
  admitted requests are counted as backend errors.
\<close>

theorem counters_reconcile:
  assumes "list_all is_served svs" "mset evs = mset (concat (map sv_metrics svs))"
  shows "\<exists>us. apply_all admissionMetrics (map admission_update evs) = Some us \<and> (\<forall>b.
      counter_value us ''adaptive_admission_requests_total'' [b] =
        counter_value us ''adaptive_admission_requests_admitted_total'' [b]
        + counter_value us ''adaptive_admission_requests_rejected_total'' [b, ''queue_full'']
        + counter_value us ''adaptive_admission_requests_rejected_total'' [b, ''queue_wait_exceeded'']
      \<and> counter_value us ''adaptive_admission_backend_errors_total'' [b]
        \<le> counter_value us ''adaptive_admission_requests_admitted_total'' [b])"
proof -
  have "balanced evs" using balanced_perm [OF assms(2)] served_all_balanced [OF assms(1)] by blast
  then show ?thesis unfolding apply_all_admission by (simp add: counter_of balanced_def)
qed

definition demo_backend :: AdmissionConfig where
  "demo_backend = \<lparr>ad_Backend = ''api'',
     ad_Controller = \<lparr>cc_Kind = ''fixed'', cc_Limit = 3, cc_MinConcurrency = 0, cc_InitialConcurrency = 0,
       cc_MaxConcurrency = 0, cc_TargetP95 = 0, cc_TimeoutRateThreshold = Fin 0, cc_ErrorRateThreshold = Fin 0,
       cc_AdjustInterval = 0\<rparr>,
     ad_QueueMaxSize = 1, ad_QueueTimeout = 0\<rparr>"

text \<open>One request is served with status 500, one finds the queue full.\<close>

definition served_request :: served where
  "served_request = ServeHTTP log2lib False demo_backend [] (\<lambda>t s. s) 7
     \<lparr>nr_calls = [WHeader 500], nr_result = Returned None, nr_latency = 5\<rparr>
     (NewScheduler (queueConfig demo_backend) (NewFixedController 3))"

definition refused_request :: served where
  "refused_request = ServeHTTP log2lib False demo_backend [] (\<lambda>t s. s) 7
     \<lparr>nr_calls = [], nr_result = Returned None, nr_latency = 5\<rparr>
     ((NewScheduler (queueConfig demo_backend) (NewFixedController 3))\<lparr>s_pq := [demo_ticket 1 1]\<rparr>)"

lemma demo_counters:
  "(case apply_all admissionMetrics (map admission_update (sv_metrics refused_request @ sv_metrics served_request)) of
      None \<Rightarrow> False
    | Some us \<Rightarrow> counter_value us ''adaptive_admission_requests_total'' [''api''] = 2
        \<and> counter_value us ''adaptive_admission_requests_rejected_total'' [''api'', ''queue_full''] = 1
        \<and> counter_value us ''adaptive_admission_requests_rejected_total'' [''api'', ''queue_wait_exceeded''] = 0)"
  by code_simp

theorem counters_reconcile_witness:
  "\<exists>us. apply_all admissionMetrics (map admission_update (sv_metrics refused_request @ sv_metrics served_request)) = Some us
    \<and> counter_value us ''adaptive_admission_requests_admitted_total'' [''api''] = 1"
proof -
  have h: "list_all is_served [refused_request, served_request]"
    unfolding refused_request_def served_request_def by (simp add: is_servedI)
  obtain us where us: "apply_all admissionMetrics (map admission_update (sv_metrics refused_request @ sv_metrics served_request)) = Some us"
    "counter_value us ''adaptive_admission_requests_total'' [''api''] =
      counter_value us ''adaptive_admission_requests_admitted_total'' [''api'']
      + counter_value us ''adaptive_admission_requests_rejected_total'' [''api'', ''queue_full'']
      + counter_value us ''adaptive_admission_requests_rejected_total'' [''api'', ''queue_wait_exceeded'']"
    using counters_reconcile [OF h, of "sv_metrics refused_request @ sv_metrics served_request"] by auto
  then show ?thesis using demo_counters by simp
qed

text \<open>
  no update of either handler panics: whatever event the request paths, \<open>Provision\<close> and the
  adjustment loop emit, its field is there, takes as many label values as the event has, and
  has the operation.
\<close>

theorem metric_updates_never_panic:
  "apply_all admissionMetrics (map admission_update ms) \<noteq> None
    \<and> apply_all fairnessMetrics (map fairness_update fms) \<noteq> None"
proof -
  have "apply_all fairnessMetrics (map fairness_update fms) \<noteq> None"
    by (induction fms) (simp_all add: fairness_update_defined)
  then show ?thesis by (simp add: apply_all_admission)
qed

end
