(* ===== verification/Caddy_Modules.thy ===== *)
theory Caddy_Modules imports Metrics begin

text \<open>
  How the two plug-ins hook into Caddy: the calls of their \<^verbatim>\<open>init\<close> functions
  (\<^verbatim>\<open>adaptiveadmission\<close> and \<^verbatim>\<open>fairness\<close>: \<^verbatim>\<open>module.go\<close>, \<^verbatim>\<open>app.go\<close>, \<^verbatim>\<open>admin.go\<close>), the
  order of their directives, the app modules' life cycle, and the admin endpoints, which look
  the app module up when a request arrives.

  Caddy's registration functions are parameters (\<open>caddy_ops\<close>) with their documented behaviour
  (\<open>caddy_laws\<close>): a new module or directive is recorded, and a plug-in directive is inserted
  immediately before the standard directive it is anchored to.
\<close>

section \<open>Module information\<close>

definition admission_Handler_ID :: string where "admission_Handler_ID = ''http.handlers.adaptive_admission''"
definition admission_App_ID :: string where "admission_App_ID = ''adaptive_admission''"
definition admission_AdminAPI_ID :: string where "admission_AdminAPI_ID = ''admin.api.adaptive_admission''"
definition fairness_Handler_ID :: string where "fairness_Handler_ID = ''http.handlers.fairness''"
definition fairness_App_ID :: string where "fairness_App_ID = ''fairness''"
definition fairness_AdminAPI_ID :: string where "fairness_AdminAPI_ID = ''admin.api.fairness''"

lemmas module_IDs = admission_Handler_ID_def admission_App_ID_def admission_AdminAPI_ID_def
  fairness_Handler_ID_def fairness_App_ID_def fairness_AdminAPI_ID_def

section \<open>Registration\<close>

text \<open>The third call anchors a directive before a standard one.\<close>

datatype init_call = RegisterModule string | RegisterHandlerDirective string | RegisterDirectiveOrder string string

definition admission_admin_init :: "init_call list" where
  "admission_admin_init = [RegisterModule admission_AdminAPI_ID]"
definition admission_app_init :: "init_call list" where
  "admission_app_init = [RegisterModule admission_App_ID]"
definition admission_module_init :: "init_call list" where
  "admission_module_init = [RegisterModule admission_Handler_ID, RegisterHandlerDirective ''adaptive_admission'',
     RegisterDirectiveOrder ''adaptive_admission'' ''reverse_proxy'']"
definition fairness_admin_init :: "init_call list" where
  "fairness_admin_init = [RegisterModule fairness_AdminAPI_ID]"
definition fairness_app_init :: "init_call list" where
  "fairness_app_init = [RegisterModule fairness_App_ID]"
definition fairness_module_init :: "init_call list" where
  "fairness_module_init = [RegisterModule fairness_Handler_ID, RegisterHandlerDirective ''fairness'',
     RegisterDirectiveOrder ''fairness'' ''request_header'']"

text \<open>The root package imports both plug-ins; the order in which packages and files initialise is left open.\<close>

definition plugin_calls :: "init_call list" where
  "plugin_calls = admission_admin_init @ admission_app_init @ admission_module_init
     @ fairness_admin_init @ fairness_app_init @ fairness_module_init"

record 'g caddy_ops =
  cy_RegisterModule :: "string \<Rightarrow> 'g \<Rightarrow> 'g option"
  cy_RegisterHandlerDirective :: "string \<Rightarrow> 'g \<Rightarrow> 'g option"
  cy_RegisterDirectiveOrder :: "string \<Rightarrow> string \<Rightarrow> 'g \<Rightarrow> 'g option"
  cy_modules :: "'g \<Rightarrow> string set"
  cy_directives :: "'g \<Rightarrow> string set"
  cy_order :: "'g \<Rightarrow> string list"
  cy_standard :: "string set"

text \<open>\<open>None\<close>: the call panics.\<close>

fun run_init :: "'g caddy_ops \<Rightarrow> init_call \<Rightarrow> 'g \<Rightarrow> 'g option" where
  "run_init C (RegisterModule m) g = cy_RegisterModule C m g"
| "run_init C (RegisterHandlerDirective d) g = cy_RegisterHandlerDirective C d g"
| "run_init C (RegisterDirectiveOrder d std) g = cy_RegisterDirectiveOrder C d std g"

fun run_inits :: "'g caddy_ops \<Rightarrow> init_call list \<Rightarrow> 'g \<Rightarrow> 'g option" where
  "run_inits C [] g = Some g"
| "run_inits C (i # is) g = Option.bind (run_init C i g) (run_inits C is)"

definition caddy_laws :: "'g caddy_ops \<Rightarrow> bool" where
  "caddy_laws C \<longleftrightarrow>
    (\<forall>m g. m \<noteq> [] \<and> m \<notin> cy_modules C g \<longrightarrow> (\<exists>g'. cy_RegisterModule C m g = Some g'
        \<and> cy_modules C g' = insert m (cy_modules C g) \<and> cy_directives C g' = cy_directives C g \<and> cy_order C g' = cy_order C g))
    \<and> (\<forall>d g. d \<notin> cy_directives C g \<longrightarrow> (\<exists>g'. cy_RegisterHandlerDirective C d g = Some g'
        \<and> cy_modules C g' = cy_modules C g \<and> cy_directives C g' = insert d (cy_directives C g) \<and> cy_order C g' = cy_order C g))
    \<and> (\<forall>d std g xs ys. std \<in> cy_standard C \<and> d \<notin> set (cy_order C g) \<and> cy_order C g = xs @ std # ys \<and> std \<notin> set xs \<longrightarrow>
        (\<exists>g'. cy_RegisterDirectiveOrder C d std g = Some g' \<and> cy_order C g' = xs @ d # std # ys
          \<and> cy_modules C g' = cy_modules C g \<and> cy_directives C g' = cy_directives C g))"

lemma caddy_lawsD:
  assumes "caddy_laws C"
  shows "m \<noteq> [] \<Longrightarrow> m \<notin> cy_modules C g \<Longrightarrow> \<exists>g'. cy_RegisterModule C m g = Some g'
      \<and> cy_modules C g' = insert m (cy_modules C g) \<and> cy_directives C g' = cy_directives C g \<and> cy_order C g' = cy_order C g"
    and "d \<notin> cy_directives C g \<Longrightarrow> \<exists>g'. cy_RegisterHandlerDirective C d g = Some g'
      \<and> cy_modules C g' = cy_modules C g \<and> cy_directives C g' = insert d (cy_directives C g) \<and> cy_order C g' = cy_order C g"
    and "std \<in> cy_standard C \<Longrightarrow> d \<notin> set (cy_order C g) \<Longrightarrow> cy_order C g = xs @ std # ys \<Longrightarrow> std \<notin> set xs \<Longrightarrow>
      \<exists>g'. cy_RegisterDirectiveOrder C d std g = Some g' \<and> cy_order C g' = xs @ d # std # ys
        \<and> cy_modules C g' = cy_modules C g \<and> cy_directives C g' = cy_directives C g"
  using assms unfolding caddy_laws_def by simp_all

text \<open>A Caddy without the plug-ins: nothing of theirs is registered, and \<open>order\<close> is the standard order.\<close>

definition fresh_caddy :: "'g caddy_ops \<Rightarrow> string list \<Rightarrow> string list \<Rightarrow> string list \<Rightarrow> 'g \<Rightarrow> bool" where
  "fresh_caddy C pre mid post g \<longleftrightarrow>
     cy_order C g = pre @ ''request_header'' # mid @ ''reverse_proxy'' # post
     \<and> distinct (cy_order C g) \<and> set (cy_order C g) \<subseteq> cy_standard C
     \<and> {''fairness'', ''adaptive_admission''} \<inter> set (cy_order C g) = {}
     \<and> {''fairness'', ''adaptive_admission''} \<inter> cy_directives C g = {}
     \<and> {m. RegisterModule m \<in> set plugin_calls} \<inter> cy_modules C g = {}"

text \<open>The directive order after the calls in \<open>done\<close>.\<close>

definition order_after :: "string list \<Rightarrow> string list \<Rightarrow> string list \<Rightarrow> init_call set \<Rightarrow> string list" where
  "order_after pre mid post dn =
    pre @ (if RegisterDirectiveOrder ''fairness'' ''request_header'' \<in> dn then [''fairness''] else []) @ ''request_header'' # mid
      @ (if RegisterDirectiveOrder ''adaptive_admission'' ''reverse_proxy'' \<in> dn then [''adaptive_admission''] else [])
      @ ''reverse_proxy'' # post"

definition inits_inv :: "'g caddy_ops \<Rightarrow> string list \<Rightarrow> string list \<Rightarrow> string list \<Rightarrow> 'g \<Rightarrow> init_call set \<Rightarrow> 'g \<Rightarrow> bool" where
  "inits_inv C pre mid post g0 dn g \<longleftrightarrow>
     cy_order C g = order_after pre mid post dn
     \<and> cy_modules C g = cy_modules C g0 \<union> {m. RegisterModule m \<in> dn}
     \<and> cy_directives C g = cy_directives C g0 \<union> {d. RegisterHandlerDirective d \<in> dn}"

lemma plugin_calls_eq:
  "plugin_calls = [RegisterModule ''admin.api.adaptive_admission'', RegisterModule ''adaptive_admission'',
     RegisterModule ''http.handlers.adaptive_admission'', RegisterHandlerDirective ''adaptive_admission'',
     RegisterDirectiveOrder ''adaptive_admission'' ''reverse_proxy'',
     RegisterModule ''admin.api.fairness'', RegisterModule ''fairness'', RegisterModule ''http.handlers.fairness'',
     RegisterHandlerDirective ''fairness'', RegisterDirectiveOrder ''fairness'' ''request_header'']"
  by (simp add: plugin_calls_def admission_admin_init_def admission_app_init_def admission_module_init_def
      fairness_admin_init_def fairness_app_init_def fairness_module_init_def module_IDs)

lemma plugin_calls_distinct: "distinct plugin_calls"
  unfolding plugin_calls_eq by code_simp

lemma plugin_calls_cases:
  assumes "i \<in> set plugin_calls"
  obtains m where "i = RegisterModule m" "m \<noteq> []"
    | d where "i = RegisterHandlerDirective d" "d \<in> {''fairness'', ''adaptive_admission''}"
    | "i = RegisterDirectiveOrder ''adaptive_admission'' ''reverse_proxy''"
    | "i = RegisterDirectiveOrder ''fairness'' ''request_header''"
  using assms unfolding plugin_calls_eq by auto

lemma order_after_step:
  "order_after pre mid post (insert (RegisterModule m) dn) = order_after pre mid post dn"
  "order_after pre mid post (insert (RegisterHandlerDirective d) dn) = order_after pre mid post dn"
  by (simp_all add: order_after_def)

lemma init_step:
  assumes "caddy_laws C" "fresh_caddy C pre mid post g0" "inits_inv C pre mid post g0 dn g" "i \<in> set plugin_calls" "i \<notin> dn"
  shows "\<exists>g'. run_init C i g = Some g' \<and> inits_inv C pre mid post g0 (insert i dn) g'"
  using assms(4)
proof (cases rule: plugin_calls_cases)
  case (1 m)
  have "m \<notin> cy_modules C g" using assms(2-5) 1 by (auto simp: inits_inv_def fresh_caddy_def)
  then obtain g' where "cy_RegisterModule C m g = Some g'" "cy_modules C g' = insert m (cy_modules C g)"
    "cy_directives C g' = cy_directives C g" "cy_order C g' = cy_order C g"
    using caddy_lawsD(1) [OF assms(1), of m g] 1 by auto
  then show ?thesis using assms(3) 1 by (auto simp: inits_inv_def order_after_step)
next
  case (2 d)
  have "d \<notin> cy_directives C g" using assms(2-5) 2 by (auto simp: inits_inv_def fresh_caddy_def)
  then obtain g' where "cy_RegisterHandlerDirective C d g = Some g'" "cy_modules C g' = cy_modules C g"
    "cy_directives C g' = insert d (cy_directives C g)" "cy_order C g' = cy_order C g"
    using caddy_lawsD(2) [OF assms(1), of d g] by auto
  then show ?thesis using assms(3) 2 by (auto simp: inits_inv_def order_after_step)
next
  case 3
  let ?f = "if RegisterDirectiveOrder ''fairness'' ''request_header'' \<in> dn then [''fairness''] else []"
  let ?xs = "pre @ ?f @ ''request_header'' # mid"
  have o: "cy_order C g = ?xs @ ''reverse_proxy'' # post" using assms(3,5) 3 by (simp add: inits_inv_def order_after_def)
  have std: "''reverse_proxy'' \<in> cy_standard C" "''reverse_proxy'' \<notin> set ?xs" "''adaptive_admission'' \<notin> set (cy_order C g)"
    using assms(2) unfolding o by (auto simp: fresh_caddy_def)
  then obtain g' where "cy_RegisterDirectiveOrder C ''adaptive_admission'' ''reverse_proxy'' g = Some g'"
    "cy_order C g' = ?xs @ ''adaptive_admission'' # ''reverse_proxy'' # post"
    "cy_modules C g' = cy_modules C g" "cy_directives C g' = cy_directives C g"
    using caddy_lawsD(3) [OF assms(1) std(1) std(3) o std(2)] by blast
  then show ?thesis using assms(3) 3 by (auto simp: inits_inv_def order_after_def)
next
  case 4
  let ?ys = "mid @ (if RegisterDirectiveOrder ''adaptive_admission'' ''reverse_proxy'' \<in> dn then [''adaptive_admission''] else [])
      @ ''reverse_proxy'' # post"
  have o: "cy_order C g = pre @ ''request_header'' # ?ys" using assms(3,5) 4 by (simp add: inits_inv_def order_after_def)
  have std: "''request_header'' \<in> cy_standard C" "''request_header'' \<notin> set pre" "''fairness'' \<notin> set (cy_order C g)"
    using assms(2) unfolding o by (auto simp: fresh_caddy_def)
  then obtain g' where "cy_RegisterDirectiveOrder C ''fairness'' ''request_header'' g = Some g'"
    "cy_order C g' = pre @ ''fairness'' # ''request_header'' # ?ys"
    "cy_modules C g' = cy_modules C g" "cy_directives C g' = cy_directives C g"
    using caddy_lawsD(3) [OF assms(1) std(1) std(3) o std(2)] by blast
  then show ?thesis using assms(3) 4 by (auto simp: inits_inv_def order_after_def)
qed

lemma inits_run:
  assumes "caddy_laws C" "fresh_caddy C pre mid post g0" "inits_inv C pre mid post g0 dn g"
    "set is \<subseteq> set plugin_calls" "distinct is" "set is \<inter> dn = {}"
  shows "\<exists>g'. run_inits C is g = Some g' \<and> inits_inv C pre mid post g0 (set is \<union> dn) g'"
  using assms(3-6)
proof (induction "is" arbitrary: dn g)
  case (Cons i "is")
  obtain g1 where g1: "run_init C i g = Some g1" "inits_inv C pre mid post g0 (insert i dn) g1"
    using init_step [OF assms(1,2) Cons.prems(1), of i] Cons.prems by auto
  have "set is \<inter> insert i dn = {}" using Cons.prems by auto
  then obtain g2 where "run_inits C is g1 = Some g2" "inits_inv C pre mid post g0 (set is \<union> insert i dn) g2"
    using Cons.IH [OF g1(2)] Cons.prems by auto
  then show ?case using g1 by (auto simp del: run_init.simps)
qed simp

section \<open>App modules\<close>

text \<open>\<open>Start\<close> and \<open>Stop\<close> of both app modules have nothing to do and never fail.\<close>

definition admission_App_Start :: "AdmissionApp \<Rightarrow> string option \<times> AdmissionApp" where "admission_App_Start a = (None, a)"
definition admission_App_Stop :: "AdmissionApp \<Rightarrow> string option \<times> AdmissionApp" where "admission_App_Stop a = (None, a)"
definition fairness_App_Start :: "('p, 'q) FairnessApp \<Rightarrow> string option \<times> ('p, 'q) FairnessApp" where "fairness_App_Start a = (None, a)"
definition fairness_App_Stop :: "('p, 'q) FairnessApp \<Rightarrow> string option \<times> ('p, 'q) FairnessApp" where "fairness_App_Stop a = (None, a)"

text \<open>
  \<open>Provision\<close> of the fairness app with the registration of its collectors: \<open>Inl\<close> is a panic.
\<close>

definition fairness_App_Provision :: "(collector \<Rightarrow> 'r \<Rightarrow> register_result \<times> 'r) \<Rightarrow> 'r option \<Rightarrow> 'p \<Rightarrow> 'q
    \<Rightarrow> string + ('p, 'q) FairnessApp \<times> 'r option" where
  "fairness_App_Provision Register registry newGeoPool newAuthPool =
    (case initFairnessMetrics Register registry fairnessMetrics of
       Inl e \<Rightarrow> Inl e | Inr (r, s) \<Rightarrow> Inr (fapp_Provision newGeoPool newAuthPool, r))"

section \<open>The admin endpoints\<close>

text \<open>
  The context is kept by \<open>Provision\<close> and asked when a request comes: \<open>world\<close> is what the context
  answers at that time. \<open>ad_app\<close> is the override of the tests.
\<close>

record 'a AdminAPI =
  ad_ctx :: "nat option"
  ad_app :: "'a option"

definition AdminAPI_Provision :: "nat \<Rightarrow> 'a AdminAPI \<Rightarrow> 'a AdminAPI" where
  "AdminAPI_Provision ctx a = a\<lparr>ad_ctx := Some ctx\<rparr>"

definition resolvedApp :: "string \<Rightarrow> (nat option \<Rightarrow> string \<Rightarrow> 'a app_lookup) \<Rightarrow> 'a AdminAPI \<Rightarrow> 'a option" where
  "resolvedApp name world a =
    (case ad_app a of
       Some app \<Rightarrow> Some app
     | None \<Rightarrow> (case world (ad_ctx a) name of AppFound app \<Rightarrow> Some app | _ \<Rightarrow> None))"

definition admission_resolvedApp :: "(nat option \<Rightarrow> string \<Rightarrow> AdmissionApp app_lookup) \<Rightarrow> AdmissionApp AdminAPI \<Rightarrow> AdmissionApp option" where
  "admission_resolvedApp = resolvedApp ''adaptive_admission''"

definition fairness_resolvedApp :: "(nat option \<Rightarrow> string \<Rightarrow> ('p, 'q) FairnessApp app_lookup) \<Rightarrow> ('p, 'q) FairnessApp AdminAPI
    \<Rightarrow> ('p, 'q) FairnessApp option" where
  "fairness_resolvedApp = resolvedApp ''fairness''"

text \<open>A route is its pattern and the handler behind it.\<close>

definition admission_Routes :: "(nat option \<Rightarrow> string \<Rightarrow> AdmissionApp app_lookup) \<Rightarrow> (handler_ptr \<Rightarrow> AdmissionHandler)
    \<Rightarrow> AdmissionApp AdminAPI \<Rightarrow> (string \<times> (string \<Rightarrow> status_error + backendControllerStatus list)) list" where
  "admission_Routes world deref a =
    [(''/adaptive_admission/status'', \<lambda>method. handleStatus method deref (admission_resolvedApp world a))]"

definition fairness_Routes :: "('p, 'q) app_env \<Rightarrow> (nat option \<Rightarrow> string \<Rightarrow> ('p, 'q) FairnessApp app_lookup) \<Rightarrow> (handler_ptr \<Rightarrow> FairnessHandler)
    \<Rightarrow> ('p, 'q) FairnessApp AdminAPI \<Rightarrow> (string \<times> (string \<Rightarrow> fstatus_error + fairness_status)) list" where
  "fairness_Routes E world deref a =
    [(''/fairness/status'', \<lambda>method. fhandleStatus E method deref (fairness_resolvedApp world a))]"

text \<open>What the admin server does with a request for a path: \<open>None\<close> if no route has it.\<close>

definition serve_admin :: "(string \<times> (string \<Rightarrow> 'b)) list \<Rightarrow> string \<Rightarrow> string \<Rightarrow> 'b option" where
  "serve_admin routes path method = map_option (\<lambda>f. f method) (map_of routes path)"

text \<open>A sorted list of reports names every key of a map once.\<close>

lemma sorted_labels:
  assumes "wf_map m" "mset xs = mset (map snd m)" "\<And>b p. (b, p) \<in> set m \<Longrightarrow> f (g p) = b"
  shows "map f (sort_key f (map g xs)) = sorted_list_of_set (fst ` set m)"
proof -
  have "map f (map g (map snd m)) = map fst m" using assms(3) by (induction m) auto
  moreover have "mset (map f (sort_key f (map g xs))) = mset (map f (map g (map snd m)))"
    unfolding mset_map [of f] mset_sort mset_map [of g] assms(2) ..
  ultimately have "mset (map f (sort_key f (map g xs))) = mset (map fst m)" by (simp only:)
  then have "map f (sort_key f (map g xs)) = sort (map fst m)"
    by (metis properties_for_sort sorted_sort_key mset_sort)
  also have "\<dots> = sorted_list_of_set (set (map fst m))"
    using assms(1) by (simp only: sorted_list_of_set_sort_remdups wf_map_def distinct_remdups_id)
  finally show ?thesis by simp
qed

lemma registered_keys: "app_handlers a = Some m \<Longrightarrow> {b. registered a b \<noteq> None} = fst ` set m"
  by (force simp: registered_def dom_map_of_conv_image_fst [symmetric] dom_def)

text \<open>Every handler is registered under its own label.\<close>

definition labelled :: "(handler_ptr \<Rightarrow> AdmissionHandler) \<Rightarrow> AdmissionApp \<Rightarrow> bool" where
  "labelled deref a \<longleftrightarrow> (case app_handlers a of None \<Rightarrow> True
     | Some m \<Rightarrow> wf_map m \<and> (\<forall>(b, p) \<in> set m. backendLabel (ah_Config (deref p)) = b))"

lemma status_backends:
  assumes "labelled deref a"
  shows "\<exists>bs. handleStatus ''GET'' deref (Some a) = Inr bs \<and> map bs_Backend bs = sorted_list_of_set {b. registered a b \<noteq> None}
    \<and> (\<forall>b p. registered a b = Some p \<longrightarrow> backend_status (deref p) \<in> set bs)"
proof (cases "app_handlers a")
  case None
  then show ?thesis by (simp add: handleStatus_def snapshotHandlers_def registered_def)
next
  case (Some m)
  let ?xs = "sort_key (\<lambda>p. backendLabel (ah_Config (deref p))) (map snd m)"
  let ?bs = "sort_key bs_Backend (map (\<lambda>p. backend_status (deref p)) ?xs)"
  have "map bs_Backend ?bs = sorted_list_of_set (fst ` set m)"
    by (rule sorted_labels) (use assms Some in \<open>auto simp: labelled_def backend_status_def Let_def\<close>)
  moreover have "backend_status (deref p) \<in> set ?bs" if "registered a b = Some p" for b p
    using that Some by (force simp: registered_def dest: map_of_SomeD)
  ultimately show ?thesis using registered_keys [OF Some] Some by (simp add: handleStatus_def snapshotHandlers_def)
qed

section \<open>Properties\<close>

text \<open>
  C36: fairness always runs first: in whatever order the packages and their files initialise, no
  registration panics, and in the resulting directive order \<open>fairness\<close> comes immediately before
  \<open>request_header\<close> and \<open>adaptive_admission\<close> immediately before \<open>reverse_proxy\<close>, everything else
  staying where it was; so the score is set before the admission handler reads it.
\<close>

theorem directive_order_is_fixed:
  assumes "caddy_laws C" "fresh_caddy C pre mid post g0" "mset is = mset plugin_calls"
  shows "\<exists>g. run_inits C is g0 = Some g
    \<and> cy_order C g = pre @ [''fairness'', ''request_header''] @ mid @ [''adaptive_admission'', ''reverse_proxy''] @ post
    \<and> cy_directives C g = cy_directives C g0 \<union> {''fairness'', ''adaptive_admission''}
    \<and> cy_modules C g = cy_modules C g0 \<union> {admission_Handler_ID, admission_App_ID, admission_AdminAPI_ID,
        fairness_Handler_ID, fairness_App_ID, fairness_AdminAPI_ID}"
proof -
  have s: "set is = set plugin_calls" "distinct is"
    using assms(3) mset_eq_setD mset_eq_imp_distinct_iff plugin_calls_distinct by (blast, blast)
  have "inits_inv C pre mid post g0 {} g0" using assms(2) by (simp add: inits_inv_def order_after_def fresh_caddy_def)
  then obtain g where g: "run_inits C is g0 = Some g" "inits_inv C pre mid post g0 (set is \<union> {}) g"
    using inits_run [OF assms(1,2), of "{}" g0 "is"] s by auto
  have "{m. RegisterModule m \<in> set plugin_calls} = {admission_Handler_ID, admission_App_ID, admission_AdminAPI_ID,
        fairness_Handler_ID, fairness_App_ID, fairness_AdminAPI_ID}"
    "{d. RegisterHandlerDirective d \<in> set plugin_calls} = {''fairness'', ''adaptive_admission''}"
    by (auto simp: plugin_calls_eq module_IDs)
  then show ?thesis
    using g(1,2) unfolding inits_inv_def s(1) by (auto simp: order_after_def plugin_calls_eq)
qed

text \<open>A Caddy with a standard order of four directives.\<close>

record demo_caddy =
  dc_modules :: "string set"
  dc_directives :: "string set"
  dc_order :: "string list"

definition standard_order :: "string list" where
  "standard_order = [''log'', ''request_header'', ''encode'', ''reverse_proxy'', ''file_server'']"

definition demo_ops :: "demo_caddy caddy_ops" where
  "demo_ops =
    \<lparr>cy_RegisterModule = (\<lambda>m g. if m = [] \<or> m \<in> dc_modules g then None else Some (g\<lparr>dc_modules := insert m (dc_modules g)\<rparr>)),
     cy_RegisterHandlerDirective = (\<lambda>d g. if d \<in> dc_directives g then None else Some (g\<lparr>dc_directives := insert d (dc_directives g)\<rparr>)),
     cy_RegisterDirectiveOrder = (\<lambda>d std g. if std \<notin> set standard_order then None
        else Some (g\<lparr>dc_order := takeWhile (\<lambda>x. x \<noteq> std) (removeAll d (dc_order g)) @ d # dropWhile (\<lambda>x. x \<noteq> std) (removeAll d (dc_order g))\<rparr>)),
     cy_modules = dc_modules, cy_directives = dc_directives, cy_order = dc_order, cy_standard = set standard_order\<rparr>"

definition demo_fresh :: demo_caddy where
  "demo_fresh = \<lparr>dc_modules = {''http''}, dc_directives = set standard_order, dc_order = standard_order\<rparr>"

lemma split_at: "std \<notin> set xs \<Longrightarrow> takeWhile (\<lambda>x. x \<noteq> std) (xs @ std # ys) = xs \<and> dropWhile (\<lambda>x. x \<noteq> std) (xs @ std # ys) = std # ys"
  by (induction xs) auto

lemma demo_ops_laws: "caddy_laws demo_ops"
proof -
  have "\<exists>g'. cy_RegisterDirectiveOrder demo_ops d std g = Some g' \<and> cy_order demo_ops g' = xs @ d # std # ys
      \<and> cy_modules demo_ops g' = cy_modules demo_ops g \<and> cy_directives demo_ops g' = cy_directives demo_ops g"
    if "std \<in> cy_standard demo_ops" "d \<notin> set (cy_order demo_ops g)" "cy_order demo_ops g = xs @ std # ys" "std \<notin> set xs"
    for d std g xs ys
  proof -
    have "dc_order g = xs @ std # ys" "d \<notin> set (dc_order g)" using that by (simp_all add: demo_ops_def)
    then have "removeAll d (dc_order g) = xs @ std # ys" using removeAll_id [of d "dc_order g"] by simp
    then have "takeWhile (\<lambda>x. x \<noteq> std) (removeAll d (dc_order g)) = xs" "dropWhile (\<lambda>x. x \<noteq> std) (removeAll d (dc_order g)) = std # ys"
      using split_at [OF that(4), of ys] by simp_all
    then show ?thesis using that(1) by (simp add: demo_ops_def)
  qed
  moreover have "m \<noteq> [] \<Longrightarrow> m \<notin> cy_modules demo_ops g \<Longrightarrow> \<exists>g'. cy_RegisterModule demo_ops m g = Some g'
      \<and> cy_modules demo_ops g' = insert m (cy_modules demo_ops g) \<and> cy_directives demo_ops g' = cy_directives demo_ops g
      \<and> cy_order demo_ops g' = cy_order demo_ops g" for m g
    by (simp add: demo_ops_def)
  moreover have "d \<notin> cy_directives demo_ops g \<Longrightarrow> \<exists>g'. cy_RegisterHandlerDirective demo_ops d g = Some g'
      \<and> cy_modules demo_ops g' = cy_modules demo_ops g \<and> cy_directives demo_ops g' = insert d (cy_directives demo_ops g)
      \<and> cy_order demo_ops g' = cy_order demo_ops g" for d g
    by (simp add: demo_ops_def)
  ultimately show ?thesis unfolding caddy_laws_def by blast
qed

lemma demo_fresh_ok: "fresh_caddy demo_ops [''log''] [''encode''] [''file_server''] demo_fresh"
  by (simp add: fresh_caddy_def demo_ops_def demo_fresh_def standard_order_def plugin_calls_eq)

theorem directive_order_is_fixed_witness:
  "map_option (cy_order demo_ops) (run_inits demo_ops (rev plugin_calls) demo_fresh) =
    Some [''log'', ''fairness'', ''request_header'', ''encode'', ''adaptive_admission'', ''reverse_proxy'', ''file_server'']"
  using directive_order_is_fixed [OF demo_ops_laws demo_fresh_ok, of "rev plugin_calls"] by auto

text \<open>
  the status endpoint reports the configuration of the moment: it is served at one path only
  and for GET only; it answers \<open>not found\<close> exactly while the context does not know the app,
  although the admin module was provisioned before it, and otherwise lists every backend
  registered by then, each once and in the order of the labels, with the live values of its
  handler.
\<close>

theorem status_follows_the_context:
  assumes "ad_app a = None" "\<And>app. world (Some ctx) ''adaptive_admission'' = AppFound app \<Longrightarrow> labelled deref app"
  shows "case serve_admin (admission_Routes world deref (AdminAPI_Provision ctx a)) path method of
      None \<Rightarrow> path \<noteq> ''/adaptive_admission/status''
    | Some (Inl MethodNotAllowed) \<Rightarrow> method \<noteq> ''GET''
    | Some (Inl NotConfigured) \<Rightarrow> method = ''GET'' \<and> (\<forall>app. world (Some ctx) ''adaptive_admission'' \<noteq> AppFound app)
    | Some (Inr bs) \<Rightarrow> method = ''GET'' \<and> (\<exists>app. world (Some ctx) ''adaptive_admission'' = AppFound app
        \<and> map bs_Backend bs = sorted_list_of_set {b. registered app b \<noteq> None}
        \<and> (\<forall>b p. registered app b = Some p \<longrightarrow> backend_status (deref p) \<in> set bs))"
proof (cases "path = ''/adaptive_admission/status'' \<and> method = ''GET''")
  case True
  have r: "serve_admin (admission_Routes world deref (AdminAPI_Provision ctx a)) path method =
      Some (handleStatus ''GET'' deref (case world (Some ctx) ''adaptive_admission'' of AppFound app \<Rightarrow> Some app | _ \<Rightarrow> None))"
    using True assms(1)
    by (simp add: serve_admin_def admission_Routes_def admission_resolvedApp_def resolvedApp_def AdminAPI_Provision_def
        split: app_lookup.split)
  show ?thesis
  proof (cases "world (Some ctx) ''adaptive_admission''")
    case (AppFound app)
    then show ?thesis using r True status_backends [OF assms(2) [OF AppFound]] by auto
  qed (use r True in \<open>simp_all add: handleStatus_def\<close>)
next
  case False
  then show ?thesis by (auto simp: serve_admin_def admission_Routes_def handleStatus_def)
qed

text \<open>Two handlers with the labels \<open>web\<close> and \<open>api\<close>, before and after the app is loaded.\<close>

definition labelled_handler :: "handler_ptr \<Rightarrow> AdmissionHandler" where
  "labelled_handler p = \<lparr>ah_Config = demo_backend\<lparr>ad_Backend := (if p = 1 then ''web'' else ''api'')\<rparr>,
     ah_scheduler = NewScheduler (queueConfig demo_backend) (NewFixedController 3), ah_backend = (if p = 1 then ''web'' else ''api'')\<rparr>"

definition loaded_app :: AdmissionApp where
  "loaded_app = registerHandler ''api'' 2 (registerHandler ''web'' 1 \<lparr>app_handlers = None\<rparr>)"

definition demo_world :: "bool \<Rightarrow> nat option \<Rightarrow> string \<Rightarrow> AdmissionApp app_lookup" where
  "demo_world loaded ctx name = (if loaded then AppFound loaded_app else AppError)"

theorem status_follows_the_context_witness:
  "(\<exists>bs. serve_admin (admission_Routes (demo_world True) labelled_handler (AdminAPI_Provision 5 \<lparr>ad_ctx = None, ad_app = None\<rparr>))
      ''/adaptive_admission/status'' ''GET'' = Some (Inr bs) \<and> map bs_Backend bs = sorted_list_of_set {b. registered loaded_app b \<noteq> None}
      \<and> backend_status (labelled_handler 2) \<in> set bs)
   \<and> serve_admin (admission_Routes (demo_world False) labelled_handler (AdminAPI_Provision 5 \<lparr>ad_ctx = None, ad_app = None\<rparr>))
      ''/adaptive_admission/status'' ''GET'' = Some (Inl NotConfigured)"
proof -
  have app: "app_handlers loaded_app = Some [(''web'', 1), (''api'', 2)]"
    by (simp add: loaded_app_def registerHandler_def map_put_def)
  then have l: "labelled labelled_handler loaded_app" "registered loaded_app ''api'' = Some 2"
    by (simp_all add: labelled_def labelled_handler_def backendLabel_def wf_map_def registered_def)
  have on: "\<exists>bs. serve_admin (admission_Routes (demo_world True) labelled_handler (AdminAPI_Provision 5 \<lparr>ad_ctx = None, ad_app = None\<rparr>))
      ''/adaptive_admission/status'' ''GET'' = Some (Inr bs)"
    "serve_admin (admission_Routes (demo_world False) labelled_handler (AdminAPI_Provision 5 \<lparr>ad_ctx = None, ad_app = None\<rparr>))
      ''/adaptive_admission/status'' ''GET'' = Some (Inl NotConfigured)"
    by (simp_all add: serve_admin_def admission_Routes_def admission_resolvedApp_def resolvedApp_def AdminAPI_Provision_def
        demo_world_def handleStatus_def)
  then show ?thesis
    using status_follows_the_context [of "\<lparr>ad_ctx = None, ad_app = None\<rparr>" "demo_world True" 5 labelled_handler
        "''/adaptive_admission/status''" "''GET''"] l
    by (auto simp: demo_world_def)
qed

end
