(* ===== verification/Fair_Queueing.thy ===== *)
theory Fair_Queueing imports Scoring_Properties Fairness_Handler Admission begin

text \<open>
  The two handlers together: the rates the fairness handler keeps of a client decide, through the
  score in the variables of a request, who is served first by the admission queue.
\<close>

section \<open>Traffic and scores\<close>

text \<open>The rate that counts against a request in a dimension: none if it does not apply or the country is exempt.\<close>

definition scored_rate :: "scoringState \<Rightarrow> Classification \<Rightarrow> string \<Rightarrow> PenaltyConfig \<Rightarrow> f64" where
  "scored_rate s c dm pc =
    (case dimensionKey dm c of
       None \<Rightarrow> Fin 0
     | Some k \<Rightarrow> if map_get (pc_ExemptCountries pc) (cl_Country c) = Some True then Fin 0 else entryEWMARPS dm k (Some s))"

lemma scored_rate_eq: "(\<And>dm k. entryEWMARPS dm k (Some z) = entryEWMARPS dm k (Some s)) \<Longrightarrow> scored_rate z = scored_rate s"
  by (intro ext) (simp add: scored_rate_def split: option.split)

definition tuning_ok :: "ScoringConfig \<Rightarrow> bool" where
  "tuning_ok cfg \<longleftrightarrow> config_ok cfg \<and> fle (sc_MinScore cfg) (sc_MaxScore cfg)
     \<and> list_all (\<lambda>(dm, pc). fle (Fin 0) (pc_SoftThreshold pc) \<and> fle (Fin 0) (pc_HardThreshold pc)) (sc_Dimensions cfg)"

text \<open>
  The same configuration, finite base scores of which the first is not the lower one, and no
  enabled dimension counts more traffic for the first.
\<close>

definition lighter :: "scoringState \<Rightarrow> Classification \<Rightarrow> scoringState \<Rightarrow> Classification \<Rightarrow> bool" where
  "lighter s c s' c' \<longleftrightarrow> ss_cfg s' = ss_cfg s
     \<and> (case (baseScoreFor (sc_BaseScores (ss_cfg s)) (cl_UserClass c), baseScoreFor (sc_BaseScores (ss_cfg s)) (cl_UserClass c')) of
          (Fin b, Fin b') \<Rightarrow> b' \<le> b | _ \<Rightarrow> False)
     \<and> list_all (\<lambda>(dm, pc). fle (scored_rate s c dm pc) (scored_rate s' c' dm pc)) (sc_Dimensions (ss_cfg s))"

lemma dim_penalty_rate:
  assumes "fle (Fin 0) (pc_SoftThreshold pc)" "fle (Fin 0) (pc_HardThreshold pc)"
  shows "dim_penalty s c dm pc = penaltyContribution pc (scored_rate s c dm pc)"
  using assms by (auto simp: dim_penalty_def scored_rate_def penaltyContribution_def fle_def flt_def split: option.split)

lemma lighter_scores:
  assumes "tuning_ok (ss_cfg s)" "lighter s c s' c'"
  shows "fle (computeScore (Some s') c') (computeScore (Some s) c)"
proof -
  let ?ds = "sc_Dimensions (ss_cfg s)"
  obtain b b' where b: "baseScoreFor (sc_BaseScores (ss_cfg s)) (cl_UserClass c) = Fin b"
    "baseScoreFor (sc_BaseScores (ss_cfg s)) (cl_UserClass c') = Fin b'" "ss_cfg s' = ss_cfg s" "b' \<le> b"
    using assms(2) by (auto simp: lighter_def split: f64.splits)
  have "list_all (\<lambda>(dm, pc). fle (dim_penalty s c dm pc) (dim_penalty s' c' dm pc)) ?ds"
    using assms penaltyContribution_mono(1)
    by (fastforce simp: tuning_ok_def lighter_def config_ok_def penalties_ok_def list_all_iff dim_penalty_rate)
  then have "fle (total_penalty s c ?ds (Fin 0)) (total_penalty s' c' ?ds (Fin 0))"
    using assms(1) by (intro total_penalty_le) (auto simp: tuning_ok_def config_ok_def penalties_ok_def list_all_iff fle_def)
  moreover have "fle (Fin 0) (total_penalty s c ?ds (Fin 0))"
    using assms(1) by (simp add: tuning_ok_def config_ok_def total_penalty_config)
  ultimately have "fle (fsub (Fin b') (total_penalty s' c' ?ds (Fin 0))) (fsub (Fin b) (total_penalty s c ?ds (Fin 0)))"
    using b(4) by (simp add: fsub_mono)
  then show ?thesis
    unfolding computeScore_Some b(1-3) using assms(1) by (intro clamp_mono) (simp_all add: tuning_ok_def)
qed

text \<open>Tracking the request itself does not change a rate before the next tick.\<close>

lemma track_rates:
  obtains s' where "track c now (Some s) = Some s'" "ss_cfg s' = ss_cfg s"
    "\<And>dm k. entryEWMARPS dm k (Some s') = entryEWMARPS dm k (Some s)"
proof -
  have one: "entryEWMARPS dm k (Some (touch_entry d l a s)) = entryEWMARPS dm k (Some s)" for d l a dm k s
    by (auto simp: entryEWMARPS_entry entry_def touch_entry_def track_entry_def Let_def zeroClientStats_def go_map split: option.split)
  have all: "entryEWMARPS dm k (Some (fold (\<lambda>(d, l, a). touch_entry d l a) ps s)) = entryEWMARPS dm k (Some s)" for ps dm k s
    by (induction ps arbitrary: s) (auto simp: one)
  show thesis by (rule that [OF track_touched]) (simp_all add: all)
qed

text \<open>The score a handler leaves in the variables of a request, from the rates it had when the request came.\<close>

lemma handed_score:
  assumes "fh_scoring h = Some s" "priorityDivisor (Some s) (rq_query r) = Fin d"
  obtains s' where "ss_cfg s' = ss_cfg s" "\<And>dm k. entryEWMARPS dm k (Some s') = entryEWMARPS dm k (Some s)"
    "score_of_vars (ho_vars (fServeHTTP R h r vs)) =
      (if d = 1 then computeScore (Some s') (ho_classification (fServeHTTP R h r vs))
       else fdiv (computeScore (Some s') (ho_classification (fServeHTTP R h r vs))) (Fin d))"
proof -
  define out where "out = fServeHTTP R h r vs"
  define c where "c = ho_classification out"
  obtain s' where s': "track c (re_now_track R) (fh_scoring h) = Some s'" "ss_cfg s' = ss_cfg s"
    "\<And>dm k. entryEWMARPS dm k (Some s') = entryEWMARPS dm k (Some s)"
    using track_rates [of c "re_now_track R" s] assms(1) by metis
  have d: "priorityDivisor (Some s') (rq_query r) = Fin d" using assms(2) s'(2) by (simp add: priorityDivisor_def)
  have "\<exists>fields. ho_vars out = map_put logFieldsVarKey fields (map_put scoreVarKey
      (VFloat (if \<not> feq (priorityDivisor (track c (re_now_track R) (fh_scoring h)) (rq_query r)) (Fin 1)
        then fdiv (computeScore (track c (re_now_track R) (fh_scoring h)) c) (priorityDivisor (track c (re_now_track R) (fh_scoring h)) (rq_query r))
        else computeScore (track c (re_now_track R) (fh_scoring h)) c))
      (map_put classificationVarKey VOther vs))"
    unfolding c_def out_def fServeHTTP_def Let_def split_beta computeScore_def by (auto simp del: not_None_eq)
  then have "score_of_vars (ho_vars out) =
      (if d = 1 then computeScore (Some s') c else fdiv (computeScore (Some s') c) (Fin d))"
    unfolding s'(1) d
    by (auto simp: score_of_vars_def go_map fairnessScoreVarKey_def scoreVarKey_def logFieldsVarKey_def feq_def)
  then show thesis using that s'(2,3) unfolding c_def out_def by blast
qed

section \<open>Property\<close>

text \<open>
  C3: between clients whose class and divisor do not decide, the heavier one never overtakes the
  lighter one. Let two requests be scored by the fairness handler under one configuration in which
  every enabled dimension has thresholds of at least zero and penalties with zero \<open>\<le>\<close> soft
  \<open>\<le>\<close> hard, and \<open>min_score\<close> \<open>\<le>\<close> \<open>max_score\<close>; let the second have a base score that is finite
  and no higher, the same positive divisor, and in every enabled dimension at least as much
  traffic counted against it. When both wait in the admission queue at once, the
  dispatch loop takes the second before the first only if their scores are equal and it came
  first, in whatever way requests, completions and adjustments interleave. (A higher base score
  or a smaller divisor is meant to outweigh traffic; scores are never NaN here.)
\<close>

theorem heavier_client_never_overtakes:
  assumes "sched_reachable M (\<lambda>x. x \<noteq> NaN) cfg ctl y" "length (y_accepted y) < 2 ^ 64"
    "waitPopHead (y_s y) = PopTicket t left" "u \<in> set (s_pq left)"
    "fh_scoring h = Some s" "t_Score u = score_of_vars (ho_vars (fServeHTTP R h r vs))"
    "fh_scoring h' = Some s'" "t_Score t = score_of_vars (ho_vars (fServeHTTP R' h' r' vs'))"
    "priorityDivisor (Some s) (rq_query r) = Fin d" "priorityDivisor (Some s') (rq_query r') = Fin d" "0 < d"
    "tuning_ok (ss_cfg s)"
    "lighter s (ho_classification (fServeHTTP R h r vs)) s' (ho_classification (fServeHTTP R' h' r' vs'))"
  shows "t_Score t = t_Score u \<and> t_seq t < t_seq u"
proof -
  obtain z where z: "ss_cfg z = ss_cfg s" "\<And>dm k. entryEWMARPS dm k (Some z) = entryEWMARPS dm k (Some s)"
    "t_Score u = (if d = 1 then computeScore (Some z) (ho_classification (fServeHTTP R h r vs))
       else fdiv (computeScore (Some z) (ho_classification (fServeHTTP R h r vs))) (Fin d))"
    using handed_score [OF assms(5,9), of R vs] assms(6) by metis
  obtain z' where z': "ss_cfg z' = ss_cfg s'" "\<And>dm k. entryEWMARPS dm k (Some z') = entryEWMARPS dm k (Some s')"
    "t_Score t = (if d = 1 then computeScore (Some z') (ho_classification (fServeHTTP R' h' r' vs'))
       else fdiv (computeScore (Some z') (ho_classification (fServeHTTP R' h' r' vs'))) (Fin d))"
    using handed_score [OF assms(7,10), of R' vs'] assms(8) by metis
  have "lighter z (ho_classification (fServeHTTP R h r vs)) z' (ho_classification (fServeHTTP R' h' r' vs'))"
    using assms(13) scored_rate_eq [OF z(2)] scored_rate_eq [OF z'(2)] by (simp add: lighter_def z(1) z'(1))
  then have "fle (computeScore (Some z') (ho_classification (fServeHTTP R' h' r' vs')))
      (computeScore (Some z) (ho_classification (fServeHTTP R h r vs)))"
    using lighter_scores assms(12) z(1) by simp
  then have "fle (t_Score t) (t_Score u)" using fdiv_mono_pos [OF _ assms(11)] z(3) z'(3) by simp
  then show ?thesis
    using popped_ticket_outranks_queue [OF assms(1-4)] by (auto simp: fle_def)
qed

text \<open>
  Two clients without a token, one with a rate of 7, one unknown: both score 60, so the heavier
  one, which came first, is served first.
\<close>

definition plain_env :: request_env where
  "plain_env = \<lparr>re_dbs = \<lparr>gd_country = (\<lambda>_ _. None), gd_asn = (\<lambda>_ _. None)\<rparr>, re_jwt = (\<lambda>_ _ _. None), re_hmac = (\<lambda>_ _. []),
     re_rand = None, re_now_read = 0, re_now_issue = 0, re_now_track = 7\<rparr>"

definition busy_state :: scoringState where
  "busy_state = (newScoringState demo_scoring second 0)
     \<lparr>ss_dims := [(''ip'', [(v4_string 7, zeroClientStats\<lparr>cs_EWMARPS := Fin 7\<rparr>)]), (''country'', [])]\<rparr>"

definition plain_handler :: FairnessHandler where
  "plain_handler =
    \<lparr>fh_Config = \<lparr>fc_Backend = ''api'', fc_GeoIPCityDB = [], fc_GeoIPASNDB = [], fc_AuthIssuer = [],
       fc_AuthJWKSURL = [], fc_AuthAudience = [], fc_IPv6PrefixLength = 0, fc_EWMATickInterval = 0, fc_IdleEntryTTL = 0,
       fc_SessionCookie = None\<rparr>,
     fh_app = False, fh_geo = None, fh_auth = None, fh_ScoringOverrides = None, fh_scoring = Some busy_state, fh_session = None\<rparr>"

definition plain_request :: "32 word \<Rightarrow> http_request" where
  "plain_request a = \<lparr>rq_client_ip = Some (v4_string a), rq_RemoteAddr = [], rq_Authorization = [], rq_cookies = [], rq_query = []\<rparr>"

definition plain_out :: "32 word \<Rightarrow> handed_on" where
  "plain_out a = fServeHTTP plain_env plain_handler (plain_request a) []"

lemma plain_client:
  "cl_IP (ho_classification (plain_out a)) = v4_string a" "cl_Country (ho_classification (plain_out a)) = []"
  "cl_UserClass (ho_classification (plain_out a)) = UserClassAnonymous"
  using ParseIP_v4_string [of a]
  by (simp_all add: plain_out_def fServeHTTP_def plain_env_def plain_handler_def plain_request_def resolveClientIP_def IP_String_def
      classify_def authenticate_def bearerToken_def lookup_def session_read_def Let_def split: prod.split)

lemma busy_facts:
  "ss_cfg busy_state = demo_scoring" "priorityDivisor (Some busy_state) (rq_query (plain_request a)) = Fin 1"
  "entryEWMARPS dm k (Some busy_state) = (if dm = ''ip'' \<and> k = v4_string 7 then Fin 7 else Fin 0)"
  "baseScoreFor (sc_BaseScores demo_scoring) UserClassAnonymous = Fin 60" "tuning_ok demo_scoring"
  using demo_scoring_facts demo_config_ok
  by (auto simp: busy_state_def newScoringState_def priorityDivisor_def plain_request_def demo_scoring_eq entryEWMARPS_def
      demo_client_def tuning_ok_def fle_def default_tuning_def)

lemma plain_rate:
  assumes "dm = ''ip'' \<or> dm = ''country''" "map_get (pc_ExemptCountries pc) [] \<noteq> Some True"
  shows "scored_rate busy_state (ho_classification (plain_out a)) dm pc = (if dm = ''ip'' \<and> a = 7 then Fin 7 else Fin 0)"
  using assms by (auto simp: scored_rate_def dimensionKey_def plain_client busy_facts v4_string_inject Let_def)

lemma plain_score: "score_of_vars (ho_vars (plain_out a)) = Fin 60"
proof -
  let ?c = "ho_classification (plain_out a)"
  have h: "fh_scoring plain_handler = Some busy_state" by (simp add: plain_handler_def)
  obtain z where z: "ss_cfg z = ss_cfg busy_state" "\<And>dm k. entryEWMARPS dm k (Some z) = entryEWMARPS dm k (Some busy_state)"
    "score_of_vars (ho_vars (plain_out a)) = computeScore (Some z) ?c"
    using handed_score [OF h busy_facts(2) [of a], of plain_env "[]"] unfolding plain_out_def [symmetric] by auto
  have "dim_penalty z ?c dm pc = Fin 0" if "(dm, pc) \<in> set (sc_Dimensions demo_scoring)" for dm pc
    using that plain_rate [where a = a]
    by (auto simp: dim_penalty_rate scored_rate_eq [OF z(2)] demo_scoring_eq default_tuning_def fle_def penaltyContribution_def)
  then have "total_penalty z ?c (sc_Dimensions demo_scoring) (Fin 0) = Fin 0"
    by (simp add: total_penalty_def demo_scoring_eq add_penalty_def)
  then show ?thesis
    using rnd_of_int [of 60] by (simp add: z(3) computeScore_Some z(1) busy_facts plain_client demo_scoring_facts clamp_def f64_ops)
qed

definition waiting_y :: ssys where
  "waiting_y = the (exec_acts log2lib [AEnqueue (Fin 60), AEnqueue (Fin 60), ALoop] (sched_init demo_cfg (NewFixedController 1)))"

lemma plain_lighter:
  "lighter busy_state (ho_classification (plain_out 9)) busy_state (ho_classification (plain_out 7))"
  by (simp add: lighter_def busy_facts plain_client) (simp add: demo_scoring_eq default_tuning_def plain_rate fle_def)

lemma waiting_facts:
  "case waitPopHead (y_s waiting_y) of PopTicket t left \<Rightarrow> t_Score t = Fin 60 \<and> t_seq t = 1 \<and> map t_Score (s_pq left) = [Fin 60]
     \<and> map t_seq (s_pq left) = [2] | _ \<Rightarrow> False"
  "length (y_accepted waiting_y) = 2"
  by code_simp+

theorem heavier_client_never_overtakes_witness:
  "\<exists>t u left. waitPopHead (y_s waiting_y) = PopTicket t left \<and> u \<in> set (s_pq left) \<and> t_Score t = t_Score u \<and> t_seq t < t_seq u"
proof -
  have "exec_acts log2lib [AEnqueue (Fin 60), AEnqueue (Fin 60), ALoop] (sched_init demo_cfg (NewFixedController 1)) \<noteq> None" by code_simp
  then have "exec_acts log2lib [AEnqueue (Fin 60), AEnqueue (Fin 60), ALoop] (sched_init demo_cfg (NewFixedController 1)) = Some waiting_y"
    by (auto simp: waiting_y_def)
  then have y: "sched_reachable log2lib (\<lambda>x. x \<noteq> NaN) demo_cfg (NewFixedController 1) waiting_y"
    by (rule exec_reachable) (simp add: act_ok_def)
  obtain t left u where p: "waitPopHead (y_s waiting_y) = PopTicket t left" "u \<in> set (s_pq left)" "t_Score t = Fin 60" "t_Score u = Fin 60"
    using waiting_facts(1) by (auto split: pop_result.splits simp: map_eq_Cons_conv)
  have h: "fh_scoring plain_handler = Some busy_state" by (simp add: plain_handler_def)
  have n: "length (y_accepted waiting_y) < 2 ^ 64" using waiting_facts(2) by simp
  have v: "Fin 60 = score_of_vars (ho_vars (fServeHTTP plain_env plain_handler (plain_request a) []))" for a
    using plain_score [of a] by (simp add: plain_out_def)
  have "t_Score t = t_Score u \<and> t_seq t < t_seq u"
    using heavier_client_never_overtakes [OF y n p(1,2) h _ h _ busy_facts(2) busy_facts(2), of plain_env 9 "[]" plain_env 7 "[]"]
      p(3,4) v plain_lighter busy_facts(1,5) by (simp add: plain_out_def)
  then show ?thesis using p by blast
qed

end
