(* ===== verification/Scoring_Block.thy ===== *)
theory Scoring_Block imports Fairness_Caddyfile begin

text \<open>
  A \<^verbatim>\<open>scoring\<close> block from its lines to the configuration: the parser of
  \<open>Fairness_Caddyfile\<close> and the resolution of \<open>Scoring\<close> against a reading of the block line by line,
  in which the last line that speaks of a setting decides.
\<close>

section \<open>What the lines of a scoring block mean\<close>




















end
