(* ===== verification/Spec2Isabelle.thy ===== *)
theory Spec2Isabelle imports Admission_Caddyfile Fairness_Caddyfile Fairness_Properties LoadTest_Main Admission_Lifecycle Scoring_Lifecycle Caddy_Modules Fair_Queueing Scoring_Block begin

text \<open>
  \<^bold>\<open>caddy-fair-admission\<close> is two Caddy HTTP handlers and a load generator. The \<^verbatim>\<open>fairness\<close>
  handler (\<^verbatim>\<open>fairness/\<close>) finds out who a request comes from, keeps traffic statistics per client,
  network, country and user, and computes a score. The \<^verbatim>\<open>adaptive_admission\<close> handler
  (\<^verbatim>\<open>adaptiveadmission/\<close>) queues requests by that score and lets as many run as a controller
  allows, fixed or adapting to the latencies and errors it observes. The two never call each other:
  the score and the log fields travel in variables of the request. Each handler has an app module
  that registers the live handlers for an admin endpoint; the fairness app also shares databases
  and key sets between handlers. \<^verbatim>\<open>loadtest/\<close> measures such a server.

  \<^bold>\<open>The theories\<close>, from the bottom (each opens with what it holds):

  \<^item> \<open>Go_Base\<close>, \<open>Float64\<close>, \<open>Go_Strings\<close>, \<open>Go_Text\<close>, \<open>Net_IP\<close>, \<open>Background\<close>: what the code
    uses of Go. 64-bit integers as \<open>int\<close> with \<open>wrap64\<close> where a result can leave the range, times,
    maps as association lists in the order a \<^verbatim>\<open>range\<close> visits them; IEEE 754 \<^verbatim>\<open>float64\<close> with
    rounding; \<^verbatim>\<open>strings\<close>, \<^verbatim>\<open>strconv\<close>, the verbs of \<^verbatim>\<open>fmt\<close> and the durations of \<^verbatim>\<open>time\<close>; the
    address functions of \<^verbatim>\<open>net\<close>; channels, wait groups and \<^verbatim>\<open>sync.Once\<close> of background goroutines.
  \<^item> \<open>OutcomeWindow\<close>, \<open>Controller\<close> (\<^verbatim>\<open>capacity.go\<close>): the rolling window of outcomes and the
    controller with \<open>Acquire\<close>, \<open>Release\<close>, \<open>adjust\<close>; a step relation for the goroutines around its
    condition variable.
  \<^item> \<open>GoHeap\<close>, \<open>TicketHeap\<close>, \<open>Scheduler\<close> (\<^verbatim>\<open>queue.go\<close>): \<^verbatim>\<open>container/heap\<close>, the tickets, and the
    scheduler with its dispatch loop as the step relation \<open>sched_step\<close>. \<open>Scheduler_Refinement\<close>: the
    abstract server it implements.
  \<^item> \<open>Dispatch\<close> (\<^verbatim>\<open>dispatch.go\<close>), \<open>Request_Vars\<close>, \<open>Registry\<close>, \<open>Admission\<close> (\<^verbatim>\<open>config.go\<close>, \<^verbatim>\<open>app.go\<close>,
    \<^verbatim>\<open>module.go\<close>, \<^verbatim>\<open>admin.go\<close>): one admitted request, the variables of a request, the registry
    of handlers both app modules implement, and the handler from \<open>Provision\<close> to the status report.
    \<open>Admission_Lifecycle\<close>: \<open>Provision\<close>, \<open>Cleanup\<close> and the goroutines between them.
  \<^item> \<open>Fairness_Config\<close>, \<open>Classify\<close> (\<^verbatim>\<open>classify.go\<close>, \<^verbatim>\<open>geoip.go\<close>, \<^verbatim>\<open>auth.go\<close>), \<open>Scoring\<close>,
    \<open>Scoring_Properties\<close> and \<open>Scoring_Lifecycle\<close> (\<^verbatim>\<open>scoring.go\<close>; the last one its two tickers and
    the interleaving of requests with them), \<open>Session\<close> (\<^verbatim>\<open>session.go\<close>), \<open>Fairness_App\<close>
    (\<^verbatim>\<open>app.go\<close>), \<open>Fairness_Handler\<close> and \<open>Fairness_Properties\<close> (\<^verbatim>\<open>module.go\<close>, \<^verbatim>\<open>admin.go\<close>).
  \<^item> \<open>Fair_Queueing\<close>: the two handlers together, from the rates of a client to its turn in the queue.
  \<^item> \<open>Caddyfile\<close>, \<open>Admission_Caddyfile\<close>, \<open>Fairness_Caddyfile\<close>: the two Caddyfile parsers;
    \<open>Scoring_Block\<close>: what the lines of a scoring block mean.
  \<^item> \<open>Metrics\<close> (the two \<^verbatim>\<open>metrics.go\<close>), \<open>Caddy_Modules\<close> (the \<^verbatim>\<open>init\<close> functions, module IDs, apps,
    admin routes): what the plug-ins ask of Prometheus and of Caddy.
  \<^item> \<open>LoadTest\<close> (\<^verbatim>\<open>loadtest/sweep.go\<close>, \<^verbatim>\<open>loadtest/report.go\<close>), \<open>LoadTest_Report\<close> (the report as
    text), \<open>LoadTest_Main\<close> (\<^verbatim>\<open>cmd/loadtest/main.go\<close>).

  Names are those of the source. Where both handlers have a function of one name, the fairness one
  carries a prefix (\<open>fProvision\<close>, \<open>fServeHTTP\<close>, \<open>fregisterHandler\<close>, \<open>fairness_UnmarshalCaddyfile\<close>)
  and the Caddyfile parser of the other handler is \<open>admission_UnmarshalCaddyfile\<close>. A method that
  mutates its receiver returns it; an error is the left of a sum or an option, named after the case.

  \<^bold>\<open>What is shown.\<close>

  \<^item> Controller: the limit stays in its range, moves only by the branch the observations select,
    respects its cooldowns, no wake-up is lost, and the gauge a handler sets lags the limit by at
    most the one report that is due.
  \<^item> Queue: the heap serves by priority, every ticket is accounted for in every interleaving, a free
    unit reaches the next ticket, a stop drains the queue and returns; every step refines a step of
    a server with a bounded number of places that serves by score and arrival. What a panic or a
    late request does is shown too, with the case where a stop waits for ever.
  \<^item> Scoring: monotonicity in traffic, independence of the map order; with the ticker and the
    idle sweep running beside the requests, the rates are the averages of the requests of each tick
    period, recomputed from the sequence of critical sections.
  \<^item> Cookie: a value verifies exactly when it is an unexpired signature; a renewal keeps the identity.
  \<^item> Handlers: references to shared resources balance, an enabled dimension has its data, a class is
    earned by a token or a signed cookie, the counters of the requests add up, \<open>Cleanup\<close> returns
    (unless panics have eaten the capacity) and leaves no goroutine; what the parsers accept is well
    formed and means what its lines say, and they end.
  \<^item> The two handlers: a parsed controller block bounds concurrency in every run, the score computed
    by one is the priority in the other, their directives run in that order, and where class and
    divisor do not decide, a client that counts more traffic never overtakes one that counts less.
  \<^item> Load generator: a level counts what its window saw, an inversion is a drop after the peak, the
    printed table reads back as the results, the exit status tells whether there was an inversion.

  \<^bold>\<open>Interfaces.\<close> The locales state what one part relies on: a ring buffer over its contents, a
  priority queue over a multiset, per-key statistics, the registry of handlers. Each is interpreted
  on the model's own operations where they are defined.

  \<^bold>\<open>Parameters.\<close> Code outside the repository is an argument: \<^verbatim>\<open>math.Log\<close> and \<^verbatim>\<open>math.Pow\<close>, number
  literals \<^verbatim>\<open>ParseFloat\<close> takes beyond plain decimals, the HMAC digest, the files of keys, random
  bytes and clocks, the JWT library, the MaxMind readers, Caddy's \<^verbatim>\<open>UsagePool\<close> (with its counting
  laws), \<^verbatim>\<open>caddyfile.Dispenser\<close> (with the law that it consumes tokens), its registries of modules
  and directives and its context, the Prometheus registry, the wrapped handler, the HTTP client,
  the file the load generator writes and the decimal text of a float in JSON. Loops of the
  Caddyfile parsers carry fuel; fuel above the number of tokens is enough
  (\<open>fairness_caddyfile_parse_ends\<close>).

  \<^bold>\<open>Not modelled.\<close> The text of error messages and of log lines, the JSON encoding of the status
  responses, the bodies of library code, and the type assertions \<^verbatim>\<open>var _ I = (*T)(nil)\<close>, which only
  the compiler reads: they decide nothing. Data races are excluded by construction: each step of a
  relation is what one goroutine does under one mutex. In two places the code takes a mutex twice
  and the model once: \<open>Enqueue\<close> reads the limit and the mean latency of one moment, and
  \<open>fServeHTTP\<close> scores a request in the state its own tracking left.
\<close>

section \<open>From a configuration to the bound on concurrency\<close>

text \<open>
  C1: whatever a provisioned handler is asked to do afterwards (requests, panics, limit
  adjustments, stop, in any interleaving), no more requests run at once than its controller
  block allows, and no more wait than \<open>queue_max_size\<close> allows when that is positive; for a minimum
  not above the maximum, a bound of at most 2 to the 62, and scores that are numbers.
\<close>

theorem provisioned_handler_bounds_concurrency:
  assumes "Provision h cfg app = Inr (handler, app', ms)"
    "cc_MinConcurrency (ad_Controller cfg) \<le> cc_MaxConcurrency (ad_Controller cfg)"
    "configured_bound (ad_Controller cfg) \<le> 2 ^ 62"
    "(sched_step M (\<lambda>x. x \<noteq> NaN))\<^sup>*\<^sup>* (sched_init (queueConfig cfg) (s_controller (ah_scheduler handler))) y"
  shows "int (length (y_running y)) \<le> configured_bound (ad_Controller cfg)
    \<and> (ad_QueueMaxSize cfg \<le> 0 \<or> Depth (y_s y) \<le> ad_QueueMaxSize cfg)"
proof -
  let ?c = "s_controller (ah_scheduler handler)" and ?B = "configured_bound (ad_Controller cfg)"
  have r: "sched_reachable M (\<lambda>x. x \<noteq> NaN) (queueConfig cfg) ?c y" using assms(4) by (simp add: sched_reachable_def)
  have b: "limits_within ?B ?c" "c_inFlight ?c = 0"
    using buildController_within [OF Provision_Inr(1) [OF assms(1)]] assms(2,3) by auto
  have "int (length (y_running y)) \<le> ?B"
    using cap_inv_reachable [OF r b] held_range [of "y_pc y"] by (auto simp: cap_inv_def)
  moreover have "ad_QueueMaxSize cfg \<le> 0 \<or> Depth (y_s y) \<le> ad_QueueMaxSize cfg"
    using depth_inv_reachable [OF r] loop_inv_reachable [OF r]
    by (auto simp: depth_inv_def loop_inv_def Depth_def queueConfig_def)
  ultimately show ?thesis by blast
qed

definition demo_admission :: AdmissionConfig where
  "demo_admission = \<lparr>ad_Backend = ''api'',
     ad_Controller = \<lparr>cc_Kind = ''fixed'', cc_Limit = 3, cc_MinConcurrency = 0, cc_InitialConcurrency = 0,
       cc_MaxConcurrency = 0, cc_TargetP95 = 0, cc_TimeoutRateThreshold = Fin 0, cc_ErrorRateThreshold = Fin 0,
       cc_AdjustInterval = 0\<rparr>,
     ad_QueueMaxSize = 4, ad_QueueTimeout = 1000\<rparr>"

theorem provisioned_handler_bounds_concurrency_witness:
  "int (length (y_running demo_y)) \<le> 3 \<and> Depth (y_s demo_y) \<le> 4"
proof -
  have b: "configured_bound (ad_Controller demo_admission) = 3" "ad_QueueMaxSize demo_admission = 4"
    by code_simp+
  have p: "\<exists>handler app' ms. Provision 1 demo_admission None = Inr (handler, app', ms)
      \<and> queueConfig demo_admission = demo_cfg \<and> s_controller (ah_scheduler handler) = NewFixedController 3"
    by (simp add: Provision_def buildController_def demo_admission_def controllerKindFixed_def NewScheduler_def
        queueConfig_def demo_cfg_def Let_def)
  then obtain handler app' ms where h: "Provision 1 demo_admission None = Inr (handler, app', ms)"
    "queueConfig demo_admission = demo_cfg" "s_controller (ah_scheduler handler) = NewFixedController 3" by blast
  have "cc_MinConcurrency (ad_Controller demo_admission) \<le> cc_MaxConcurrency (ad_Controller demo_admission)"
    by code_simp
  then show ?thesis
    using provisioned_handler_bounds_concurrency [OF h(1), of log2lib demo_y] demo_y_reachable h(2,3) b
    by (simp add: sched_reachable_def)
qed

section \<open>From the fairness score to the admission queue\<close>

lemma breakdown_final: "map_get (snd (computeScoreBreakdown s c)) ''final'' = Some (fst (computeScoreBreakdown s c))"
  by (cases s) (simp_all add: computeScoreBreakdown_def Let_def go_map split_beta)

lemma Enqueue_score: "fst (fst (Enqueue score s)) = Some t \<Longrightarrow> t_Score t = score"
  by (auto simp: Enqueue_def Let_def split: if_splits)

text \<open>
  C10: the two handlers agree on the request: the score that fairness reports in its metric and
  calls \<open>final\<close> in its breakdown is the one the admission queue orders the request by, and the
  decision log carries the classification the score was computed from, field for field.
\<close>

theorem admission_uses_the_fairness_score:
  "let out = fServeHTTP R h r vs; c = ho_classification out in
    \<exists>score breakdown. MScoreDistribution (fairness_backendLabel (Some (fh_Config h))) (cl_UserClass c) score \<in> set (ho_metrics out)
      \<and> map_get breakdown ''final'' = Some score
      \<and> (case fst (fst (Enqueue (score_of_vars (ho_vars out)) s)) of None \<Rightarrow> True | Some t \<Rightarrow> t_Score t = score)
      \<and> logDecision True (ho_vars out) p = [hd (logDecision True [] p) @
          [(''ip'', FStr (cl_IP c)), (''asn'', FUint (cl_ASN c)), (''country'', FStr (cl_Country c)),
           (''user_class'', FStr (cl_UserClass c)), (''exempt'', FBool (countryExempt (fh_scoring (ho_handler out)) (cl_Country c))),
           (''score_breakdown'', FFloats breakdown)]]"
proof -
  define out where "out = fServeHTTP R h r vs"
  define c where "c = ho_classification out"
  define s' where "s' = fh_scoring (ho_handler out)"
  define d where "d = priorityDivisor s' (rq_query r)"
  define b0 where "b0 = computeScoreBreakdown s' c"
  define sb where "sb = (if \<not> feq d (Fin 1) then (fdiv (fst b0) d, map_put ''final'' (fdiv (fst b0) d) (snd b0)) else b0)"
  define fields where "fields = [(''ip'', FStr (cl_IP c)), (''asn'', FUint (cl_ASN c)), (''country'', FStr (cl_Country c)),
           (''user_class'', FStr (cl_UserClass c)), (''exempt'', FBool (countryExempt s' (cl_Country c))),
           (''score_breakdown'', FFloats (snd sb))]"
  have o: "ho_vars out = map_put logFieldsVarKey (VFields fields) (map_put scoreVarKey (VFloat (fst sb))
      (map_put classificationVarKey VOther vs))"
    "MScoreDistribution (fairness_backendLabel (Some (fh_Config h))) (cl_UserClass c) (fst sb) \<in> set (ho_metrics out)"
    unfolding fields_def sb_def b0_def d_def s'_def c_def out_def fServeHTTP_def Let_def split_beta by simp_all
  have f: "map_get (snd sb) ''final'' = Some (fst sb)"
    by (simp add: sb_def b0_def breakdown_final go_map)
  have sc: "score_of_vars (ho_vars out) = fst sb"
    unfolding o score_of_vars_def by (simp add: go_map fairnessScoreVarKey_def scoreVarKey_def logFieldsVarKey_def)
  have lf: "map_get (ho_vars out) fairnessLogFieldsVarKey = Some (VFields fields)"
    unfolding o by (simp add: go_map fairnessLogFieldsVarKey_def logFieldsVarKey_def)
  have log: "logDecision True (ho_vars out) p = [hd (logDecision True [] p) @ fields]"
    unfolding logDecision_def lf by (simp add: copy_field_def fields_def)
  show ?thesis
    unfolding out_def [symmetric] c_def [symmetric] Let_def s'_def [symmetric]
    using o(2) f log Enqueue_score [of "fst sb" s]
    by (intro exI [of _ "fst sb"] exI [of _ "snd sb"]) (simp add: sc fields_def split: option.splits)
qed

end
